(* ===== verification/Prelude.thy ===== *)
theory Prelude
  imports "HOL-Library.Word" "HOL-Library.Sublist"
begin

text \<open>
  The shared ground of the development: the machine types of the source as
  words, a segment image as a list of bytes, little-endian storage of a word
  (what \<open>memcpy\<close> of a \<open>uintN_t\<close> leaves on the little-endian targets the format
  asserts), splicing bytes into an image, and the generic lemmas the component
  theories rely on.  Two collections carry their automation: \<open>byte_simps\<close> for
  byte images, \<open>geom_simps\<close> for alignment arithmetic.
\<close>

unbundle bit_operations_syntax

named_theorems byte_simps
named_theorems geom_simps

type_synonym u8 = "8 word"
type_synonym u16 = "16 word"
type_synonym u32 = "32 word"
type_synonym u64 = "64 word"
type_synonym byte = "8 word"
type_synonym bytes = "byte list"

section \<open>Little-endian storage\<close>

fun nat_to_le :: "nat \<Rightarrow> nat \<Rightarrow> bytes" where
  "nat_to_le 0 k = []"
| "nat_to_le (Suc n) k = word_of_nat (k mod 256) # nat_to_le n (k div 256)"

fun le_to_nat :: "bytes \<Rightarrow> nat" where
  "le_to_nat [] = 0"
| "le_to_nat (b # bs) = unat b + 256 * le_to_nat bs"

lemma length_nat_to_le [simp, byte_simps]: "length (nat_to_le n k) = n"
  by (induction n arbitrary: k) auto

lemma unat_byte_lt: "unat (b :: byte) < 256"
  using unsigned_less [of b] by simp

lemma unat_u16_lt: "unat (w :: u16) < 65536"
  using unsigned_less [of w] by simp

lemma unat_byte_mod: "unat (word_of_nat (k mod 256) :: byte) = k mod 256"
  by (simp add: unat_of_nat)

lemma le_to_nat_to_le: "le_to_nat (nat_to_le n k) = k mod 256 ^ n"
proof (induction n arbitrary: k)
  case 0
  then show ?case by simp
next
  case (Suc n)
  have "le_to_nat (nat_to_le (Suc n) k) = k mod 256 + 256 * (k div 256 mod 256 ^ n)"
    by (simp add: Suc unat_of_nat)
  also have "\<dots> = k mod (256 * 256 ^ n)"
    by (simp add: mod_mult2_eq)
  finally show ?case by simp
qed

lemma le_to_nat_bound: "le_to_nat bs < 256 ^ length bs"
proof (induction bs)
  case Nil
  then show ?case by simp
next
  case (Cons b bs)
  have "unat b < 256" by (rule unat_byte_lt)
  with Cons show ?case by simp
qed

lemma nat_to_le_of_le: "nat_to_le (length bs) (le_to_nat bs) = bs"
proof (induction bs)
  case Nil
  then show ?case by simp
next
  case (Cons b bs)
  have "unat b < 256" by (rule unat_byte_lt)
  with Cons show ?case by simp
qed

lemma nat_to_le_append:
  "nat_to_le (m + n) k = nat_to_le m k @ nat_to_le n (k div 256 ^ m)"
  by (induction m arbitrary: k) (auto simp: div_mult2_eq)

lemma nat_to_le_mod: "nat_to_le n (k mod 256 ^ n) = nat_to_le n k"
proof -
  have "nat_to_le n (le_to_nat (nat_to_le n k)) = nat_to_le n k"
    using nat_to_le_of_le [of "nat_to_le n k"] by simp
  then show ?thesis by (simp add: le_to_nat_to_le)
qed

lemma le_to_nat_append: "le_to_nat (xs @ ys) = le_to_nat xs + 256 ^ length xs * le_to_nat ys"
  by (induction xs) (auto simp: algebra_simps)

lemma nat_to_le_0: "nat_to_le n 0 = replicate n 0"
  by (induction n) auto

lemma le_to_nat_replicate_0 [simp]: "le_to_nat (replicate n 0) = 0"
  by (induction n) auto

lemma le_to_nat_eq_0_iff: "le_to_nat bs = 0 \<longleftrightarrow> (\<forall>b \<in> set bs. b = 0)"
  by (induction bs) (auto simp: unat_eq_0)

section \<open>Words in memory\<close>

text \<open>
  \<open>wordBytes\<close> is the object representation of a \<open>uintN_t\<close>; \<open>loadWord\<close> reads one
  back at a byte offset.  They are the field-level core of the source's
  \<open>storeUnaligned\<close> and \<open>loadUnaligned\<close>.
\<close>

definition wordBytes :: "'a::len word \<Rightarrow> bytes" where
  "wordBytes w = nat_to_le (LENGTH('a) div 8) (unat w)"

definition loadWord :: "nat \<Rightarrow> bytes \<Rightarrow> 'a::len word" where
  "loadWord off bs = word_of_nat (le_to_nat (take (LENGTH('a) div 8) (drop off bs)))"

lemma length_wordBytes [simp, byte_simps]: "length (wordBytes (w :: 'a::len word)) = LENGTH('a) div 8"
  by (simp add: wordBytes_def)

lemma wordBytes_0: "wordBytes (0 :: 'a::len word) = replicate (LENGTH('a) div 8) 0"
  by (simp add: wordBytes_def nat_to_le_0)

lemma wordBytes_byte [simp]: "wordBytes (b :: byte) = [b]"
proof -
  have "unat b < 256" by (rule unat_byte_lt)
  then show ?thesis by (simp add: wordBytes_def)
qed

lemma word_of_le_wordBytes:
  assumes "8 dvd LENGTH('a)"
  shows "word_of_nat (le_to_nat (wordBytes (w :: 'a::len word))) = w"
proof -
  have "(256::nat) ^ (LENGTH('a) div 8) = 2 ^ (8 * (LENGTH('a) div 8))"
    by (simp add: power_mult)
  also have "8 * (LENGTH('a) div 8) = LENGTH('a)" using assms by simp
  finally have "(256::nat) ^ (LENGTH('a) div 8) = 2 ^ LENGTH('a)" .
  then have "le_to_nat (wordBytes w) = unat w"
    using unsigned_less [of w] by (simp add: wordBytes_def le_to_nat_to_le)
  then show ?thesis by simp
qed

lemma loadWord_at:
  assumes "8 dvd LENGTH('a)" and "off = length pre"
  shows "loadWord off (pre @ wordBytes (w :: 'a::len word) @ post) = w"
  using assms by (simp add: loadWord_def word_of_le_wordBytes)

lemma loadWord_append_left [byte_simps]:
  "off + LENGTH('a) div 8 \<le> length xs \<Longrightarrow> (loadWord off (xs @ ys) :: 'a::len word) = loadWord off xs"
  by (simp add: loadWord_def)

lemma loadWord_append_right [byte_simps]:
  "length xs \<le> off \<Longrightarrow> loadWord off (xs @ ys) = loadWord (off - length xs) ys"
  by (simp add: loadWord_def)

lemma loadWord_drop [byte_simps]: "loadWord off (drop n xs) = loadWord (n + off) xs"
  by (simp add: loadWord_def add.commute)

lemma loadWord_take [byte_simps]:
  "off + LENGTH('a) div 8 \<le> n \<Longrightarrow> (loadWord off (take n xs) :: 'a::len word) = loadWord off xs"
  by (simp add: loadWord_def drop_take min_def)

lemma loadWord_wordBytes [byte_simps]:
  "8 dvd LENGTH('a) \<Longrightarrow> loadWord 0 (wordBytes (w :: 'a::len word)) = w"
  using loadWord_at [of 0 "[]" w "[]"] by simp

lemma loadWord_byte_0 [byte_simps]: "loadWord 0 (b # bs) = (b :: byte)"
  by (simp add: loadWord_def)

lemma loadWord_Cons [byte_simps]: "0 < off \<Longrightarrow> loadWord off (b # bs) = loadWord (off - 1) bs"
  by (simp add: loadWord_def drop_Cons')

lemma wordBytes_loadWord:
  assumes "8 dvd LENGTH('a)" and "off + LENGTH('a) div 8 \<le> length bs"
  shows "wordBytes (loadWord off bs :: 'a::len word) = take (LENGTH('a) div 8) (drop off bs)"
proof -
  let ?n = "LENGTH('a) div 8" and ?xs = "take (LENGTH('a) div 8) (drop off bs)"
  have len: "length ?xs = ?n" using assms(2) by simp
  have p: "(256::nat) ^ ?n = 2 ^ LENGTH('a)"
  proof -
    have "(256::nat) ^ ?n = 2 ^ (8 * ?n)" by (simp add: power_mult)
    also have "8 * ?n = LENGTH('a)" using assms(1) by simp
    finally show ?thesis .
  qed
  have "le_to_nat ?xs < 2 ^ LENGTH('a)"
    using le_to_nat_bound [of ?xs] by (simp only: len p)
  then have "unat (loadWord off bs :: 'a word) = le_to_nat ?xs"
    by (simp add: loadWord_def unat_of_nat)
  then show ?thesis
    using nat_to_le_of_le [of ?xs] by (simp only: wordBytes_def len)
qed

lemma loadWord_zeros:
  "\<forall>b \<in> set (take (LENGTH('a) div 8) (drop off bs)). b = 0 \<Longrightarrow> loadWord off bs = (0 :: 'a::len word)"
  by (simp add: loadWord_def le_to_nat_eq_0_iff [THEN iffD2])

section \<open>Writing into an image\<close>

text \<open>\<open>store bs off xs\<close> is \<open>memcpy(base + off, xs, sizeof xs)\<close> into the image \<open>bs\<close>.\<close>

definition store :: "bytes \<Rightarrow> nat \<Rightarrow> bytes \<Rightarrow> bytes" where
  "store bs off xs = take off bs @ xs @ drop (off + length xs) bs"

lemma length_store [simp, byte_simps]:
  "off + length xs \<le> length bs \<Longrightarrow> length (store bs off xs) = length bs"
  by (simp add: store_def)

lemma store_append [byte_simps]:
  "off = length pre \<Longrightarrow> length new = length old \<Longrightarrow>
    store (pre @ old @ post) off new = pre @ new @ post"
  by (simp add: store_def)

lemma store_Nil [simp]: "store bs off [] = bs"
  by (simp add: store_def)

lemma take_store_before [byte_simps]:
  "n \<le> off \<Longrightarrow> off \<le> length bs \<Longrightarrow> take n (store bs off xs) = take n bs"
  by (simp add: store_def min_def)

lemma store_shift [byte_simps]:
  "length pre \<le> off \<Longrightarrow> store (pre @ bs) off xs = pre @ store bs (off - length pre) xs"
  by (simp add: store_def add.commute)

lemma store_left [byte_simps]:
  "off + length xs \<le> length bs \<Longrightarrow> store (bs @ post) off xs = store bs off xs @ post"
  by (simp add: store_def)

lemma drop_store_after [byte_simps]:
  "off + length xs \<le> n \<Longrightarrow> off \<le> length bs \<Longrightarrow> drop n (store bs off xs) = drop n bs"
  by (simp add: store_def)

lemma store_eq_nth:
  assumes "off + length xs \<le> length bs" and "i < length bs"
  shows "store bs off xs ! i = (if off \<le> i \<and> i < off + length xs then xs ! (i - off) else bs ! i)"
  using assms by (auto simp: store_def nth_append)

section \<open>Alignment arithmetic\<close>

definition align8 :: "nat \<Rightarrow> nat" where
  "align8 n = (n + 7) div 8 * 8"

lemma align8_ge [geom_simps]: "n \<le> align8 n"
  unfolding align8_def by arith

lemma align8_lt [geom_simps]: "align8 n < n + 8"
  unfolding align8_def by arith

lemma align8_dvd [geom_simps]: "8 dvd align8 n"
  by (simp add: align8_def)

lemma align8_id [geom_simps]: "8 dvd n \<Longrightarrow> align8 n = n"
  by (auto simp: align8_def dvd_def)

lemma align8_mono: "m \<le> n \<Longrightarrow> align8 m \<le> align8 n"
  by (simp add: align8_def div_le_mono)

lemma align8_least: "n \<le> m \<Longrightarrow> 8 dvd m \<Longrightarrow> align8 n \<le> m"
  using align8_mono [of n m] by (simp add: align8_id)

section \<open>Numbers as text\<close>

text \<open>\<open>std::to_chars\<close> of an unsigned value, lower-case digits, no leading zeros.\<close>

definition digitChar :: "nat \<Rightarrow> char" where
  "digitChar d = char_of (if d < 10 then 48 + d else 87 + d)"

definition charDigit :: "char \<Rightarrow> nat" where
  "charDigit c = (let n = of_char c in if n < 58 then n - 48 else n - 87)"

function natToChars :: "nat \<Rightarrow> nat \<Rightarrow> string" where
  "natToChars b n =
     (if b < 2 \<or> n < b then [digitChar n] else natToChars b (n div b) @ [digitChar (n mod b)])"
  by pat_completeness auto
termination
  by (relation "measure (\<lambda>(b, n). n)") auto

declare natToChars.simps [simp del]

definition charsToNat :: "nat \<Rightarrow> string \<Rightarrow> nat" where
  "charsToNat b cs = foldl (\<lambda>a c. a * b + charDigit c) 0 cs"

lemma charDigit_digitChar: "d < 16 \<Longrightarrow> charDigit (digitChar d) = d"
  by (simp add: charDigit_def digitChar_def Let_def)

lemma charsToNat_natToChars:
  assumes "2 \<le> b" and "b \<le> 16"
  shows "charsToNat b (natToChars b n) = n"
  using assms
proof (induction b n rule: natToChars.induct)
  case (1 b n)
  have "n mod b < 16" using 1(2,3) mod_less_divisor [of b n] by linarith
  with 1 show ?case
    by (subst natToChars.simps) (auto simp: charsToNat_def charDigit_digitChar)
qed

lemma natToChars_inj: "2 \<le> b \<Longrightarrow> b \<le> 16 \<Longrightarrow> natToChars b m = natToChars b n \<longleftrightarrow> m = n"
  by (metis charsToNat_natToChars)

lemma natToChars_digits:
  "2 \<le> b \<Longrightarrow> b \<le> 10 \<Longrightarrow> c \<in> set (natToChars b n) \<Longrightarrow> of_char c \<in> {48 ..< 58 :: nat}"
proof (induction b n rule: natToChars.induct)
  case (1 b n)
  have "n mod b < 10" using 1(2,3) mod_less_divisor [of b n] by linarith
  with 1 show ?case by (subst (asm) natToChars.simps) (auto simp: digitChar_def split: if_splits)
qed

end
