(* ===== verification/Wire.thy ===== *)
theory Wire
  imports Prelude
begin

text \<open>
  The on-disk format of \<^verbatim>\<open>include/sub0log/wire.hpp\<close>: the format constants, the
  record kinds, flags and argument type codes, the packed record head word, the
  chunk size classes, the CRC-32 of a chunk header, and the fixed structures with
  their byte layout.  An \<open>enum class : uint8_t\<close> read off a file can hold a value no
  enumerator names, so each such type has one further constructor for those.
\<close>

section \<open>Constants\<close>

definition cMagic :: u64 where "cMagic = 0x1E474F4C30425553"
definition cFormatVersion :: u16 where "cFormatVersion = 1"
definition cCommitTag :: u16 where "cCommitTag = 0xC511"
definition cSegmentHeaderBytes :: nat where "cSegmentHeaderBytes = 4096"
definition cDefaultChunkBytes :: nat where "cDefaultChunkBytes = 64 * 1024"
definition cDefaultSegmentBytes :: nat where "cDefaultSegmentBytes = 8 * 1024 * 1024"
definition cRecordAlign :: nat where "cRecordAlign = 8"
definition cChunkSizeUnit :: u32 where "cChunkSizeUnit = 128"
definition cMaxChunkSizeClass :: u8 where "cMaxChunkSizeClass = 17"
definition cInlineBytesCap :: nat where "cInlineBytesCap = 512"
definition cMaxContinuations :: nat where "cMaxContinuations = 7"
definition cNextChunkOffset :: nat where "cNextChunkOffset = 128"
definition cCompactSegmentHeaderBytes :: nat where
  "cCompactSegmentHeaderBytes = cNextChunkOffset + 64"

lemmas wire_consts = cSegmentHeaderBytes_def cDefaultChunkBytes_def cDefaultSegmentBytes_def
  cRecordAlign_def cInlineBytesCap_def cMaxContinuations_def cNextChunkOffset_def
  cCompactSegmentHeaderBytes_def

definition cFlagTruncated :: u8 where "cFlagTruncated = 1"
definition cFlagContinued :: u8 where "cFlagContinued = 2"

section \<open>Record kinds and type codes\<close>

datatype RecordKind =
    KindInvalid | Message | SiteDefinition | Continuation | Blob
  | ChildOutput | ChildStart | ChildExit | SubsystemDefinition
  | UnknownKind u8

fun kindCode :: "RecordKind \<Rightarrow> u8" where
  "kindCode KindInvalid = 0"
| "kindCode Message = 1"
| "kindCode SiteDefinition = 2"
| "kindCode Continuation = 3"
| "kindCode Blob = 4"
| "kindCode ChildOutput = 5"
| "kindCode ChildStart = 6"
| "kindCode ChildExit = 7"
| "kindCode SubsystemDefinition = 8"
| "kindCode (UnknownKind c) = c"

definition kindOfCode :: "u8 \<Rightarrow> RecordKind" where
  "kindOfCode c =
     (if c = 0 then KindInvalid else if c = 1 then Message else if c = 2 then SiteDefinition
      else if c = 3 then Continuation else if c = 4 then Blob else if c = 5 then ChildOutput
      else if c = 6 then ChildStart else if c = 7 then ChildExit
      else if c = 8 then SubsystemDefinition else UnknownKind c)"

text \<open>An \<open>UnknownKind\<close> never stands for a number that has an enumerator.\<close>

definition kindCanonical :: "RecordKind \<Rightarrow> bool" where
  "kindCanonical k \<longleftrightarrow> kindOfCode (kindCode k) = k"

lemma kindCode_kindOfCode [simp]: "kindCode (kindOfCode c) = c"
  by (simp add: kindOfCode_def)

lemma kindOfCode_kindCode: "kindCanonical k \<Longrightarrow> kindOfCode (kindCode k) = k"
  by (simp add: kindCanonical_def)

lemma kindCanonical_named [simp]:
  "kindCanonical Message" "kindCanonical SiteDefinition" "kindCanonical Continuation"
  "kindCanonical SubsystemDefinition" "kindCanonical ChildOutput" "kindCanonical ChildStart"
  "kindCanonical ChildExit"
  by (simp_all add: kindCanonical_def kindOfCode_def)

datatype TypeCode =
    TcInvalid | TcBool | TcI8 | TcU8 | TcI16 | TcU16 | TcI32 | TcU32 | TcI64 | TcU64
  | TcF32 | TcF64 | TcChar | TcBytes | TcPointer
  | TcUnknown u8

fun typeCodeByte :: "TypeCode \<Rightarrow> u8" where
  "typeCodeByte TcInvalid = 0"
| "typeCodeByte TcBool = 1"
| "typeCodeByte TcI8 = 2"
| "typeCodeByte TcU8 = 3"
| "typeCodeByte TcI16 = 4"
| "typeCodeByte TcU16 = 5"
| "typeCodeByte TcI32 = 6"
| "typeCodeByte TcU32 = 7"
| "typeCodeByte TcI64 = 8"
| "typeCodeByte TcU64 = 9"
| "typeCodeByte TcF32 = 10"
| "typeCodeByte TcF64 = 11"
| "typeCodeByte TcChar = 12"
| "typeCodeByte TcBytes = 13"
| "typeCodeByte TcPointer = 14"
| "typeCodeByte (TcUnknown c) = c"

definition typeCodeOfByte :: "u8 \<Rightarrow> TypeCode" where
  "typeCodeOfByte c =
     (if c = 0 then TcInvalid else if c = 1 then TcBool else if c = 2 then TcI8
      else if c = 3 then TcU8 else if c = 4 then TcI16 else if c = 5 then TcU16
      else if c = 6 then TcI32 else if c = 7 then TcU32 else if c = 8 then TcI64
      else if c = 9 then TcU64 else if c = 10 then TcF32 else if c = 11 then TcF64
      else if c = 12 then TcChar else if c = 13 then TcBytes else if c = 14 then TcPointer
      else TcUnknown c)"

fun fixedSizeOf :: "TypeCode \<Rightarrow> nat" where
  "fixedSizeOf TcBool = 1" | "fixedSizeOf TcI8 = 1" | "fixedSizeOf TcU8 = 1"
| "fixedSizeOf TcChar = 1"
| "fixedSizeOf TcI16 = 2" | "fixedSizeOf TcU16 = 2"
| "fixedSizeOf TcI32 = 4" | "fixedSizeOf TcU32 = 4" | "fixedSizeOf TcF32 = 4"
| "fixedSizeOf TcI64 = 8" | "fixedSizeOf TcU64 = 8" | "fixedSizeOf TcF64 = 8"
| "fixedSizeOf TcPointer = 8"
| "fixedSizeOf TcBytes = 0" | "fixedSizeOf TcInvalid = 0"
| "fixedSizeOf (TcUnknown c) = 0"

section \<open>Chunk size classes\<close>

definition chunkBytesForSizeClass :: "u8 \<Rightarrow> u32" where
  "chunkBytesForSizeClass sizeClass = push_bit (unat sizeClass - 1) cChunkSizeUnit"

text \<open>The loop over classes \<open>1 .. cMaxChunkSizeClass\<close>, first match wins.\<close>

definition sizeClassForChunkBytes :: "u32 \<Rightarrow> u8 option" where
  "sizeClassForChunkBytes bytes =
     List.find (\<lambda>sizeClass. chunkBytesForSizeClass sizeClass = bytes)
       (map word_of_nat [1 ..< Suc (unat cMaxChunkSizeClass)])"

section \<open>The record head word\<close>

record RecordHead =
  rh_payloadBytes :: u16
  rh_kind :: RecordKind
  rh_flags :: u8
  rh_sequence :: u16

definition pack :: "RecordHead \<Rightarrow> u64" where
  "pack h = ucast (rh_payloadBytes h)
     OR push_bit 16 (ucast (kindCode (rh_kind h)))
     OR push_bit 24 (ucast (rh_flags h))
     OR push_bit 32 (ucast (rh_sequence h))
     OR push_bit 48 (ucast cCommitTag)"

definition unpack :: "u64 \<Rightarrow> RecordHead" where
  "unpack word = \<lparr>
     rh_payloadBytes = ucast (word AND 0xFFFF),
     rh_kind = kindOfCode (ucast (drop_bit 16 word AND 0xFF)),
     rh_flags = ucast (drop_bit 24 word AND 0xFF),
     rh_sequence = ucast (drop_bit 32 word AND 0xFFFF)\<rparr>"

definition isCommitted :: "u64 \<Rightarrow> bool" where
  "isCommitted word \<longleftrightarrow> (ucast (drop_bit 48 word) :: u16) = cCommitTag"

definition paddedPayload :: "u32 \<Rightarrow> u32" where
  "paddedPayload payloadBytes = (payloadBytes + (8 - 1)) AND NOT (8 - 1)"

section \<open>On-disk structures\<close>

record SegmentHeader =
  sh_magic :: u64
  sh_formatVersion :: u16
  sh_reserved0 :: u16
  sh_headerBytes :: u32
  sh_chunkBytes :: u32
  sh_reserved1 :: u32
  sh_segmentBytes :: u64
  sh_generation :: u64
  sh_processId :: u64
  sh_anchorMonoNs :: u64
  sh_anchorWallNs :: u64

definition SegmentHeader_bytes :: "SegmentHeader \<Rightarrow> bytes" where
  "SegmentHeader_bytes h =
     wordBytes (sh_magic h) @ wordBytes (sh_formatVersion h) @ wordBytes (sh_reserved0 h)
     @ wordBytes (sh_headerBytes h) @ wordBytes (sh_chunkBytes h) @ wordBytes (sh_reserved1 h)
     @ wordBytes (sh_segmentBytes h) @ wordBytes (sh_generation h) @ wordBytes (sh_processId h)
     @ wordBytes (sh_anchorMonoNs h) @ wordBytes (sh_anchorWallNs h)"

definition SegmentHeader_load :: "bytes \<Rightarrow> SegmentHeader" where
  "SegmentHeader_load bs = \<lparr>
     sh_magic = loadWord 0 bs, sh_formatVersion = loadWord 8 bs, sh_reserved0 = loadWord 10 bs,
     sh_headerBytes = loadWord 12 bs, sh_chunkBytes = loadWord 16 bs,
     sh_reserved1 = loadWord 20 bs, sh_segmentBytes = loadWord 24 bs,
     sh_generation = loadWord 32 bs, sh_processId = loadWord 40 bs,
     sh_anchorMonoNs = loadWord 48 bs, sh_anchorWallNs = loadWord 56 bs\<rparr>"

definition cSegmentHeaderSize :: nat where "cSegmentHeaderSize = 64"

record ChunkHeader =
  ch_generation :: u64
  ch_ownerThread :: u64
  ch_claimMonoNs :: u64
  ch_headerChecksum :: u32
  ch_chunkSizeClass :: u8

text \<open>The three reserved bytes at the end of the struct are value-initialised to zero.\<close>

definition ChunkHeader_bytes :: "ChunkHeader \<Rightarrow> bytes" where
  "ChunkHeader_bytes h =
     wordBytes (ch_generation h) @ wordBytes (ch_ownerThread h) @ wordBytes (ch_claimMonoNs h)
     @ wordBytes (ch_headerChecksum h) @ wordBytes (ch_chunkSizeClass h) @ [0, 0, 0]"

definition ChunkHeader_load :: "nat \<Rightarrow> bytes \<Rightarrow> ChunkHeader" where
  "ChunkHeader_load off bs = \<lparr>
     ch_generation = loadWord off bs, ch_ownerThread = loadWord (off + 8) bs,
     ch_claimMonoNs = loadWord (off + 16) bs, ch_headerChecksum = loadWord (off + 24) bs,
     ch_chunkSizeClass = loadWord (off + 28) bs\<rparr>"

definition cChunkHeaderSize :: nat where "cChunkHeaderSize = 32"

record MessagePayload =
  mp_siteId :: u64
  mp_monoNs :: u64
  mp_correlationId :: u64

definition MessagePayload_bytes :: "MessagePayload \<Rightarrow> bytes" where
  "MessagePayload_bytes p =
     wordBytes (mp_siteId p) @ wordBytes (mp_monoNs p) @ wordBytes (mp_correlationId p)"

definition MessagePayload_load :: "bytes \<Rightarrow> MessagePayload" where
  "MessagePayload_load bs = \<lparr>
     mp_siteId = loadWord 0 bs, mp_monoNs = loadWord 8 bs, mp_correlationId = loadWord 16 bs\<rparr>"

definition cMessagePayloadSize :: nat where "cMessagePayloadSize = 24"

record ContinuationPayload =
  cp_siteId :: u64
  cp_argIndex :: u8
  cp_reserved0 :: u8
  cp_reserved1 :: u16
  cp_reserved2 :: u32

definition ContinuationPayload_bytes :: "ContinuationPayload \<Rightarrow> bytes" where
  "ContinuationPayload_bytes p =
     wordBytes (cp_siteId p) @ wordBytes (cp_argIndex p) @ wordBytes (cp_reserved0 p)
     @ wordBytes (cp_reserved1 p) @ wordBytes (cp_reserved2 p)"

definition ContinuationPayload_load :: "bytes \<Rightarrow> ContinuationPayload" where
  "ContinuationPayload_load bs = \<lparr>
     cp_siteId = loadWord 0 bs, cp_argIndex = loadWord 8 bs, cp_reserved0 = loadWord 9 bs,
     cp_reserved1 = loadWord 10 bs, cp_reserved2 = loadWord 12 bs\<rparr>"

definition cContinuationPayloadSize :: nat where "cContinuationPayloadSize = 16"

record SiteDefinitionPayload =
  sdp_siteId :: u64
  sdp_subsystemId :: u32
  sdp_line :: u32
  sdp_severity :: u8
  sdp_argCount :: u8
  sdp_reserved0 :: u16
  sdp_reserved1 :: u32

definition SiteDefinitionPayload_bytes :: "SiteDefinitionPayload \<Rightarrow> bytes" where
  "SiteDefinitionPayload_bytes p =
     wordBytes (sdp_siteId p) @ wordBytes (sdp_subsystemId p) @ wordBytes (sdp_line p)
     @ wordBytes (sdp_severity p) @ wordBytes (sdp_argCount p) @ wordBytes (sdp_reserved0 p)
     @ wordBytes (sdp_reserved1 p)"

definition SiteDefinitionPayload_load :: "bytes \<Rightarrow> SiteDefinitionPayload" where
  "SiteDefinitionPayload_load bs = \<lparr>
     sdp_siteId = loadWord 0 bs, sdp_subsystemId = loadWord 8 bs, sdp_line = loadWord 12 bs,
     sdp_severity = loadWord 16 bs, sdp_argCount = loadWord 17 bs,
     sdp_reserved0 = loadWord 18 bs, sdp_reserved1 = loadWord 20 bs\<rparr>"

definition cSiteDefinitionPayloadSize :: nat where "cSiteDefinitionPayloadSize = 24"

record SubsystemDefinitionPayload =
  ssp_subsystemId :: u32
  ssp_nameLen :: u16
  ssp_reserved0 :: u16

definition SubsystemDefinitionPayload_bytes :: "SubsystemDefinitionPayload \<Rightarrow> bytes" where
  "SubsystemDefinitionPayload_bytes p =
     wordBytes (ssp_subsystemId p) @ wordBytes (ssp_nameLen p) @ wordBytes (ssp_reserved0 p)"

definition SubsystemDefinitionPayload_load :: "bytes \<Rightarrow> SubsystemDefinitionPayload" where
  "SubsystemDefinitionPayload_load bs = \<lparr>
     ssp_subsystemId = loadWord 0 bs, ssp_nameLen = loadWord 4 bs, ssp_reserved0 = loadWord 6 bs\<rparr>"

definition cSubsystemDefinitionPayloadSize :: nat where "cSubsystemDefinitionPayloadSize = 8"

lemmas struct_sizes = cSegmentHeaderSize_def cChunkHeaderSize_def cMessagePayloadSize_def
  cContinuationPayloadSize_def cSiteDefinitionPayloadSize_def cSubsystemDefinitionPayloadSize_def

section \<open>CRC-32\<close>

definition cCrc32Poly :: u32 where "cCrc32Poly = 0xEDB88320"

text \<open>One bit of the reflected CRC division: the body of the table's inner loop.\<close>

definition crcBit :: "u32 \<Rightarrow> u32" where
  "crcBit crc = (if crc AND 1 \<noteq> 0 then drop_bit 1 crc XOR cCrc32Poly else drop_bit 1 crc)"

definition cCrc32NibbleTable :: "u32 list" where
  "cCrc32NibbleTable = map (\<lambda>n. (crcBit ^^ 4) (word_of_nat n)) [0 ..< 16]"

definition crcNibble :: "u32 \<Rightarrow> u32" where
  "crcNibble crc = drop_bit 4 crc XOR cCrc32NibbleTable ! unat (crc AND 0xF)"

definition crcByte :: "u32 \<Rightarrow> byte \<Rightarrow> u32" where
  "crcByte crc b = crcNibble (crcNibble (crc XOR ucast b))"

definition crc32 :: "u32 \<Rightarrow> bytes \<Rightarrow> u32" where
  "crc32 crc data = NOT (foldl crcByte (NOT crc) data)"

definition computeChunkHeaderChecksum :: "u64 \<Rightarrow> u64 \<Rightarrow> u64 \<Rightarrow> u8 \<Rightarrow> u32" where
  "computeChunkHeaderChecksum generation ownerThread claimMonoNs chunkSizeClass =
     (let crc = crc32 0 (wordBytes generation @ wordBytes ownerThread @ wordBytes claimMonoNs);
          crc = crc32 crc [chunkSizeClass]
      in if crc = 0 then 1 else crc)"

section \<open>The head word\<close>

lemma word_masks: "(0xFFFF :: u64) = mask 16" "(0xFF :: u64) = mask 8"
  by (simp_all add: mask_eq_exp_minus_1)

lemma unpack_pack: "kindCanonical (rh_kind h) \<Longrightarrow> unpack (pack h) = h"
proof -
  assume k: "kindCanonical (rh_kind h)"
  have a: "(ucast (pack h AND 0xFFFF) :: u16) = rh_payloadBytes h"
    unfolding pack_def word_masks
    by (rule bit_word_eqI) (auto simp: bit_simps)
  have b: "(ucast (drop_bit 16 (pack h) AND 0xFF) :: u8) = kindCode (rh_kind h)"
    unfolding pack_def word_masks
    by (rule bit_word_eqI) (auto simp: bit_simps dest: bit_imp_le_length)
  have c: "(ucast (drop_bit 24 (pack h) AND 0xFF) :: u8) = rh_flags h"
    unfolding pack_def word_masks
    by (rule bit_word_eqI) (auto simp: bit_simps dest: bit_imp_le_length)
  have d: "(ucast (drop_bit 32 (pack h) AND 0xFFFF) :: u16) = rh_sequence h"
    unfolding pack_def word_masks
    by (rule bit_word_eqI) (auto simp: bit_simps dest: bit_imp_le_length)
  show ?thesis
    using k by (simp add: unpack_def a b c d kindOfCode_kindCode)
qed

lemma isCommitted_pack [simp]: "isCommitted (pack h)"
proof -
  have "(ucast (drop_bit 48 (pack h)) :: u16) = cCommitTag"
    unfolding pack_def
    by (rule bit_word_eqI) (auto simp: bit_simps dest: bit_imp_le_length)
  then show ?thesis by (simp add: isCommitted_def)
qed

lemma not_isCommitted_0 [simp]: "\<not> isCommitted 0"
  by (simp add: isCommitted_def cCommitTag_def)


lemma pack_unpack:
  assumes "isCommitted w"
  shows "pack (unpack w) = w"
proof -
  have tag: "cCommitTag = ucast (drop_bit 48 w)" using assms by (simp add: isCommitted_def)
  show ?thesis
    unfolding pack_def unpack_def tag word_masks RecordHead.simps kindCode_kindOfCode
  proof (rule bit_word_eqI)
    fix n assume "n < LENGTH(64)"
    then consider "n < 16" | "16 \<le> n" "n < 24" | "24 \<le> n" "n < 32" | "32 \<le> n" "n < 48"
      | "48 \<le> n" "n < 64" by force
    then show "bit ((ucast (ucast (w AND mask 16) :: u16) :: u64)
        OR push_bit 16 (ucast (ucast (drop_bit 16 w AND mask 8) :: u8))
        OR push_bit 24 (ucast (ucast (drop_bit 24 w AND mask 8) :: u8))
        OR push_bit 32 (ucast (ucast (drop_bit 32 w AND mask 16) :: u16))
        OR push_bit 48 (ucast (ucast (drop_bit 48 w) :: u16))) n = bit w n"
      by cases (auto simp: bit_simps)
  qed
qed

lemma unat_paddedPayload:
  assumes "unat n + 7 < 2 ^ 32"
  shows "unat (paddedPayload n) = align8 (unat n)"
proof -
  have m: "(7 :: u32) = mask 3" by (simp add: mask_eq_exp_minus_1)
  have "(n + 7) AND NOT (mask 3) = push_bit 3 (drop_bit 3 (n + 7))"
    by (rule bit_word_eqI) (auto simp: bit_simps)
  moreover have "unat (n + 7) = unat n + 7"
    using assms by (simp add: unat_word_ariths)
  ultimately show ?thesis
    using assms
    by (simp add: paddedPayload_def m align8_def unat_drop_bit_eq push_bit_eq_mult unat_word_ariths drop_bit_eq_div)
qed

section \<open>Structure layout\<close>

lemma length_structs [simp, byte_simps]:
  "length (SegmentHeader_bytes sh) = 64"
  "length (ChunkHeader_bytes ch) = 32"
  "length (MessagePayload_bytes mp) = 24"
  "length (ContinuationPayload_bytes cp) = 16"
  "length (SiteDefinitionPayload_bytes sdp) = 24"
  "length (SubsystemDefinitionPayload_bytes ssp) = 8"
  by (simp_all add: SegmentHeader_bytes_def ChunkHeader_bytes_def MessagePayload_bytes_def
      ContinuationPayload_bytes_def SiteDefinitionPayload_bytes_def
      SubsystemDefinitionPayload_bytes_def)

lemma SegmentHeader_load_bytes: "SegmentHeader_load (SegmentHeader_bytes h @ rest) = h"
  by (cases h) (simp add: SegmentHeader_load_def SegmentHeader_bytes_def byte_simps)

lemma ChunkHeader_load_bytes:
  "off = length pre \<Longrightarrow> ChunkHeader_load off (pre @ ChunkHeader_bytes h @ rest) = h"
  by (cases h) (simp add: ChunkHeader_load_def ChunkHeader_bytes_def byte_simps)

lemma MessagePayload_load_bytes: "MessagePayload_load (MessagePayload_bytes p @ rest) = p"
  by (cases p) (simp add: MessagePayload_load_def MessagePayload_bytes_def byte_simps)

lemma ContinuationPayload_load_bytes:
  "ContinuationPayload_load (ContinuationPayload_bytes p @ rest) = p"
  by (cases p) (simp add: ContinuationPayload_load_def ContinuationPayload_bytes_def byte_simps)

lemma SiteDefinitionPayload_load_bytes:
  "SiteDefinitionPayload_load (SiteDefinitionPayload_bytes p @ rest) = p"
  by (cases p) (simp add: SiteDefinitionPayload_load_def SiteDefinitionPayload_bytes_def byte_simps)

lemma SubsystemDefinitionPayload_load_bytes:
  "SubsystemDefinitionPayload_load (SubsystemDefinitionPayload_bytes p @ rest) = p"
  by (cases p) (simp add: SubsystemDefinitionPayload_load_def SubsystemDefinitionPayload_bytes_def byte_simps)


section \<open>Size classes\<close>

lemma unat_sizeClass:
  "c \<in> {1..17} \<Longrightarrow> unat (chunkBytesForSizeClass (word_of_nat c)) = 64 * 2 ^ c"
proof -
  assume "c \<in> {1..17}"
  then have "c \<in> set [1 ..< 18]" by simp
  moreover have "\<forall>c \<in> set [1 ..< 18]. unat (chunkBytesForSizeClass (word_of_nat c)) = 64 * 2 ^ c"
    by (simp add: chunkBytesForSizeClass_def cChunkSizeUnit_def upt_rec)
  ultimately show ?thesis by blast
qed

lemma sizeClassForChunkBytes_SomeE:
  assumes "sizeClassForChunkBytes b = Some c"
  obtains "chunkBytesForSizeClass c = b" "unat c \<in> {1..17}"
proof -
  have "c \<in> word_of_nat ` {1..17}" "chunkBytesForSizeClass c = b"
    using assms
    by (auto simp: sizeClassForChunkBytes_def find_Some_iff cMaxChunkSizeClass_def
        intro!: image_eqI [where x = "Suc i" for i])
  then show ?thesis using that by (auto simp: unat_of_nat)
qed

lemma sizeClassForChunkBytes_inv:
  assumes "unat c \<in> {1..17}"
  shows "sizeClassForChunkBytes (chunkBytesForSizeClass c) = Some c"
proof -
  have "unat c \<in> set [1 ..< 18]" using assms by simp
  moreover have "\<forall>k \<in> set [1 ..< 18].
      sizeClassForChunkBytes (chunkBytesForSizeClass (word_of_nat k)) = Some (word_of_nat k)"
    by (simp add: sizeClassForChunkBytes_def chunkBytesForSizeClass_def cChunkSizeUnit_def
        cMaxChunkSizeClass_def upt_rec)
  ultimately have "sizeClassForChunkBytes (chunkBytesForSizeClass (word_of_nat (unat c))) =
    Some (word_of_nat (unat c))" by blast
  then show ?thesis by simp
qed

section \<open>The checksum\<close>

lemma cCrc32NibbleTable_code [code]:
  "cCrc32NibbleTable = [0x0, 0x1db71064, 0x3b6e20c8, 0x26d930ac, 0x76dc4190, 0x6b6b51f4, 0x4db26158, 0x5005713c, 0xedb88320, 0xf00f9344, 0xd6d6a3e8, 0xcb61b38c, 0x9b64c2b0, 0x86d3d2d4, 0xa00ae278, 0xbdbdf21c]"
  by code_simp

lemma crcBit_alt: "crcBit x = drop_bit 1 x XOR (if bit x 0 then cCrc32Poly else 0)"
proof -
  have "(x AND 1 \<noteq> 0) = bit x 0"
    by (simp add: and_one_eq bit_0 odd_iff_mod_2_eq_one)
  then show ?thesis by (simp add: crcBit_def)
qed

lemma crcBit_linear: "crcBit (x XOR y) = crcBit x XOR crcBit y"
  by (auto simp: crcBit_alt drop_bit_xor bit_xor_iff ac_simps xor.assoc)

lemma crcBit_pow_linear: "(crcBit ^^ n) (x XOR y) = (crcBit ^^ n) x XOR (crcBit ^^ n) y"
  by (induction n) (simp_all add: crcBit_linear)

lemma crcBit_pow_shift:
  "(\<And>i. i < n \<Longrightarrow> \<not> bit x i) \<Longrightarrow> (crcBit ^^ n) x = drop_bit n x"
proof (induction n arbitrary: x)
  case 0
  then show ?case by simp
next
  case (Suc n)
  have "crcBit x = drop_bit 1 x" using Suc.prems [of 0] by (simp add: crcBit_alt)
  moreover have "(crcBit ^^ n) (drop_bit 1 x) = drop_bit n (drop_bit 1 x)"
    using Suc.prems by (intro Suc.IH) (simp add: bit_simps)
  ultimately show ?case by (simp add: funpow_swap1 ac_simps)
qed

lemma crcNibble_eq_bits: "crcNibble x = (crcBit ^^ 4) x"
proof -
  let ?lo = "x AND 0xF" and ?hi = "x AND NOT 0xF"
  have m: "(0xF :: u32) = mask 4" by (simp add: mask_eq_exp_minus_1)
  have split: "x = ?hi XOR ?lo"
    by (rule bit_word_eqI) (auto simp: bit_simps)
  have lt: "unat ?lo < 16"
  proof -
    have "?lo = take_bit 4 x" by (simp add: m take_bit_eq_mask)
    then have "unat ?lo = take_bit 4 (unat x)" by (simp add: unsigned_take_bit_eq)
    then show ?thesis by (simp add: take_bit_eq_mod)
  qed
  have "(crcBit ^^ 4) ?hi = drop_bit 4 ?hi"
    by (rule crcBit_pow_shift) (auto simp: m bit_simps)
  also have "drop_bit 4 ?hi = drop_bit 4 x"
    by (rule bit_word_eqI) (auto simp: m bit_simps dest: bit_imp_le_length)
  finally have hi: "(crcBit ^^ 4) ?hi = drop_bit 4 x" .
  have "cCrc32NibbleTable ! unat ?lo = (crcBit ^^ 4) ?lo"
    using lt by (simp add: cCrc32NibbleTable_def)
  then show ?thesis
    using hi crcBit_pow_linear [of 4 ?hi ?lo] split by (simp add: crcNibble_def)
qed

lemma crcByte_eq_bits: "crcByte crc b = (crcBit ^^ 8) (crc XOR ucast b)"
proof -
  have "(crcBit ^^ 8) y = (crcBit ^^ 4) ((crcBit ^^ 4) y)" for y
    by (metis comp_apply funpow_add numeral_Bit0)
  then show ?thesis by (simp add: crcByte_def crcNibble_eq_bits)
qed

lemma crcBit_inj: "inj crcBit"
proof (rule injI)
  fix x y assume eq: "crcBit x = crcBit y"
  have top: "bit (crcBit z) 31 = bit z 0" for z :: u32
    by (auto simp: crcBit_alt bit_simps cCrc32Poly_def dest: bit_imp_le_length)
  have b0: "bit x 0 = bit y 0" using eq top by metis
  have "drop_bit 1 x = drop_bit 1 y"
    using eq b0 by (auto simp: crcBit_alt xor_self_eq ac_simps dest: arg_cong [where f = "\<lambda>z. z XOR cCrc32Poly"])
  then have "bit x (Suc n) = bit y (Suc n)" for n
    by (metis bit_drop_bit_eq comp_apply plus_1_eq_Suc)
  then show "x = y" using b0 by (intro bit_eqI) (metis not0_implies_Suc)
qed

lemma crc_chain: "crc32 (crc32 c xs) ys = crc32 c (xs @ ys)"
  by (simp add: crc32_def)

lemma xor_cancel_right: "x XOR z = y XOR z \<Longrightarrow> x = (y :: 'a::len word)"
proof -
  assume "x XOR z = y XOR z"
  then have "(x XOR z) XOR z = (y XOR z) XOR z" by simp
  then show ?thesis by (simp add: xor.assoc)
qed

lemma crcByte_inj: "crcByte c b = crcByte c' b' \<Longrightarrow> c XOR ucast b = c' XOR ucast b'"
  unfolding crcByte_eq_bits by (erule injD [OF inj_fn [OF crcBit_inj]])

lemma crcByte_inj_crc: "crcByte c b = crcByte c' b \<Longrightarrow> c = c'"
  by (drule crcByte_inj) (erule xor_cancel_right)

lemma crcByte_inj_byte: "crcByte c b = crcByte c b' \<Longrightarrow> b = b'"
proof -
  assume "crcByte c b = crcByte c b'"
  then have "(ucast b :: u32) XOR c = ucast b' XOR c"
    by (drule_tac crcByte_inj) (simp add: xor.commute)
  then have "(ucast b :: u32) = ucast b'" by (rule xor_cancel_right)
  then have bits: "bit (ucast b :: u32) n = bit (ucast b' :: u32) n" for n by simp
  show ?thesis
  proof (rule bit_word_eqI)
    fix n assume "n < LENGTH(8)"
    then show "bit b n = bit b' n" using bits [of n] by (simp add: bit_simps)
  qed
qed

lemma crc32_fold_inj: "foldl crcByte c xs = foldl crcByte c' xs \<Longrightarrow> c = c'"
  by (induction xs arbitrary: c c') (auto dest: crcByte_inj_crc)

lemma crc32_single_byte:
  "b \<noteq> b' \<Longrightarrow> crc32 c (xs @ b # ys) \<noteq> crc32 c (xs @ b' # ys)"
  by (auto simp: crc32_def dest!: crc32_fold_inj crcByte_inj_byte)
lemma crcByte_diff: "crcByte c b XOR crcByte c' b' = (crcBit ^^ 8) ((c XOR c') XOR (ucast b XOR ucast b'))"
  by (simp add: crcByte_eq_bits crcBit_pow_linear [symmetric] ac_simps)

lemma crc_fold_diff:
  "foldl crcByte c ys XOR foldl crcByte c' ys = (crcBit ^^ (8 * length ys)) (c XOR c')"
proof (induction ys arbitrary: c c')
  case Nil
  then show ?case by simp
next
  case (Cons b ys)
  have "foldl crcByte c (b # ys) XOR foldl crcByte c' (b # ys) =
      (crcBit ^^ (8 * length ys)) ((crcBit ^^ 8) (c XOR c'))"
    by (simp add: Cons crcByte_diff)
  also have "\<dots> = (crcBit ^^ (8 * length ys + 8)) (c XOR c')" by (simp only: funpow_add comp_apply)
  finally show ?case by (simp add: add.commute)
qed

text \<open>
  The preimages of 1 under whole-byte CRC steps, over the 25 checksummed bytes.
  None of them is the difference of two bytes, so a one-byte corruption never moves
  a checksum between 0 and 1, the two values the "0 means absent" remapping joins.
\<close>

definition crcOnePreimages :: "u32 list" where
  "crcOnePreimages = [1, 0x100, 0x10000, 0x1000000, 0xdb710641, 0xcacf972a, 0x7555a0f1,
     0x3f036dc2, 0xb66b1fa6, 0xd329b3f, 0x5ff1018a, 0xf4898239, 0x5d376816, 0x5f7314fa,
     0x769cf239, 0x40b3a940, 0x6ca226ea, 0xa4b30754, 0x62c33966, 0x1e24b95c, 0x254b3492,
     0x24e632b2, 0x529114f3, 0xf9f6c5b3, 0x4f1adc9c, 0xc52ecea3]"

fun preimageChain :: "u32 list \<Rightarrow> bool" where
  "preimageChain (v # v' # vs) \<longleftrightarrow>
     crcNibble (crcNibble v') = v \<and> 255 < v' \<and> preimageChain (v' # vs)"
| "preimageChain vs \<longleftrightarrow> True"

lemma preimageChain_one: "preimageChain crcOnePreimages"
  by code_simp

lemma crcBit_pow8: "(crcBit ^^ 8) x = crcNibble (crcNibble x)"
  by (metis comp_apply crcNibble_eq_bits funpow_add numeral_Bit0)

lemma preimageChain_pow:
  "preimageChain (v # vs) \<Longrightarrow> 0 < n \<Longrightarrow> n \<le> length vs \<Longrightarrow>
    (crcBit ^^ (8 * n)) ((v # vs) ! n) = v \<and> 255 < (v # vs) ! n"
proof (induction vs arbitrary: v n)
  case Nil
  then show ?case by simp
next
  case (Cons v' vs)
  then obtain m where n: "n = Suc m" by (cases n) auto
  have step: "(crcBit ^^ 8) v' = v" "255 < v'" "preimageChain (v' # vs)"
    using Cons.prems(1) by (simp_all add: crcBit_pow8)
  show ?case
  proof (cases m)
    case 0
    then show ?thesis using step n by simp
  next
    case (Suc k)
    have ih: "(crcBit ^^ (8 * m)) ((v' # vs) ! m) = v' \<and> 255 < (v' # vs) ! m"
      using Cons.prems(3) n Suc step(3) by (intro Cons.IH) auto
    have "(crcBit ^^ (8 * n)) ((v # v' # vs) ! n) = (crcBit ^^ 8) ((crcBit ^^ (8 * m)) ((v' # vs) ! m))"
      by (simp add: n funpow_add)
    then show ?thesis using ih step(1) n by simp
  qed
qed
lemma crc_check: "crc32 0 [0x31,0x32,0x33,0x34,0x35,0x36,0x37,0x38,0x39] = 0xCBF43926"
  by code_simp

definition checksummedBytes :: "u64 \<Rightarrow> u64 \<Rightarrow> u64 \<Rightarrow> u8 \<Rightarrow> bytes" where
  "checksummedBytes g t m k = wordBytes g @ wordBytes t @ wordBytes m @ [k]"

lemma checksum_eq_crc:
  "computeChunkHeaderChecksum g t m k =
     (let crc = crc32 0 (checksummedBytes g t m k) in if crc = 0 then 1 else crc)"
  by (simp add: computeChunkHeaderChecksum_def checksummedBytes_def crc_chain)

lemma computeChunkHeaderChecksum_nonzero [simp]: "computeChunkHeaderChecksum g t m k \<noteq> 0"
  by (simp add: checksum_eq_crc Let_def)

lemma crc32_diff:
  "crc32 c (xs @ b # ys) XOR crc32 c (xs @ b' # ys) =
    (crcBit ^^ (8 * Suc (length ys))) (ucast (b XOR b'))"
proof -
  let ?s = "foldl crcByte (NOT c) xs"
  have "crc32 c (xs @ b # ys) XOR crc32 c (xs @ b' # ys) =
      foldl crcByte (crcByte ?s b) ys XOR foldl crcByte (crcByte ?s b') ys"
    by (rule bit_word_eqI) (auto simp: crc32_def bit_simps)
  also have "\<dots> = (crcBit ^^ (8 * length ys)) ((crcBit ^^ 8) (ucast b XOR ucast b'))"
    by (simp add: crc_fold_diff crcByte_diff)
  also have "\<dots> = (crcBit ^^ (8 * length ys + 8)) (ucast b XOR ucast b')"
    by (simp only: funpow_add comp_apply)
  also have "(ucast b :: u32) XOR ucast b' = ucast (b XOR b')"
    by (rule bit_word_eqI) (auto simp: bit_simps)
  finally show ?thesis by (simp add: add.commute)
qed

lemma crc32_diff_not_one:
  assumes "length ys < 25"
  shows "crc32 c (xs @ b # ys) XOR crc32 c (xs @ b' # ys) \<noteq> 1"
proof
  let ?e = "ucast (b XOR b') :: u32" and ?n = "Suc (length ys)"
  assume "crc32 c (xs @ b # ys) XOR crc32 c (xs @ b' # ys) = 1"
  then have e: "(crcBit ^^ (8 * ?n)) ?e = 1" by (simp only: crc32_diff)
  have "1 # tl crcOnePreimages = crcOnePreimages" and len: "length (tl crcOnePreimages) = 25"
    by (simp_all add: crcOnePreimages_def)
  then have "preimageChain (1 # tl crcOnePreimages)" using preimageChain_one by (simp only:)
  moreover have "?n \<le> length (tl crcOnePreimages)" using len assms by simp
  ultimately have v: "(crcBit ^^ (8 * ?n)) ((1 # tl crcOnePreimages) ! ?n) = 1 \<and>
      255 < (1 # tl crcOnePreimages) ! ?n"
    by (intro preimageChain_pow) (assumption | rule zero_less_Suc)+
  have "?e = (1 # tl crcOnePreimages) ! ?n"
    by (rule injD [OF inj_fn [OF crcBit_inj, of "8 * ?n"]]) (simp only: e v)
  moreover have "?e \<le> 255"
  proof -
    have "unat ?e < 256"
      using unat_byte_lt [of "b XOR b'"] by (simp add: unsigned_ucast_eq take_bit_nat_eq_self)
    then show ?thesis by (simp add: word_le_nat_alt)
  qed
  ultimately show False using v by (metis leD)
qed

lemma checksum_single_byte:
  assumes "checksummedBytes g t m k = xs @ b # ys"
    and "checksummedBytes g' t' m' k' = xs @ b' # ys" and "b \<noteq> b'"
  shows "computeChunkHeaderChecksum g t m k \<noteq> computeChunkHeaderChecksum g' t' m' k'"
proof -
  let ?c = "crc32 0 (xs @ b # ys)" and ?c' = "crc32 0 (xs @ b' # ys)"
  have "length (checksummedBytes g t m k) = 25" by (simp add: checksummedBytes_def)
  then have "length ys < 25" using assms(1) by simp
  then have "?c XOR ?c' \<noteq> 1" by (rule crc32_diff_not_one)
  then have "\<not> (?c = 0 \<and> ?c' = 1)" "\<not> (?c = 1 \<and> ?c' = 0)" by auto
  moreover have "?c \<noteq> ?c'" using assms(3) by (rule crc32_single_byte)
  ultimately show ?thesis by (auto simp: checksum_eq_crc assms(1,2) Let_def)
qed

section \<open>Properties\<close>

text \<open>
  Packing and unpacking the head word are inverse: a head whose kind has its
  canonical constructor survives the round trip and carries the commit tag, and every
  word that carries the tag is the packing of what it unpacks to.
\<close>

theorem head_word_codec:
  "(kindCanonical (rh_kind h) \<longrightarrow> isCommitted (pack h) \<and> unpack (pack h) = h)
    \<and> (isCommitted w \<longrightarrow> pack (unpack w) = w)"
  by (simp add: unpack_pack pack_unpack)

theorem head_word_codec_witness:
  "unpack (pack \<lparr>rh_payloadBytes = 24, rh_kind = Message, rh_flags = 3, rh_sequence = 65535\<rparr>)
     = \<lparr>rh_payloadBytes = 24, rh_kind = Message, rh_flags = 3, rh_sequence = 65535\<rparr>
   \<and> pack (unpack 0xC511000003010018) = 0xC511000003010018"
  using head_word_codec [of "\<lparr>rh_payloadBytes = 24, rh_kind = Message, rh_flags = 3, rh_sequence = 65535\<rparr>"
      "0xC511000003010018"]
  by (simp add: isCommitted_def cCommitTag_def)

text \<open>
  C28. The nibble-table CRC is the bit-at-a-time reflected CRC-32 division, for every
  seed and input, and it has the catalogue check value.
\<close>

theorem crc32_reference:
  "crc32 crc data = NOT (foldl (\<lambda>c b. (crcBit ^^ 8) (c XOR ucast b)) (NOT crc) data)
    \<and> crc32 0 [0x31,0x32,0x33,0x34,0x35,0x36,0x37,0x38,0x39] = 0xCBF43926"
proof -
  have "crcByte = (\<lambda>c b. (crcBit ^^ 8) (c XOR ucast b))" by (intro ext) (rule crcByte_eq_bits)
  then show ?thesis by (simp only: crc32_def [of crc data] crc_check simp_thms)
qed

text \<open>
  C29. Changing any single byte of the fields the chunk header checksum covers changes
  the checksum, although the value 0 is remapped to 1.
\<close>

theorem checksum_detects_byte:
  assumes "checksummedBytes g t m k = xs @ b # ys"
    and "checksummedBytes g' t' m' k' = xs @ b' # ys" and "b \<noteq> b'"
  shows "computeChunkHeaderChecksum g t m k \<noteq> computeChunkHeaderChecksum g' t' m' k'"
  using assms by (rule checksum_single_byte)

theorem checksum_detects_byte_witness:
  "computeChunkHeaderChecksum 5 7 9 1 \<noteq> computeChunkHeaderChecksum 5 7 9 2"
  by (rule checksum_detects_byte [where xs = "wordBytes (5 :: u64) @ wordBytes (7 :: u64) @ wordBytes (9 :: u64)"
        and ys = "[]" and b = 1 and b' = 2])
    (simp_all add: checksummedBytes_def)

text \<open>
  A chunk size has size class \<open>c\<close> exactly when \<open>c\<close> is one of 1..17 and the size is
  \<open>128 << (c - 1)\<close>; the shift never leaves the 32 bits.
\<close>

theorem size_class_exact:
  "sizeClassForChunkBytes b = Some c \<longleftrightarrow> unat c \<in> {1..17} \<and> unat b = 64 * 2 ^ unat c"
proof
  assume "sizeClassForChunkBytes b = Some c"
  then show "unat c \<in> {1..17} \<and> unat b = 64 * 2 ^ unat c"
    using unat_sizeClass [of "unat c"] by (auto elim: sizeClassForChunkBytes_SomeE)
next
  assume r: "unat c \<in> {1..17} \<and> unat b = 64 * 2 ^ unat c"
  then have "b = chunkBytesForSizeClass c"
    using unat_sizeClass [of "unat c"] by (simp add: word_unat_eq_iff)
  with r show "sizeClassForChunkBytes b = Some c" by (simp add: sizeClassForChunkBytes_inv)
qed

end
