(* ===== verification/Atomics.thy ===== *)
theory Atomics
  imports Wire
begin

text \<open>
  The atomic operations of \<^verbatim>\<open>include/sub0log/detail/atomics.hpp\<close>.  The template
  parameter \<open>Split\<close> (the compile-time choice between one 64-bit atomic and two 32-bit
  ones) is the Boolean \<open>split\<close>.  An operation that runs without interference is a
  function on the image; the bounded compare-exchange loop, whose point is what other
  claimants do between its load and its exchange, is also a step relation over any
  number of concurrent calls.  The locale \<open>chunk_cursor\<close> states what the claim cursor
  promises its clients; both instantiations of the template are interpreted in it.
\<close>

section \<open>Head words\<close>

text \<open>The stores \<open>storeHeadWord\<close> performs, in program order.\<close>

definition headWordStores :: "bool \<Rightarrow> nat \<Rightarrow> u64 \<Rightarrow> (nat \<times> bytes) list" where
  "headWordStores split slot word =
     (if split
      then [(slot, wordBytes (ucast word :: u32)),
            (slot + 4, wordBytes (ucast (drop_bit 32 word) :: u32))]
      else [(slot, wordBytes word)])"

fun runStores :: "bytes \<Rightarrow> (nat \<times> bytes) list \<Rightarrow> bytes" where
  "runStores bs [] = bs"
| "runStores bs ((off, xs) # ws) = runStores (store bs off xs) ws"

definition storeHeadWord :: "bool \<Rightarrow> bytes \<Rightarrow> nat \<Rightarrow> u64 \<Rightarrow> bytes" where
  "storeHeadWord split bs slot word = runStores bs (headWordStores split slot word)"

definition loadHeadWord :: "bytes \<Rightarrow> nat \<Rightarrow> u64" where
  "loadHeadWord bs slot =
     (let high = loadWord (slot + 4) bs :: u32;
          low = loadWord slot bs :: u32
      in push_bit 32 (ucast high) OR ucast low)"

section \<open>The claim cursor\<close>

text \<open>
  \<open>claimChunkIndex\<close> returns the index and the image after the claim.  On the split
  path this is the loop when its first exchange succeeds, or when the cursor has
  already reached the count.
\<close>

definition claimChunkIndex :: "bool \<Rightarrow> nat \<Rightarrow> nat \<Rightarrow> bytes \<Rightarrow> nat \<times> bytes" where
  "claimChunkIndex split cursor chunkCount bs =
     (if split
      then (let index = loadWord cursor bs :: u32
            in if unat index < chunkCount
               then (unat index, store bs cursor (wordBytes (index + 1)))
               else (chunkCount, bs))
      else (let index = loadWord cursor bs :: u64
            in (if unat index < chunkCount then unat index else chunkCount,
                store bs cursor (wordBytes (index + 1)))))"

definition loadClaimedChunks :: "bool \<Rightarrow> nat \<Rightarrow> nat \<Rightarrow> bytes \<Rightarrow> nat" where
  "loadClaimedChunks split cursor chunkCount bs =
     (let claimed = if split then unat (loadWord cursor bs :: u32)
                    else unat (loadWord cursor bs :: u64)
      in if claimed < chunkCount then claimed else chunkCount)"

section \<open>Counters\<close>

definition counterIncrement :: "bool \<Rightarrow> u64 \<Rightarrow> u64" where
  "counterIncrement split value = (if split then ucast (ucast value + 1 :: u32) else value + 1)"

section \<open>Concurrent claims on the split path\<close>

text \<open>
  One call of \<open>claimChunkIndex<true>\<close>: before its load, in the loop holding the index
  it last saw, or returned.  Calls are numbered; a thread that claims several times
  makes several calls.  \<open>compare_exchange_weak\<close> may fail although the value matches,
  and always leaves the current value in \<open>index\<close> when it fails.
\<close>

datatype claim_pc = Start | Looping nat | Returned nat

record claim_state =
  cl_cursor :: nat
  cl_pcs :: "nat \<Rightarrow> claim_pc"

definition claim_init :: claim_state where
  "claim_init = \<lparr>cl_cursor = 0, cl_pcs = (\<lambda>_. Start)\<rparr>"

inductive claim_step :: "nat \<Rightarrow> claim_state \<Rightarrow> claim_state \<Rightarrow> bool" for n :: nat where
  load: "cl_pcs s t = Start \<Longrightarrow>
     claim_step n s (s\<lparr>cl_pcs := (cl_pcs s)(t := Looping (cl_cursor s))\<rparr>)"
| exchange: "cl_pcs s t = Looping i \<Longrightarrow> i < n \<Longrightarrow> cl_cursor s = i \<Longrightarrow>
     claim_step n s \<lparr>cl_cursor = i + 1, cl_pcs = (cl_pcs s)(t := Returned i)\<rparr>"
| retry: "cl_pcs s t = Looping i \<Longrightarrow> i < n \<Longrightarrow>
     claim_step n s (s\<lparr>cl_pcs := (cl_pcs s)(t := Looping (cl_cursor s))\<rparr>)"
| exhausted: "cl_pcs s t = Looping i \<Longrightarrow> \<not> i < n \<Longrightarrow>
     claim_step n s (s\<lparr>cl_pcs := (cl_pcs s)(t := Returned n)\<rparr>)"

inductive claim_reachable :: "nat \<Rightarrow> claim_state \<Rightarrow> bool" for n :: nat where
  init: "claim_reachable n claim_init"
| step: "claim_reachable n s \<Longrightarrow> claim_step n s s' \<Longrightarrow> claim_reachable n s'"

inductive_cases claim_stepE: "claim_step n s s'"

section \<open>Head words: both paths leave the same bytes\<close>

lemma unat_ucast_u32: "unat (ucast (w :: u64) :: u32) = unat w mod 2 ^ 32"
  by (simp add: unsigned_ucast_eq take_bit_eq_mod)

lemma wordBytes_split:
  "wordBytes (w :: u64) = wordBytes (ucast w :: u32) @ wordBytes (ucast (drop_bit 32 w) :: u32)"
proof -
  have "unat (drop_bit 32 w) = unat w div 2 ^ 32"
    by (simp only: unat_drop_bit_eq drop_bit_eq_div [where 'a = nat])
  moreover have "unat w < 2 ^ 64" using unsigned_less [of w] by simp
  ultimately have hi: "unat (ucast (drop_bit 32 w) :: u32) = unat w div 2 ^ 32"
    by (simp add: unat_ucast_u32 less_mult_imp_div_less)
  have "nat_to_le 8 (unat w) = nat_to_le 4 (unat w) @ nat_to_le 4 (unat w div 256 ^ 4)"
    using nat_to_le_append [of 4 4 "unat w"] by simp
  moreover have "nat_to_le 4 (unat w) = nat_to_le 4 (unat w mod 2 ^ 32)"
    using nat_to_le_mod [of 4 "unat w"] by simp
  ultimately show ?thesis
    by (simp add: wordBytes_def hi unat_ucast_u32 [of w])
qed

lemma length_runStores:
  "\<forall>(off, xs) \<in> set ws. off + length xs \<le> length bs \<Longrightarrow> length (runStores bs ws) = length bs"
  by (induction ws arbitrary: bs) auto

lemma runStores_append: "runStores bs (ws @ ws') = runStores (runStores bs ws) ws'"
  by (induction ws arbitrary: bs) auto

lemma storeHeadWord_eq:
  assumes "slot + 8 \<le> length bs"
  shows "storeHeadWord split bs slot word = store bs slot (wordBytes word)"
proof (cases split)
  case False
  then show ?thesis by (simp add: storeHeadWord_def headWordStores_def)
next
  case True
  let ?lo = "wordBytes (ucast word :: u32)" and ?hi = "wordBytes (ucast (drop_bit 32 word) :: u32)"
  have "store (store bs slot ?lo) (slot + 4) ?hi = store bs slot (?lo @ ?hi)"
    using assms by (simp add: store_def add.commute)
  with True show ?thesis
    by (simp add: storeHeadWord_def headWordStores_def wordBytes_split [symmetric])
qed

lemma loadHeadWord_eq_loadWord:
  assumes "slot + 8 \<le> length bs"
  shows "loadHeadWord bs slot = loadWord slot bs"
proof -
  let ?w = "loadWord slot bs :: u64"
  have "wordBytes ?w = take 8 (drop slot bs)"
    using assms by (simp add: wordBytes_loadWord)
  moreover have "bs = take slot bs @ take 8 (drop slot bs) @ drop (slot + 8) bs"
    by (metis add.commute append_take_drop_id drop_drop)
  ultimately have bs: "bs = take slot bs @ wordBytes (ucast ?w :: u32)
      @ wordBytes (ucast (drop_bit 32 ?w) :: u32) @ drop (slot + 8) bs"
    by (metis append.assoc wordBytes_split)
  have len: "length (take slot bs) = slot" using assms by simp
  have "(loadWord slot (take slot bs @ wordBytes (ucast ?w :: u32)
      @ wordBytes (ucast (drop_bit 32 ?w) :: u32) @ drop (slot + 8) bs) :: u32) = ucast ?w"
    using assms by (intro loadWord_at) simp_all
  then have lo: "(loadWord slot bs :: u32) = ucast ?w" by (simp only: bs [symmetric])
  have "(loadWord (slot + 4) ((take slot bs @ wordBytes (ucast ?w :: u32))
      @ wordBytes (ucast (drop_bit 32 ?w) :: u32) @ drop (slot + 8) bs) :: u32) = ucast (drop_bit 32 ?w)"
    using assms by (intro loadWord_at) simp_all
  then have hi: "(loadWord (slot + 4) bs :: u32) = ucast (drop_bit 32 ?w)"
    by (simp only: append.assoc bs [symmetric])
  have "push_bit 32 (ucast (ucast (drop_bit 32 ?w) :: u32)) OR ucast (ucast ?w :: u32) = ?w"
    by (rule bit_word_eqI) (auto simp: bit_simps)
  then show ?thesis by (simp add: loadHeadWord_def lo hi Let_def)
qed

lemma loadHeadWord_store_same [simp]:
  assumes "slot + 8 \<le> length bs"
  shows "loadHeadWord (storeHeadWord split bs slot w) slot = w"
proof -
  have "slot + 8 \<le> length (store bs slot (wordBytes w))" using assms by simp
  then have "loadHeadWord (store bs slot (wordBytes w)) slot
      = loadWord slot (take slot bs @ wordBytes w @ drop (slot + 8) bs)"
    by (subst loadHeadWord_eq_loadWord) (simp_all add: store_def)
  then show ?thesis
    using assms by (simp add: storeHeadWord_eq loadWord_at)
qed


section \<open>A reader racing the two half-stores\<close>

text \<open>
  While the split writer publishes a word over unwritten space, memory passes through
  three states: nothing stored, the low half stored, both.  A reader that takes the
  high half in one state and the low half in the same or a later one assembles
  \<open>racingRead\<close>.
\<close>

definition writerState :: "bool \<Rightarrow> bytes \<Rightarrow> nat \<Rightarrow> u64 \<Rightarrow> nat \<Rightarrow> bytes" where
  "writerState split bs slot word k = runStores bs (take k (headWordStores split slot word))"

definition racingRead :: "bytes \<Rightarrow> bytes \<Rightarrow> nat \<Rightarrow> u64" where
  "racingRead bsHigh bsLow slot =
     push_bit 32 (ucast (loadWord (slot + 4) bsHigh :: u32)) OR ucast (loadWord slot bsLow :: u32)"

lemma isCommitted_racing:
  "isCommitted (push_bit 32 (ucast (h :: u32)) OR ucast (l :: u32))
    \<longleftrightarrow> (ucast (drop_bit 16 h) :: u16) = cCommitTag"
proof -
  have "(ucast (drop_bit 48 (push_bit 32 (ucast h) OR ucast l :: u64)) :: u16) = ucast (drop_bit 16 h)"
    by (rule bit_word_eqI) (auto simp: bit_simps dest: bit_imp_le_length)
  then show ?thesis by (simp add: isCommitted_def)
qed

lemma racing_read_complete:
  assumes "slot + 8 \<le> length bs" and zero: "loadHeadWord bs slot = 0"
    and "i \<le> j" and "j \<le> length (headWordStores split slot word)"
    and committed: "isCommitted (racingRead (writerState split bs slot word i)
                                            (writerState split bs slot word j) slot)"
  shows "racingRead (writerState split bs slot word i) (writerState split bs slot word j) slot = word"
proof -
  let ?n = "length (headWordStores split slot word)"
  have hz: "(loadWord (slot + 4) bs :: u32) = 0"
  proof -
    have "push_bit 32 (ucast (loadWord (slot + 4) bs :: u32)) OR ucast (loadWord slot bs :: u32) = (0 :: u64)"
      using zero by (simp add: loadHeadWord_def Let_def)
    then have b: "bit (push_bit 32 (ucast (loadWord (slot + 4) bs :: u32)) OR ucast (loadWord slot bs :: u32) :: u64) n = False" for n
      by simp
    show ?thesis
    proof (rule bit_word_eqI)
      fix n assume "n < LENGTH(32)"
      then show "bit (loadWord (slot + 4) bs :: u32) n = bit 0 n"
        using b [of "n + 32"] by (simp add: bit_simps)
    qed
  qed
  have high0: "(loadWord (slot + 4) (writerState split bs slot word i) :: u32) = 0" if "i < ?n"
  proof (cases i)
    case 0
    then show ?thesis using hz by (simp add: writerState_def)
  next
    case (Suc k)
    then have "split" "i = 1" using that by (auto simp: headWordStores_def split: if_splits)
    then have "writerState split bs slot word i = store bs slot (wordBytes (ucast word :: u32))"
      by (simp add: writerState_def headWordStores_def)
    then show ?thesis
      using assms(1) hz by (simp add: store_def byte_simps)
  qed
  have "i = ?n"
  proof (rule ccontr)
    assume "i \<noteq> ?n"
    then have "i < ?n" using assms(3,4) by simp
    then have "\<not> isCommitted (racingRead (writerState split bs slot word i)
                                          (writerState split bs slot word j) slot)"
      unfolding racingRead_def isCommitted_racing by (simp add: high0 cCommitTag_def)
    with committed show False by contradiction
  qed
  then have ij: "i = ?n" "j = ?n" using assms(3,4) by auto
  have "writerState split bs slot word ?n = storeHeadWord split bs slot word"
    by (simp add: writerState_def storeHeadWord_def)
  then show ?thesis
    using loadHeadWord_store_same [OF assms(1), of split word] ij
    by (simp add: racingRead_def loadHeadWord_def Let_def)
qed


section \<open>The contract of the claim cursor\<close>

text \<open>
  \<open>claim c n\<close> hands out an index or, when none is left, \<open>n\<close>; \<open>claimed c n\<close> is the
  number handed out.  \<open>room c n k\<close> says \<open>k\<close> further claims cannot wrap the cursor.
\<close>

locale chunk_cursor =
  fixes claim :: "'c \<Rightarrow> nat \<Rightarrow> nat \<times> 'c"
    and claimed :: "'c \<Rightarrow> nat \<Rightarrow> nat"
    and room :: "'c \<Rightarrow> nat \<Rightarrow> nat \<Rightarrow> bool"
  assumes claim_index: "room c n (Suc k) \<Longrightarrow> fst (claim c n) = claimed c n"
    and claim_counts: "room c n (Suc k) \<Longrightarrow> claimed (snd (claim c n)) n = min n (Suc (claimed c n))"
    and claim_room: "room c n (Suc k) \<Longrightarrow> room (snd (claim c n)) n k"
    and claimed_le: "claimed c n \<le> n"
begin

primrec claims :: "nat \<Rightarrow> 'c \<Rightarrow> nat \<Rightarrow> nat list" where
  "claims 0 c n = []"
| "claims (Suc k) c n = fst (claim c n) # claims k (snd (claim c n)) n"

lemma claims_eq:
  "room c n k \<Longrightarrow> claims k c n = map (\<lambda>i. min n (claimed c n + i)) [0 ..< k]"
proof (induction k arbitrary: c)
  case 0
  then show ?case by simp
next
  case (Suc k)
  let ?c' = "snd (claim c n)"
  have "claims k ?c' n = map (\<lambda>i. min n (claimed ?c' n + i)) [0 ..< k]"
    using Suc.prems by (intro Suc.IH claim_room)
  also have "\<dots> = map (\<lambda>i. min n (claimed c n + Suc i)) [0 ..< k]"
    using claim_counts [OF Suc.prems] by auto
  finally have "claims k ?c' n = map (\<lambda>i. min n (claimed c n + i)) (map Suc [0 ..< k])"
    by simp
  then show ?case
    using claim_index [OF Suc.prems] claimed_le [of c n]
    by (simp add: map_Suc_upt upt_conv_Cons del: upt_Suc)
qed

lemma claims_distinct:
  assumes "room c n k"
  shows "distinct (filter (\<lambda>i. i < n) (claims k c n))"
proof -
  have "filter (\<lambda>i. i < n) (claims k c n)
      = filter (\<lambda>i. i < n) (map (\<lambda>i. claimed c n + i) [0 ..< k])"
    unfolding claims_eq [OF assms] by (induction k) auto
  then show ?thesis by (simp add: distinct_map inj_on_def distinct_filter)
qed

end

lemma loadWord_store_same:
  assumes "8 dvd LENGTH('a)" and "off \<le> length bs"
  shows "loadWord off (store bs off (wordBytes (w :: 'a::len word))) = w"
  unfolding store_def using assms by (intro loadWord_at) auto

definition roomWide :: "nat \<Rightarrow> bytes \<Rightarrow> nat \<Rightarrow> nat \<Rightarrow> bool" where
  "roomWide cursor bs n k \<longleftrightarrow> cursor + 8 \<le> length bs \<and> unat (loadWord cursor bs :: u64) + k < 2 ^ 64"

definition roomSplit :: "nat \<Rightarrow> bytes \<Rightarrow> nat \<Rightarrow> nat \<Rightarrow> bool" where
  "roomSplit cursor bs n k \<longleftrightarrow> cursor + 8 \<le> length bs \<and> n < 2 ^ 32"

interpretation wide: chunk_cursor "\<lambda>bs n. claimChunkIndex False cursor n bs"
  "\<lambda>bs n. loadClaimedChunks False cursor n bs" "roomWide cursor" for cursor
proof (unfold_locales, goal_cases)
  case (1 c n k)
  then show ?case by (simp add: claimChunkIndex_def loadClaimedChunks_def Let_def)
next
  case (2 c n k)
  then have "unat ((loadWord cursor c :: u64) + 1) = unat (loadWord cursor c :: u64) + 1"
    by (simp add: roomWide_def unat_word_ariths)
  with 2 show ?case
    by (simp add: claimChunkIndex_def loadClaimedChunks_def Let_def loadWord_store_same roomWide_def)
next
  case (3 c n k)
  then have "unat ((loadWord cursor c :: u64) + 1) = unat (loadWord cursor c :: u64) + 1"
    by (simp add: roomWide_def unat_word_ariths)
  with 3 show ?case
    by (simp add: claimChunkIndex_def Let_def loadWord_store_same roomWide_def)
next
  case (4 c n)
  then show ?case by (simp add: loadClaimedChunks_def Let_def)
qed

interpretation narrow: chunk_cursor "\<lambda>bs n. claimChunkIndex True cursor n bs"
  "\<lambda>bs n. loadClaimedChunks True cursor n bs" "roomSplit cursor" for cursor
proof (unfold_locales, goal_cases)
  case (1 c n k)
  then show ?case by (simp add: claimChunkIndex_def loadClaimedChunks_def Let_def)
next
  case (2 c n k)
  have "unat ((loadWord cursor c :: u32) + 1) = unat (loadWord cursor c :: u32) + 1"
    if "unat (loadWord cursor c :: u32) < n"
    using 2 that by (simp add: roomSplit_def unat_word_ariths)
  with 2 show ?case
    by (simp add: claimChunkIndex_def loadClaimedChunks_def Let_def loadWord_store_same roomSplit_def)
next
  case (3 c n k)
  then show ?case by (simp add: claimChunkIndex_def Let_def roomSplit_def)
next
  case (4 c n)
  then show ?case by (simp add: loadClaimedChunks_def Let_def)
qed

section \<open>Concurrent claimants never share a chunk\<close>

definition claim_inv :: "nat \<Rightarrow> claim_state \<Rightarrow> bool" where
  "claim_inv n s \<longleftrightarrow> cl_cursor s \<le> n
     \<and> (\<forall>t i. cl_pcs s t = Returned i \<longrightarrow> i < cl_cursor s \<or> i = n)
     \<and> (\<forall>i < cl_cursor s. \<exists>!t. cl_pcs s t = Returned i)
     \<and> (\<forall>t i. cl_pcs s t = Looping i \<longrightarrow> i \<le> cl_cursor s)"

lemma claim_inv_update_other:
  assumes "claim_inv n s" and "cl_pcs s t = Start \<or> (\<exists>j. cl_pcs s t = Looping j)"
    and "pc = Looping (cl_cursor s) \<or> pc = Returned n"
    and "pc = Returned n \<Longrightarrow> cl_cursor s = n"
  shows "claim_inv n (s\<lparr>cl_pcs := (cl_pcs s)(t := pc)\<rparr>)"
proof -
  have "\<exists>!u. ((cl_pcs s)(t := pc)) u = Returned i" if "i < cl_cursor s" for i
  proof -
    have "((cl_pcs s)(t := pc)) u = Returned i \<longleftrightarrow> cl_pcs s u = Returned i" for u
      using assms(2,3,4) that by (cases "u = t") auto
    then show ?thesis using assms(1) that by (simp add: claim_inv_def)
  qed
  then show ?thesis using assms by (auto simp: claim_inv_def)
qed

lemma claim_step_inv: "claim_step n s s' \<Longrightarrow> claim_inv n s \<Longrightarrow> claim_inv n s'"
proof (induction rule: claim_step.induct)
  case (load s t)
  then show ?case by (intro claim_inv_update_other) auto
next
  case (exchange s t i)
  have other: "cl_pcs s u \<noteq> Returned i" for u
    using exchange by (auto simp: claim_inv_def)
  have "\<exists>!u. ((cl_pcs s)(t := Returned i)) u = Returned j" if "j < i + 1" for j
  proof (cases "j = i")
    case True
    then show ?thesis using other by auto
  next
    case False
    then have "\<exists>!u. cl_pcs s u = Returned j" using exchange that by (simp add: claim_inv_def)
    moreover have "((cl_pcs s)(t := Returned i)) u = Returned j \<longleftrightarrow> cl_pcs s u = Returned j" for u
      using exchange False by auto
    ultimately show ?thesis by simp
  qed
  then show ?case using exchange by (auto simp: claim_inv_def less_Suc_eq le_Suc_eq)
next
  case (retry s t i)
  then show ?case by (intro claim_inv_update_other) auto
next
  case (exhausted s t i)
  then have "i \<le> cl_cursor s" "cl_cursor s \<le> n" unfolding claim_inv_def by blast+
  then have "cl_cursor s = n" using exhausted by simp
  with exhausted show ?case by (intro claim_inv_update_other) auto
qed

lemma claim_reachable_inv: "claim_reachable n s \<Longrightarrow> claim_inv n s"
proof (induction rule: claim_reachable.induct)
  case init
  then show ?case by (simp add: claim_inv_def claim_init_def)
next
  case (step s s')
  then show ?case by (blast intro: claim_step_inv)
qed

section \<open>Properties\<close>

text \<open>
  C7. A reader that races the publication of a head word over unwritten space, taking
  the high half before the low half, either sees no commit tag or assembles the
  complete word, on both atomics paths and at every interleaving.
\<close>

theorem racing_reader_sees_all_or_nothing:
  assumes "slot + 8 \<le> length bs" and "loadHeadWord bs slot = 0"
    and "i \<le> j" and "j \<le> length (headWordStores split slot word)"
  shows "\<not> isCommitted (racingRead (writerState split bs slot word i) (writerState split bs slot word j) slot)
    \<or> racingRead (writerState split bs slot word i) (writerState split bs slot word j) slot = word"
  using racing_read_complete [OF assms] by blast

theorem racing_reader_sees_all_or_nothing_witness:
  "racingRead (writerState True (replicate 16 0) 8 0xC511000003010018 2)
              (writerState True (replicate 16 0) 8 0xC511000003010018 2) 8 = 0xC511000003010018"
proof -
  have "writerState True (replicate 16 0) 8 0xC511000003010018 2
      = storeHeadWord True (replicate 16 0) 8 0xC511000003010018"
    by (simp add: writerState_def storeHeadWord_def headWordStores_def)
  moreover have "loadHeadWord (storeHeadWord True (replicate 16 0) 8 0xC511000003010018) 8 = 0xC511000003010018"
    by (rule loadHeadWord_store_same) simp
  ultimately have "isCommitted (racingRead (writerState True (replicate 16 0) 8 0xC511000003010018 2)
      (writerState True (replicate 16 0) 8 0xC511000003010018 2) 8)"
    by (simp add: racingRead_def loadHeadWord_def Let_def isCommitted_def cCommitTag_def)
  moreover have "loadHeadWord (replicate 16 0) 8 = 0" by (simp add: loadHeadWord_def loadWord_zeros)
  ultimately show ?thesis
    using racing_reader_sees_all_or_nothing [of 8 "replicate 16 0" 2 2 True "0xC511000003010018"]
    by (simp add: headWordStores_def)
qed

text \<open>
  Both cursors hand out consecutive indices: \<open>k\<close> claims on a fresh cursor yield
  \<open>0, 1, \<dots>\<close> up to the chunk count and the count itself ever after, so no two successful
  claims name the same chunk.
\<close>

theorem claims_are_consecutive:
  assumes "cursor + 8 \<le> length bs" and "loadWord cursor bs = (0 :: u64)" and "n < 2 ^ 32" and "k < 2 ^ 64"
  shows "wide.claims cursor k bs n = map (min n) [0 ..< k] \<and> narrow.claims cursor k bs n = map (min n) [0 ..< k]"
proof -
  have lo: "(loadWord cursor bs :: u32) = 0"
  proof -
    have "(0 :: nat) = le_to_nat (take 8 (drop cursor bs)) mod 2 ^ 64"
      using arg_cong [OF assms(2), of unat] by (simp add: loadWord_def unat_of_nat)
    moreover have "le_to_nat (take 8 (drop cursor bs)) < 256 ^ 8"
      using le_to_nat_bound [of "take 8 (drop cursor bs)"] assms(1) by simp
    ultimately have "le_to_nat (take 8 (drop cursor bs)) = 0" by simp
    then have "\<forall>b \<in> set (take 4 (drop cursor bs)). b = 0"
      by (auto simp: le_to_nat_eq_0_iff dest: set_take_subset_set_take [of 4 8, THEN subsetD, rotated])
    then show ?thesis by (intro loadWord_zeros) simp
  qed
  have "wide.claims cursor k bs n = map (\<lambda>i. min n (loadClaimedChunks False cursor n bs + i)) [0 ..< k]"
    using assms by (intro wide.claims_eq) (simp add: roomWide_def)
  moreover have "narrow.claims cursor k bs n = map (\<lambda>i. min n (loadClaimedChunks True cursor n bs + i)) [0 ..< k]"
    using assms by (intro narrow.claims_eq) (simp add: roomSplit_def)
  ultimately show ?thesis using assms(2) lo by (simp add: loadClaimedChunks_def Let_def)
qed

theorem claims_are_consecutive_witness:
  "wide.claims 8 4 (replicate 16 0) 3 = [0, 1, 2, 3] \<and> narrow.claims 8 4 (replicate 16 0) 3 = [0, 1, 2, 3]"
  using claims_are_consecutive [of 8 "replicate 16 0" 3 4]
  by (simp add: loadWord_zeros upt_rec min_def)

text \<open>
  C8. However many calls of the 32-bit compare-exchange loop interleave, the cursor
  never passes the chunk count, and every index below the cursor was returned by
  exactly one call.
\<close>

theorem concurrent_claims_exclusive:
  assumes "claim_reachable n s"
  shows "cl_cursor s \<le> n \<and> (\<forall>i < cl_cursor s. \<exists>!t. cl_pcs s t = Returned i)
    \<and> (\<forall>t i. cl_pcs s t = Returned i \<longrightarrow> i < cl_cursor s \<or> i = n)"
  using claim_reachable_inv [OF assms] by (auto simp: claim_inv_def)

theorem concurrent_claims_exclusive_witness:
  "cl_cursor \<lparr>cl_cursor = 1, cl_pcs = ((\<lambda>_. Start)(0 := Looping 0))(0 := Returned 0)\<rparr> \<le> 2"
proof -
  have "claim_reachable 2 (claim_init\<lparr>cl_pcs := (cl_pcs claim_init)(0 := Looping (cl_cursor claim_init))\<rparr>)"
    by (rule claim_reachable.step [OF claim_reachable.init]) (rule claim_step.load, simp add: claim_init_def)
  then have "claim_reachable 2 \<lparr>cl_cursor = 0 + 1, cl_pcs = ((\<lambda>_. Start)(0 := Looping 0))(0 := Returned 0)\<rparr>"
    by (rule claim_reachable.step)
      (use claim_step.exchange [of "claim_init\<lparr>cl_pcs := (cl_pcs claim_init)(0 := Looping 0)\<rparr>" 0 0 2]
       in \<open>simp add: claim_init_def\<close>)
  from concurrent_claims_exclusive [OF this] show ?thesis by simp
qed

end
