(* ===== verification/Chunk.thy ===== *)
theory Chunk
  imports Atomics
begin

text \<open>
  \<^verbatim>\<open>include/sub0log/chunk.hpp\<close>: the bump-allocating writer one thread owns over one
  claimed chunk.  The source's \<open>body_\<close> span is a base and a size within the segment
  image; a reservation's two pointers are offsets into that image, and an invalid
  reservation is \<open>None\<close>.  The second half gives the abstract view of a chunk, a list of
  records that only grows at its end, and shows that reserve, payload write and commit
  implement appending to it.
\<close>

section \<open>The writer\<close>

record ChunkWriter =
  cw_base :: nat
  cw_size :: nat
  cw_offset :: nat
  cw_sequence :: u16

definition noWriter :: ChunkWriter where
  "noWriter = \<lparr>cw_base = 0, cw_size = 0, cw_offset = 0, cw_sequence = 0\<rparr>"

definition newWriter :: "nat \<Rightarrow> nat \<Rightarrow> ChunkWriter" where
  "newWriter base sz = \<lparr>cw_base = base, cw_size = sz, cw_offset = 0, cw_sequence = 0\<rparr>"

definition cw_valid :: "ChunkWriter \<Rightarrow> bool" where
  "cw_valid w \<longleftrightarrow> cw_size w \<noteq> 0"

definition remaining :: "ChunkWriter \<Rightarrow> nat" where
  "remaining w =
     (if \<not> cw_valid w \<or> cw_size w < cw_offset w then 0 else cw_size w - cw_offset w)"

record Reservation =
  rs_payload :: nat
  rs_headWord :: nat
  rs_sequence :: u16

definition reserve :: "ChunkWriter \<Rightarrow> nat \<Rightarrow> Reservation option \<times> ChunkWriter" where
  "reserve w payloadBytes =
     (if 0xFFFF < payloadBytes then (None, w)
      else
        let padded = unat (paddedPayload (word_of_nat payloadBytes));
            total = 8 + padded
        in if \<not> cw_valid w \<or> remaining w < total then (None, w)
           else
             let headWord = cw_base w + cw_offset w;
                 payload = headWord + 8
             in (Some \<lparr>rs_payload = payload, rs_headWord = headWord, rs_sequence = cw_sequence w\<rparr>,
                 w\<lparr>cw_offset := cw_offset w + total, cw_sequence := cw_sequence w + 1\<rparr>))"

definition commit :: "bool \<Rightarrow> bytes \<Rightarrow> Reservation \<Rightarrow> RecordHead \<Rightarrow> bytes" where
  "commit split bs slot head =
     storeHeadWord split bs (rs_headWord slot) (pack (head\<lparr>rh_sequence := rs_sequence slot\<rparr>))"

section \<open>Records as a log\<close>

text \<open>A committed record: its head word's fields and its payload bytes.\<close>

type_synonym logrec = "RecordHead \<times> bytes"

definition padding :: "bytes \<Rightarrow> bytes" where
  "padding p = replicate (align8 (length p) - length p) 0"

definition frame :: "logrec \<Rightarrow> bytes" where
  "frame r = wordBytes (pack (fst r)) @ snd r @ padding (snd r)"

definition frames :: "logrec list \<Rightarrow> bytes" where
  "frames rs = concat (map frame rs)"

definition rec_ok :: "logrec \<Rightarrow> bool" where
  "rec_ok r \<longleftrightarrow> unat (rh_payloadBytes (fst r)) = length (snd r) \<and> kindCanonical (rh_kind (fst r))"

text \<open>A slot whose payload is in place and whose head word is still unwritten.\<close>

definition pendingFrame :: "bytes \<Rightarrow> bytes" where
  "pendingFrame p = replicate 8 0 @ p @ padding p"

definition footprint :: "nat \<Rightarrow> nat" where
  "footprint n = 8 + align8 n"

text \<open>The body of a chunk that holds \<open>rs\<close> and is zero after them.\<close>

definition chunkBody :: "nat \<Rightarrow> logrec list \<Rightarrow> bytes" where
  "chunkBody sz rs = frames rs @ replicate (sz - length (frames rs)) 0"

text \<open>
  \<open>writes w bs rs\<close>: the writer stands at the end of the log \<open>rs\<close> it has written into
  the image \<open>bs\<close>, sequence numbers counting the records.
\<close>

definition writes :: "ChunkWriter \<Rightarrow> bytes \<Rightarrow> logrec list \<Rightarrow> bool" where
  "writes w bs rs \<longleftrightarrow>
     0 < cw_size w \<and> 8 dvd cw_size w
     \<and> cw_base w + cw_size w \<le> length bs
     \<and> cw_offset w = length (frames rs) \<and> cw_offset w \<le> cw_size w
     \<and> cw_sequence w = word_of_nat (length rs)
     \<and> (\<forall>r \<in> set rs. rec_ok r)
     \<and> take (cw_size w) (drop (cw_base w) bs) = chunkBody (cw_size w) rs"

section \<open>Lengths\<close>

lemma length_padding [simp]: "length (padding p) = align8 (length p) - length p"
  by (simp add: padding_def)

lemma length_frame: "length (frame r) = footprint (length (snd r))"
  using align8_ge [of "length (snd r)"] by (simp add: frame_def footprint_def)

lemma length_pendingFrame: "length (pendingFrame p) = footprint (length p)"
  using align8_ge [of "length p"] by (simp add: pendingFrame_def footprint_def)

lemma footprint_pos [simp]: "0 < footprint n" by (simp add: footprint_def)

lemma footprint_dvd [simp]: "8 dvd footprint n"
  by (simp add: footprint_def align8_dvd)

lemma frames_simps [simp]:
  "frames [] = []" "frames (r # rs) = frame r @ frames rs" "frames (rs @ rs') = frames rs @ frames rs'"
  by (simp_all add: frames_def)

lemma frames_dvd [simp]: "8 dvd length (frames rs)"
  by (induction rs) (simp_all add: length_frame)

lemma unat_padded_small:
  assumes "n \<le> 0xFFFF"
  shows "unat (paddedPayload (word_of_nat n)) = align8 n"
proof -
  have "unat (word_of_nat n :: u32) = n" using assms by (simp add: unat_of_nat)
  then show ?thesis using assms by (simp add: unat_paddedPayload)
qed

section \<open>Reserving\<close>

lemma reserve_Some_iff:
  "(\<exists>slot w'. reserve w n = (Some slot, w')) \<longleftrightarrow>
     n \<le> 0xFFFF \<and> cw_valid w \<and> footprint n \<le> remaining w"
  by (auto simp: reserve_def Let_def unat_padded_small footprint_def)

lemma reserve_None: "reserve w n = (None, w') \<Longrightarrow> w' = w"
  by (auto simp: reserve_def Let_def split: if_splits)

lemma reserve_SomeD:
  assumes "reserve w n = (Some slot, w')"
  shows "rs_headWord slot = cw_base w + cw_offset w"
    and "rs_payload slot = cw_base w + cw_offset w + 8"
    and "rs_sequence slot = cw_sequence w"
    and "w' = w\<lparr>cw_offset := cw_offset w + footprint n, cw_sequence := cw_sequence w + 1\<rparr>"
    and "footprint n \<le> remaining w" and "n \<le> 0xFFFF" and "cw_valid w"
  using assms by (auto simp: reserve_def Let_def unat_padded_small footprint_def split: if_splits)

lemma reserve_fits:
  assumes "n \<le> 0xFFFF" and "cw_valid w" and "footprint n \<le> remaining w"
  shows "reserve w n =
    (Some \<lparr>rs_payload = cw_base w + cw_offset w + 8, rs_headWord = cw_base w + cw_offset w,
           rs_sequence = cw_sequence w\<rparr>,
     w\<lparr>cw_offset := cw_offset w + footprint n, cw_sequence := cw_sequence w + 1\<rparr>)"
  using assms by (auto simp: reserve_def Let_def unat_padded_small footprint_def)

lemma writes_remaining: "writes w bs rs \<Longrightarrow> remaining w = cw_size w - length (frames rs)"
  by (auto simp: writes_def remaining_def cw_valid_def)

section \<open>Slots inside an image\<close>

lemma store_payload:
  assumes "length p = n"
  shows "store (pre @ replicate (footprint n) 0 @ post) (length pre + 8) p
    = pre @ pendingFrame p @ post"
proof -
  have "replicate (footprint n) 0 = replicate 8 0 @ replicate n 0 @ (padding p :: bytes)"
    using assms align8_ge [of n]
    by (simp add: footprint_def padding_def replicate_add [symmetric])
  then have "pre @ replicate (footprint n) 0 @ post
      = (pre @ replicate 8 0) @ replicate n 0 @ (padding p @ post)" by simp
  then show ?thesis
    using assms by (simp only: pendingFrame_def) (subst store_append, simp_all)
qed

lemma commit_frame:
  assumes "rs_headWord slot = length pre"
  shows "commit split (pre @ pendingFrame p @ post) slot h
    = pre @ frame (h\<lparr>rh_sequence := rs_sequence slot\<rparr>, p) @ post"
proof -
  let ?h = "h\<lparr>rh_sequence := rs_sequence slot\<rparr>"
  have "commit split (pre @ pendingFrame p @ post) slot h
      = store (pre @ replicate 8 0 @ (p @ padding p @ post)) (length pre) (wordBytes (pack ?h))"
    using assms by (simp add: commit_def pendingFrame_def storeHeadWord_eq)
  then show ?thesis
    by (simp add: store_append frame_def)
qed

lemma writes_split:
  assumes "writes w bs rs"
  obtains pre post where "bs = pre @ frames rs @ replicate (remaining w) 0 @ post"
    and "length pre = cw_base w"
proof -
  let ?b = "cw_base w" and ?n = "cw_size w"
  have body: "take ?n (drop ?b bs) = frames rs @ replicate (remaining w) 0"
    using assms writes_remaining [OF assms] by (simp add: writes_def chunkBody_def)
  have "bs = take ?b bs @ take ?n (drop ?b bs) @ drop ?n (drop ?b bs)" by (simp del: drop_drop)
  then have "bs = take ?b bs @ frames rs @ replicate (remaining w) 0 @ drop ?n (drop ?b bs)"
    using body by (metis append.assoc)
  moreover have "length (take ?b bs) = ?b" using assms by (simp add: writes_def)
  ultimately show ?thesis using that by blast
qed

lemma writes_intro:
  assumes "0 < cw_size w" and "8 dvd cw_size w" and "length pre = cw_base w"
    and "cw_offset w = length (frames rs)" and "cw_sequence w = word_of_nat (length rs)"
    and "\<forall>r \<in> set rs. rec_ok r" and "length (frames rs) + k = cw_size w"
  shows "writes w (pre @ frames rs @ replicate k 0 @ post) rs"
  using assms by (auto simp: writes_def chunkBody_def)

section \<open>Appending one record\<close>

text \<open>
  The three-step protocol of the class comment: reserve, copy the payload into the
  slot, commit the head.  The record is at the end of the log, nothing else in the
  image changed, and its sequence number is its position.
\<close>

lemma append_record:
  assumes w: "writes w bs rs" and res: "reserve w n = (Some slot, w')"
    and len: "length p = n" and h: "unat (rh_payloadBytes h) = n" "kindCanonical (rh_kind h)"
  defines "r \<equiv> (h\<lparr>rh_sequence := word_of_nat (length rs)\<rparr>, p)"
  shows "writes w' (commit split (store bs (rs_payload slot) p) slot h) (rs @ [r])"
    and "length (commit split (store bs (rs_payload slot) p) slot h) = length bs"
    and "take (cw_base w) (commit split (store bs (rs_payload slot) p) slot h) = take (cw_base w) bs"
    and "drop (cw_base w + cw_size w) (commit split (store bs (rs_payload slot) p) slot h)
      = drop (cw_base w + cw_size w) bs"
proof -
  note rD = reserve_SomeD [OF res]
  obtain pre post where bs: "bs = pre @ frames rs @ replicate (remaining w) 0 @ post"
    and pre: "length pre = cw_base w" using writes_split [OF w] .
  define k where "k = remaining w - footprint n"
  have off: "cw_offset w = length (frames rs)" and rem: "remaining w = cw_size w - length (frames rs)"
    and le: "length (frames rs) \<le> cw_size w"
    using w writes_remaining [OF w] by (auto simp: writes_def)
  have zs: "replicate (remaining w) 0 = replicate (footprint n) 0 @ (replicate k 0 :: bytes)"
    using rD(5) by (simp add: k_def replicate_add [symmetric])
  have slotpos: "rs_headWord slot = length (pre @ frames rs)"
    "rs_payload slot = length (pre @ frames rs) + 8"
    using rD(1,2) pre off by simp_all
  have step1: "store bs (rs_payload slot) p = (pre @ frames rs) @ pendingFrame p @ replicate k 0 @ post"
    using store_payload [OF len, of "pre @ frames rs" "replicate k 0 @ post"]
    by (simp only: bs zs slotpos(2) append.assoc)
  have step2: "commit split (store bs (rs_payload slot) p) slot h
      = pre @ frames (rs @ [r]) @ replicate k 0 @ post"
    unfolding step1 commit_frame [OF slotpos(1)]
    using rD(3) w by (simp add: r_def writes_def)
  have lenr: "length (frames (rs @ [r])) = length (frames rs) + footprint n"
    by (simp add: length_frame r_def len)
  have tot: "length (frames (rs @ [r])) + k = cw_size w"
    using lenr rem le rD(5) by (simp add: k_def)
  show "writes w' (commit split (store bs (rs_payload slot) p) slot h) (rs @ [r])"
    unfolding step2
  proof (rule writes_intro)
    show "\<forall>r \<in> set (rs @ [r]). rec_ok r" using w h len by (simp add: writes_def rec_ok_def r_def)
  qed (use w rD(4) pre off lenr tot in \<open>simp_all add: writes_def\<close>)
  have lenbs: "length bs = length pre + cw_size w + length post"
    using le by (simp add: bs rem)
  then show "length (commit split (store bs (rs_payload slot) p) slot h) = length bs"
    unfolding step2 using tot by simp
  show "take (cw_base w) (commit split (store bs (rs_payload slot) p) slot h) = take (cw_base w) bs"
    unfolding step2 by (simp add: bs pre [symmetric])
  have "drop (length pre + cw_size w) (pre @ frames (rs @ [r]) @ replicate k 0 @ post) = post"
    using tot by simp
  moreover have "drop (length pre + cw_size w) bs = post" using rem le by (simp add: bs)
  ultimately show "drop (cw_base w + cw_size w) (commit split (store bs (rs_payload slot) p) slot h)
      = drop (cw_base w + cw_size w) bs"
    unfolding step2 by (simp only: pre)
qed

lemma writes_new:
  assumes "0 < sz" and "8 dvd sz" and "length pre = base"
  shows "writes (newWriter base sz) (pre @ replicate sz 0 @ post) []"
  using assms by (auto simp: writes_def newWriter_def chunkBody_def)

section \<open>Groups of records\<close>

text \<open>
  A continuation chain reserves several slots before it commits any.  A cell is one of
  its slots, payload in place: still pending, or committed.
\<close>

datatype cell = Pending bytes | Done logrec

fun cellPayload :: "cell \<Rightarrow> bytes" where
  "cellPayload (Pending p) = p"
| "cellPayload (Done r) = snd r"

fun cellBytes :: "cell \<Rightarrow> bytes" where
  "cellBytes (Pending p) = pendingFrame p"
| "cellBytes (Done r) = frame r"

definition cellsBytes :: "cell list \<Rightarrow> bytes" where
  "cellsBytes cs = concat (map cellBytes cs)"

lemma length_cellBytes: "length (cellBytes c) = footprint (length (cellPayload c))"
  by (cases c) (simp_all add: length_pendingFrame length_frame)

lemma cellsBytes_simps [simp]:
  "cellsBytes [] = []" "cellsBytes (c # cs) = cellBytes c @ cellsBytes cs"
  "cellsBytes (cs @ cs') = cellsBytes cs @ cellsBytes cs'"
  by (simp_all add: cellsBytes_def)

lemma length_cellsBytes: "length (cellsBytes cs) = sum_list (map (footprint \<circ> length \<circ> cellPayload) cs)"
  by (induction cs) (simp_all add: length_cellBytes)

lemma cellsBytes_done: "cellsBytes (map Done rs) = frames rs"
  by (induction rs) simp_all

text \<open>The slots a writer hands out for payloads of the given lengths, one after the other.\<close>

definition nextSlot :: "ChunkWriter \<Rightarrow> Reservation" where
  "nextSlot w = \<lparr>rs_payload = cw_base w + cw_offset w + 8, rs_headWord = cw_base w + cw_offset w,
     rs_sequence = cw_sequence w\<rparr>"

definition advance :: "ChunkWriter \<Rightarrow> nat \<Rightarrow> ChunkWriter" where
  "advance w n = w\<lparr>cw_offset := cw_offset w + footprint n, cw_sequence := cw_sequence w + 1\<rparr>"

fun slotsFor :: "ChunkWriter \<Rightarrow> nat list \<Rightarrow> Reservation list" where
  "slotsFor w [] = []"
| "slotsFor w (n # ns) = nextSlot w # slotsFor (advance w n) ns"

fun advanceAll :: "ChunkWriter \<Rightarrow> nat list \<Rightarrow> ChunkWriter" where
  "advanceAll w [] = w"
| "advanceAll w (n # ns) = advanceAll (advance w n) ns"

definition groupSize :: "nat list \<Rightarrow> nat" where
  "groupSize ns = sum_list (map footprint ns)"

lemma groupSize_simps [simp]: "groupSize [] = 0" "groupSize (n # ns) = footprint n + groupSize ns"
  by (simp_all add: groupSize_def)

lemma reserve_next:
  "n \<le> 0xFFFF \<Longrightarrow> cw_valid w \<Longrightarrow> footprint n \<le> remaining w \<Longrightarrow> reserve w n = (Some (nextSlot w), advance w n)"
  by (simp add: reserve_fits nextSlot_def advance_def)

lemma advance_valid [simp]: "cw_valid (advance w n) = cw_valid w"
  by (simp add: cw_valid_def advance_def)

lemma remaining_advance:
  "cw_valid w \<Longrightarrow> footprint n \<le> remaining w \<Longrightarrow> remaining (advance w n) = remaining w - footprint n"
  by (auto simp: remaining_def advance_def cw_valid_def split: if_splits)

lemma length_slotsFor [simp]: "length (slotsFor w ns) = length ns"
  by (induction w ns rule: slotsFor.induct) simp_all

lemma advanceAll_fields:
  "cw_base (advanceAll w ns) = cw_base w" "cw_size (advanceAll w ns) = cw_size w"
  "cw_offset (advanceAll w ns) = cw_offset w + groupSize ns"
  "cw_sequence (advanceAll w ns) = cw_sequence w + word_of_nat (length ns)"
  by (induction w ns rule: advanceAll.induct) (simp_all add: advance_def)

text \<open>Writing the payloads of a group into the zeros behind the log.\<close>

fun storeAll :: "bytes \<Rightarrow> Reservation list \<Rightarrow> bytes list \<Rightarrow> bytes" where
  "storeAll bs (s # ss) (p # ps) = storeAll (store bs (rs_payload s) p) ss ps"
| "storeAll bs _ _ = bs"

lemma storeAll_pending:
  "length pre = cw_base w + cw_offset w \<Longrightarrow>
    storeAll (pre @ replicate (groupSize (map length ps)) 0 @ post) (slotsFor w (map length ps)) ps
    = pre @ cellsBytes (map Pending ps) @ post"
proof (induction ps arbitrary: w pre)
  case Nil
  then show ?case by simp
next
  case (Cons p ps)
  let ?z = "replicate (groupSize (map length ps)) 0 @ post"
  have "store (pre @ replicate (footprint (length p)) 0 @ ?z) (length pre + 8) p = pre @ pendingFrame p @ ?z"
    by (rule store_payload) simp
  moreover have "storeAll ((pre @ pendingFrame p) @ ?z) (slotsFor (advance w (length p)) (map length ps)) ps
      = (pre @ pendingFrame p) @ cellsBytes (map Pending ps) @ post"
    using Cons.prems by (intro Cons.IH) (simp add: advance_def length_pendingFrame)
  ultimately show ?case
    using Cons.prems by (simp add: replicate_add nextSlot_def)
qed

text \<open>Committing one cell of a group.\<close>

lemma slotsFor_nth:
  "j < length ns \<Longrightarrow> rs_headWord (slotsFor w ns ! j) = cw_base w + cw_offset w + groupSize (take j ns)
    \<and> rs_sequence (slotsFor w ns ! j) = cw_sequence w + word_of_nat j"
proof (induction ns arbitrary: w j)
  case (Cons n ns)
  then show ?case by (cases j) (auto simp: nextSlot_def advance_def)
qed simp

definition headFor :: "RecordHead \<Rightarrow> ChunkWriter \<Rightarrow> nat \<Rightarrow> RecordHead" where
  "headFor h w j = h\<lparr>rh_sequence := cw_sequence w + word_of_nat j\<rparr>"

lemma commit_cell:
  assumes "length pre = cw_base w + cw_offset w" and "j < length cs" and "cs ! j = Pending p"
    and "map (length \<circ> cellPayload) cs = ns"
  shows "commit split (pre @ cellsBytes cs @ post) (slotsFor w ns ! j) h
    = pre @ cellsBytes (cs[j := Done (headFor h w j, p)]) @ post"
proof -
  have len: "length ns = length cs" using assms(4) by auto
  have s: "rs_headWord (slotsFor w ns ! j) = length pre + groupSize (take j ns)"
    "rs_sequence (slotsFor w ns ! j) = cw_sequence w + word_of_nat j"
    using slotsFor_nth [of j ns w] assms(1,2) len by simp_all
  have g: "groupSize (take j ns) = length (cellsBytes (take j cs))"
    using assms(4) by (simp add: groupSize_def length_cellsBytes take_map [symmetric] comp_assoc)
      (metis (no_types, lifting) comp_assoc map_map take_map)
  have "cellsBytes cs = cellsBytes (take j cs) @ pendingFrame p @ cellsBytes (drop (Suc j) cs)"
    by (subst (1) id_take_nth_drop [OF assms(2)]) (simp add: assms(3))
  then have "commit split (pre @ cellsBytes cs @ post) (slotsFor w ns ! j) h
      = commit split ((pre @ cellsBytes (take j cs)) @ pendingFrame p @ (cellsBytes (drop (Suc j) cs) @ post))
          (slotsFor w ns ! j) h" by simp
  also have "\<dots> = (pre @ cellsBytes (take j cs)) @ frame (headFor h w j, p) @ (cellsBytes (drop (Suc j) cs) @ post)"
    using s g by (subst commit_frame) (simp_all add: headFor_def)
  finally show ?thesis by (simp add: upd_conv_take_nth_drop [OF assms(2)])
qed

text \<open>A group after the commits in \<open>js\<close>, in whatever order.\<close>

definition groupCells :: "ChunkWriter \<Rightarrow> RecordHead list \<Rightarrow> bytes list \<Rightarrow> nat list \<Rightarrow> cell list" where
  "groupCells w hs ps js =
     map (\<lambda>j. if j \<in> set js then Done (headFor (hs ! j) w j, ps ! j) else Pending (ps ! j)) [0 ..< length ps]"

definition groupRecords :: "ChunkWriter \<Rightarrow> RecordHead list \<Rightarrow> bytes list \<Rightarrow> logrec list" where
  "groupRecords w hs ps = map (\<lambda>j. (headFor (hs ! j) w j, ps ! j)) [0 ..< length ps]"

fun commitAll :: "bool \<Rightarrow> bytes \<Rightarrow> Reservation list \<Rightarrow> RecordHead list \<Rightarrow> nat list \<Rightarrow> bytes" where
  "commitAll split bs slots hs [] = bs"
| "commitAll split bs slots hs (j # js) = commitAll split (commit split bs (slots ! j) (hs ! j)) slots hs js"

lemma cellPayload_group: "map (length \<circ> cellPayload) (groupCells w hs ps js) = map length ps"
  by (rule nth_equalityI) (auto simp: groupCells_def)

lemma commitAll_group:
  assumes "length pre = cw_base w + cw_offset w" and "distinct (is @ js)" and "set js \<subseteq> {0 ..< length ps}"
  shows "commitAll split (pre @ cellsBytes (groupCells w hs ps is) @ post) (slotsFor w (map length ps)) hs js
    = pre @ cellsBytes (groupCells w hs ps (is @ js)) @ post"
  using assms(2,3)
proof (induction js arbitrary: "is")
  case Nil
  then show ?case by simp
next
  case (Cons j js)
  have j: "j < length ps" "j \<notin> set is" using Cons.prems by auto
  have "commit split (pre @ cellsBytes (groupCells w hs ps is) @ post) (slotsFor w (map length ps) ! j) (hs ! j)
      = pre @ cellsBytes ((groupCells w hs ps is)[j := Done (headFor (hs ! j) w j, ps ! j)]) @ post"
    using j by (intro commit_cell assms(1) cellPayload_group) (simp_all add: groupCells_def)
  also have "(groupCells w hs ps is)[j := Done (headFor (hs ! j) w j, ps ! j)] = groupCells w hs ps (is @ [j])"
    using j by (intro nth_equalityI) (auto simp: groupCells_def nth_list_update)
  finally show ?case using Cons.prems Cons.IH [of "is @ [j]"] by simp
qed

lemma groupCells_none: "groupCells w hs ps [] = map Pending ps"
  by (rule nth_equalityI) (auto simp: groupCells_def)

lemma groupCells_all: "set js = {0 ..< length ps} \<Longrightarrow> groupCells w hs ps js = map Done (groupRecords w hs ps)"
  by (rule nth_equalityI) (auto simp: groupCells_def groupRecords_def)

text \<open>The whole protocol: payloads into zeros, then some of the commits.\<close>

lemma group_written:
  assumes w: "writes w bs rs" and room: "groupSize (map length ps) \<le> remaining w"
    and js: "distinct js" "set js \<subseteq> {0 ..< length ps}"
  obtains pre post where
    "commitAll split (storeAll bs (slotsFor w (map length ps)) ps) (slotsFor w (map length ps)) hs js
      = (pre @ frames rs) @ cellsBytes (groupCells w hs ps js)
        @ replicate (remaining w - groupSize (map length ps)) 0 @ post"
    "bs = pre @ frames rs @ replicate (remaining w) 0 @ post" "length pre = cw_base w"
proof -
  let ?k = "remaining w - groupSize (map length ps)"
  obtain pre post where bs: "bs = pre @ frames rs @ replicate (remaining w) 0 @ post"
    and pre: "length pre = cw_base w" using writes_split [OF w] .
  have off: "length (pre @ frames rs) = cw_base w + cw_offset w" using w pre by (simp add: writes_def)
  have "bs = (pre @ frames rs) @ replicate (groupSize (map length ps)) 0 @ (replicate ?k 0 @ post)"
    using room by (simp add: bs replicate_add [symmetric])
  then have "storeAll bs (slotsFor w (map length ps)) ps
      = (pre @ frames rs) @ cellsBytes (groupCells w hs ps []) @ replicate ?k 0 @ post"
    using storeAll_pending [OF off, of ps "replicate ?k 0 @ post"] by (simp add: groupCells_none)
  moreover have "commitAll split ((pre @ frames rs) @ cellsBytes (groupCells w hs ps []) @ replicate ?k 0 @ post)
      (slotsFor w (map length ps)) hs js
      = (pre @ frames rs) @ cellsBytes (groupCells w hs ps ([] @ js)) @ replicate ?k 0 @ post"
    using js by (intro commitAll_group off) simp_all
  ultimately show thesis using that [OF _ bs pre] by simp
qed

lemma length_group:
  "length (cellsBytes (groupCells w hs ps js)) = groupSize (map length ps)"
proof -
  have "map (footprint \<circ> length \<circ> cellPayload) (groupCells w hs ps js) = map footprint (map length ps)"
    unfolding cellPayload_group [of w hs ps js, symmetric] by (simp add: comp_assoc)
  then show ?thesis by (simp add: length_cellsBytes groupSize_def)
qed

lemma group_committed:
  assumes w: "writes w bs rs" and room: "groupSize (map length ps) \<le> remaining w"
    and js: "distinct js" "set js = {0 ..< length ps}"
    and ok: "length hs = length ps"
      "\<forall>j < length ps. unat (rh_payloadBytes (hs ! j)) = length (ps ! j) \<and> kindCanonical (rh_kind (hs ! j))"
    and bs'_def: "bs' = commitAll split (storeAll bs (slotsFor w (map length ps)) ps) (slotsFor w (map length ps)) hs js"
  shows "writes (advanceAll w (map length ps)) bs' (rs @ groupRecords w hs ps)"
    and "length bs' = length bs" and "take (cw_base w) bs' = take (cw_base w) bs"
    and "drop (cw_base w + cw_size w) bs' = drop (cw_base w + cw_size w) bs"
proof -
  let ?g = "groupSize (map length ps)" and ?k = "remaining w - groupSize (map length ps)"
  let ?new = "groupRecords w hs ps"
  obtain pre post where p: "bs' = (pre @ frames rs) @ cellsBytes (groupCells w hs ps js) @ replicate ?k 0 @ post"
    "bs = pre @ frames rs @ replicate (remaining w) 0 @ post" "length pre = cw_base w"
    unfolding bs'_def using group_written [OF w room js(1)] js(2) by (metis order_refl)
  have bs': "bs' = pre @ frames (rs @ ?new) @ replicate ?k 0 @ post"
    by (simp add: p(1) groupCells_all [OF js(2)] cellsBytes_done)
  have lg: "length (frames ?new) = ?g"
    using length_group [of w hs ps js] by (simp add: groupCells_all [OF js(2)] cellsBytes_done)
  have f: "cw_offset w = length (frames rs)" "remaining w = cw_size w - length (frames rs)"
    "length (frames rs) \<le> cw_size w" "cw_sequence w = word_of_nat (length rs)"
    using w writes_remaining [OF w] by (auto simp: writes_def)
  have ln: "length ?new = length ps" by (simp add: groupRecords_def)
  show "writes (advanceAll w (map length ps)) bs' (rs @ ?new)"
    unfolding bs'
  proof (rule writes_intro)
    show "\<forall>r \<in> set (rs @ ?new). rec_ok r"
      using w ok by (auto simp: writes_def groupRecords_def rec_ok_def headFor_def)
  qed (use w p(3) f lg ln room in \<open>simp_all add: writes_def advanceAll_fields\<close>)
  show "length bs' = length bs" using room lg by (simp add: bs' p(2))
  show "take (cw_base w) bs' = take (cw_base w) bs" by (simp add: bs' p(2) p(3) [symmetric])
  have "drop (length pre + cw_size w) bs' = post" using room f lg by (simp add: bs')
  moreover have "drop (length pre + cw_size w) bs = post" using f by (simp add: p(2))
  ultimately show "drop (cw_base w + cw_size w) bs' = drop (cw_base w + cw_size w) bs" by (simp only: p(3))
qed

section \<open>Properties\<close>

text \<open>
  C9. Reserve, write the payload, commit: on a writer that stands at the end of a log,
  a record that fits is appended to the log with its position as sequence number and
  no byte outside the chunk body changes; one that does not fit leaves the writer as
  it was.
\<close>

theorem append_refines_log:
  assumes "writes w bs rs" and "length p \<le> 0xFFFF"
    and "h = \<lparr>rh_payloadBytes = word_of_nat (length p), rh_kind = k, rh_flags = f, rh_sequence = q\<rparr>"
    and "kindCanonical k"
  shows "case reserve w (length p) of
      (None, w') \<Rightarrow> w' = w \<and> remaining w < footprint (length p)
    | (Some slot, w') \<Rightarrow>
        writes w' (commit split (store bs (rs_payload slot) p) slot h)
          (rs @ [(h\<lparr>rh_sequence := word_of_nat (length rs)\<rparr>, p)])
        \<and> take (cw_base w) (commit split (store bs (rs_payload slot) p) slot h) = take (cw_base w) bs
        \<and> drop (cw_base w + cw_size w) (commit split (store bs (rs_payload slot) p) slot h)
          = drop (cw_base w + cw_size w) bs"
proof (cases "reserve w (length p)")
  case (Pair res w')
  have h: "unat (rh_payloadBytes h) = length p" "kindCanonical (rh_kind h)"
    using assms by (simp_all add: unat_of_nat)
  show ?thesis
  proof (cases res)
    case None
    moreover have "cw_valid w" using assms(1) by (simp add: writes_def cw_valid_def)
    ultimately show ?thesis
      using Pair assms(2) reserve_fits [of "length p" w] reserve_None [of w "length p" w']
      by (auto simp: not_less [symmetric])
  next
    case (Some slot)
    then show ?thesis
      using Pair append_record [OF assms(1) _ refl h, of slot w' split] by simp
  qed
qed

theorem append_refines_log_witness:
  "case reserve (newWriter 4 16) 3 of
      (None, w') \<Rightarrow> False
    | (Some slot, w') \<Rightarrow>
        writes w' (commit True (store (replicate 20 0) (rs_payload slot) [1, 2, 3]) slot
            \<lparr>rh_payloadBytes = 3, rh_kind = Message, rh_flags = 0, rh_sequence = 9\<rparr>)
          [(\<lparr>rh_payloadBytes = 3, rh_kind = Message, rh_flags = 0, rh_sequence = 0\<rparr>, [1, 2, 3])]"
proof -
  have "writes (newWriter 4 16) (replicate 4 0 @ replicate 16 0 @ []) []"
    by (rule writes_new) simp_all
  then have w: "writes (newWriter 4 16) (replicate 20 0) []" by (simp add: replicate_add [symmetric])
  have r: "footprint 3 = 16" "remaining (newWriter 4 16) = 16"
    by (simp_all add: footprint_def align8_def remaining_def newWriter_def cw_valid_def)
  have l: "length [1, 2, 3 :: byte] = 3" by simp
  show ?thesis
    using append_refines_log [OF w, of "[1, 2, 3]" _ Message 0 9 True, OF _ refl] r
      reserve_fits [of 3 "newWriter 4 16"]
    unfolding l by (simp add: cw_valid_def newWriter_def)
qed

end
