(* ===== verification/Reader.thy ===== *)
theory Reader
  imports Chunk
begin

text \<open>
  The raw layer of \<^verbatim>\<open>include/sub0log/reader.hpp\<close>: opening a segment image and walking
  it chunk by chunk.  The visitor callback becomes the list of records it is called
  with; the two counters of the class are returned beside it.  Offsets and counters
  are natural numbers: an image is at most as long as the address space and a chunk at
  most 2 ^ 32 bytes, so no sum here reaches 2 ^ 64 (\<open>visitFrom_accounted\<close> bounds the
  counters).
\<close>

section \<open>Opening\<close>

record RecordView =
  rv_head :: RecordHead
  rv_payload :: bytes
  rv_chunkIndex :: nat
  rv_ownerThread :: u64
  rv_recordOffset :: nat

datatype SegmentError = Ok | TooSmall | BadMagic | UnknownVersion | BadGeometry

record SegmentReader =
  sr_image :: bytes
  sr_header :: SegmentHeader
  sr_error :: SegmentError

definition zeroSegmentHeader :: SegmentHeader where
  "zeroSegmentHeader = SegmentHeader_load (replicate 64 0)"

definition openSegment :: "bytes \<Rightarrow> SegmentReader" where
  "openSegment img =
     (if length img < cSegmentHeaderSize
      then \<lparr>sr_image = img, sr_header = zeroSegmentHeader, sr_error = TooSmall\<rparr>
      else
        let h = SegmentHeader_load img;
            geometrySane =
              cSegmentHeaderSize \<le> unat (sh_headerBytes h)
              \<and> cChunkHeaderSize < unat (sh_chunkBytes h)
              \<and> unat (sh_headerBytes h) \<le> unat (sh_segmentBytes h)
              \<and> unat (sh_headerBytes h) \<le> length img
        in \<lparr>sr_image = img, sr_header = h,
             sr_error = (if sh_magic h \<noteq> cMagic then BadMagic
                         else if sh_formatVersion h \<noteq> cFormatVersion then UnknownVersion
                         else if \<not> geometrySane then BadGeometry
                         else Ok)\<rparr>)"

definition sr_valid :: "SegmentReader \<Rightarrow> bool" where
  "sr_valid rd \<longleftrightarrow> sr_error rd = Ok"

section \<open>Walking\<close>

text \<open>The result of a walk: the visited records, then the unreadable and unwritten bytes.\<close>

type_synonym walk = "RecordView list \<times> nat \<times> nat"

definition addWalk :: "walk \<Rightarrow> walk \<Rightarrow> walk" where
  "addWalk a b = (fst a @ fst b, fst (snd a) + fst (snd b), snd (snd a) + snd (snd b))"

text \<open>The inner loop: the records of one chunk body, \<open>cursor\<close> up to \<open>bodyEnd\<close>.\<close>

function walkBody :: "bytes \<Rightarrow> nat \<Rightarrow> u64 \<Rightarrow> nat \<Rightarrow> nat \<Rightarrow> walk" where
  "walkBody img chunkIndex owner bodyEnd cursor =
     (if cursor < bodyEnd then
        let remaining = bodyEnd - cursor in
        if remaining < 8 then ([], 0, remaining)
        else
          let word = loadHeadWord img cursor in
          if \<not> isCommitted word then
            (if word = 0 then ([], 0, remaining) else ([], remaining, 0))
          else
            let head = unpack word;
                afterHead = cursor + 8;
                spaceLeft = bodyEnd - afterHead
            in if spaceLeft < unat (rh_payloadBytes head) then ([], remaining, 0)
               else addWalk
                 ([\<lparr>rv_head = head,
                    rv_payload = take (unat (rh_payloadBytes head)) (drop afterHead img),
                    rv_chunkIndex = chunkIndex, rv_ownerThread = owner,
                    rv_recordOffset = cursor\<rparr>], 0, 0)
                 (walkBody img chunkIndex owner bodyEnd
                    (afterHead + unat (paddedPayload (ucast (rh_payloadBytes head)))))
      else ([], 0, 0))"
  by pat_completeness auto
termination
  by (relation "measure (\<lambda>(img, chunkIndex, owner, bodyEnd, cursor). bodyEnd - cursor)") auto

declare walkBody.simps [simp del]

text \<open>
  One iteration of the outer loop: what the chunk at \<open>chunkStart\<close> contributes, and
  where the next chunk starts.  \<open>chunkStart < imageBytes\<close> here; the truncated-tail case
  ends the loop in \<open>visitFrom\<close>.
\<close>

definition chunkSizeOf :: "SegmentHeader \<Rightarrow> ChunkHeader \<Rightarrow> nat option" where
  "chunkSizeOf h chunkHead =
     (if ch_chunkSizeClass chunkHead = 0 then Some (unat (sh_chunkBytes h))
      else if ch_chunkSizeClass chunkHead \<le> cMaxChunkSizeClass
      then Some (unat (chunkBytesForSizeClass (ch_chunkSizeClass chunkHead)))
      else None)"

definition visitChunk :: "bytes \<Rightarrow> SegmentHeader \<Rightarrow> nat \<Rightarrow> nat \<Rightarrow> walk \<times> nat" where
  "visitChunk img h chunkIndex chunkStart =
     (let imageBytes = length img;
          segEnd = unat (sh_segmentBytes h);
          fallbackNominalEnd = chunkStart + unat (sh_chunkBytes h);
          fallbackLogicalEnd = min fallbackNominalEnd segEnd;
          fallbackNominalBytes = fallbackLogicalEnd - chunkStart;
          fallbackAvailable = min fallbackLogicalEnd imageBytes - chunkStart;
          fallbackMissingTail = fallbackNominalBytes - fallbackAvailable;
          damagedChunk = (([], (fallbackAvailable - cChunkHeaderSize) + fallbackMissingTail, 0),
                          fallbackNominalEnd)
      in if fallbackAvailable < cChunkHeaderSize
         then (([], fallbackNominalBytes, 0), fallbackNominalEnd)
         else
           let chunkHead = ChunkHeader_load chunkStart img
           in if ch_headerChecksum chunkHead \<noteq> 0
                 \<and> ch_headerChecksum chunkHead \<noteq>
                     computeChunkHeaderChecksum (ch_generation chunkHead) (ch_ownerThread chunkHead)
                       (ch_claimMonoNs chunkHead) (ch_chunkSizeClass chunkHead)
              then damagedChunk
              else if ch_generation chunkHead = 0
              then (([], 0, fallbackNominalBytes), fallbackNominalEnd)
              else if ch_generation chunkHead \<noteq> sh_generation h
              then damagedChunk
              else case chunkSizeOf h chunkHead of
                None \<Rightarrow> damagedChunk
              | Some thisChunkBytes \<Rightarrow>
                  let nominalEnd = chunkStart + thisChunkBytes;
                      chunkLogicalEnd = min nominalEnd segEnd;
                      chunkNominalBytes = chunkLogicalEnd - chunkStart;
                      presentEnd = min chunkLogicalEnd imageBytes;
                      availableInChunk = presentEnd - chunkStart;
                      missingTail = chunkNominalBytes - availableInChunk;
                      bodyStart = chunkStart + cChunkHeaderSize;
                      bodyEnd = chunkStart + availableInChunk
                  in (addWalk (walkBody img chunkIndex (ch_ownerThread chunkHead) bodyEnd bodyStart)
                        ([], missingTail, 0),
                      nominalEnd))"

lemma chunkSizeOf_pos:
  assumes "chunkSizeOf h c = Some n" and "0 < unat (sh_chunkBytes h)"
  shows "0 < n"
proof -
  have "0 < unat (chunkBytesForSizeClass k)" if "k \<noteq> 0" "k \<le> cMaxChunkSizeClass" for k
  proof -
    have "unat k \<in> {1..17}" using that
      by (simp add: cMaxChunkSizeClass_def word_le_nat_alt unat_gt_0 Suc_le_eq)
    then show ?thesis using unat_sizeClass [of "unat k"] by simp
  qed
  then show ?thesis using assms by (auto simp: chunkSizeOf_def split: if_splits)
qed

lemma visitChunk_advances:
  "0 < unat (sh_chunkBytes h) \<Longrightarrow> chunkStart < snd (visitChunk img h i chunkStart)"
  by (auto simp: visitChunk_def Let_def split: option.splits dest: chunkSizeOf_pos)

text \<open>
  The outer loop.  The source runs it only on a reader \<open>open\<close> accepted, whose
  \<open>chunkBytes_\<close> exceeds a chunk header; the guard repeats that, so that the recursion
  is well-founded for every header.
\<close>

function visitFrom :: "bytes \<Rightarrow> SegmentHeader \<Rightarrow> nat \<Rightarrow> nat \<Rightarrow> walk" where
  "visitFrom img h chunkIndex chunkStart =
     (let segEnd = unat (sh_segmentBytes h) in
      if cChunkHeaderSize < unat (sh_chunkBytes h) \<and> chunkStart < segEnd then
        if length img \<le> chunkStart then ([], segEnd - chunkStart, 0)
        else addWalk (fst (visitChunk img h chunkIndex chunkStart))
               (visitFrom img h (chunkIndex + 1) (snd (visitChunk img h chunkIndex chunkStart)))
      else ([], 0, 0))"
  by pat_completeness auto
termination
proof (relation "measure (\<lambda>(img, h, chunkIndex, chunkStart). unat (sh_segmentBytes h) - chunkStart)",
    goal_cases)
  case 1
  then show ?case by simp
next
  case (2 img h chunkIndex chunkStart x)
  then have "chunkStart < snd (visitChunk img h chunkIndex chunkStart)"
    by (intro visitChunk_advances) simp
  with 2 show ?case by auto
qed

declare visitFrom.simps [simp del]

definition visit :: "SegmentReader \<Rightarrow> walk" where
  "visit rd =
     (if \<not> sr_valid rd then ([], 0, 0)
      else visitFrom (sr_image rd) (sr_header rd) 0 (unat (sh_headerBytes (sr_header rd))))"

definition unreadableBytes :: "SegmentReader \<Rightarrow> nat" where
  "unreadableBytes rd = fst (snd (visit rd))"

definition unwrittenBytes :: "SegmentReader \<Rightarrow> nat" where
  "unwrittenBytes rd = snd (snd (visit rd))"

definition accountedBytes :: "SegmentReader \<Rightarrow> nat" where
  "accountedBytes rd = unreadableBytes rd + unwrittenBytes rd"

section \<open>A log read back\<close>

definition viewOf :: "nat \<Rightarrow> u64 \<Rightarrow> nat \<Rightarrow> logrec \<Rightarrow> RecordView" where
  "viewOf idx owner off r =
     \<lparr>rv_head = fst r, rv_payload = snd r, rv_chunkIndex = idx, rv_ownerThread = owner,
      rv_recordOffset = off\<rparr>"

fun views :: "nat \<Rightarrow> u64 \<Rightarrow> nat \<Rightarrow> logrec list \<Rightarrow> RecordView list" where
  "views idx owner off [] = []"
| "views idx owner off (r # rs) =
     viewOf idx owner off r # views idx owner (off + footprint (length (snd r))) rs"

lemma addWalk_simps [simp]:
  "fst (addWalk a b) = fst a @ fst b"
  "fst (snd (addWalk a b)) = fst (snd a) + fst (snd b)"
  "snd (snd (addWalk a b)) = snd (snd a) + snd (snd b)"
  by (simp_all add: addWalk_def)

lemma addWalk_pair: "addWalk (xs, a, b) (ys, c, d) = (xs @ ys, a + c, b + d)"
  by (simp add: addWalk_def)

lemma loadHeadWord_append:
  "slot = length pre \<Longrightarrow> 8 \<le> length rest \<Longrightarrow> loadHeadWord (pre @ rest) slot = loadHeadWord rest 0"
  by (simp add: loadHeadWord_def byte_simps Let_def)

lemma loadHeadWord_frame:
  "loadHeadWord (frame r @ rest) 0 = pack (fst r)"
proof -
  have "loadHeadWord (frame r @ rest) 0 = loadWord 0 ([] @ wordBytes (pack (fst r)) @ (snd r @ padding (snd r) @ rest))"
    by (simp add: loadHeadWord_eq_loadWord frame_def)
  then show ?thesis by (simp only:) (rule loadWord_at, simp_all)
qed

lemma walkBody_step:
  assumes img: "img = pre @ frame r @ rest" and ok: "rec_ok r"
    and e: "length pre + footprint (length (snd r)) \<le> bodyEnd"
  shows "walkBody img idx owner bodyEnd (length pre) =
    addWalk ([viewOf idx owner (length pre) r], 0, 0)
      (walkBody img idx owner bodyEnd (length pre + footprint (length (snd r))))"
proof -
  let ?h = "fst r" and ?p = "snd r"
  have w: "loadHeadWord img (length pre) = pack ?h"
    unfolding img by (subst loadHeadWord_append) (simp_all add: loadHeadWord_frame length_frame footprint_def)
  have u: "unpack (pack ?h) = ?h" "unat (rh_payloadBytes ?h) = length ?p"
    using ok by (simp_all add: rec_ok_def unpack_pack)
  have n: "length ?p \<le> 0xFFFF" using u(2) unat_u16_lt [of "rh_payloadBytes ?h"] by simp
  have pad: "unat (paddedPayload (ucast (rh_payloadBytes ?h))) = align8 (length ?p)"
  proof -
    have "(ucast (rh_payloadBytes ?h) :: u32) = word_of_nat (length ?p)"
      by (simp add: u(2) [symmetric] unsigned_of_nat)
    then show ?thesis using unat_padded_small [OF n] by simp
  qed
  have pay: "take (length ?p) (drop (length pre + 8) img) = ?p"
    by (simp add: img frame_def)
  have "align8 (length ?p) \<ge> length ?p" by (rule align8_ge)
  with e have "length pre < bodyEnd" "\<not> bodyEnd - length pre < 8"
    "\<not> bodyEnd - (length pre + 8) < length ?p" by (simp_all add: footprint_def)
  then show ?thesis
    by (subst walkBody.simps) (simp add: Let_def w u pad pay viewOf_def footprint_def add.assoc)
qed

lemma walkBody_stop:
  assumes "cursor + 8 \<le> bodyEnd" and "\<not> isCommitted (loadHeadWord img cursor)"
  shows "walkBody img idx owner bodyEnd cursor =
    (if loadHeadWord img cursor = 0 then ([], 0, bodyEnd - cursor) else ([], bodyEnd - cursor, 0))"
  using assms by (subst walkBody.simps) (simp add: Let_def)

lemma walkBody_short:
  "cursor \<le> bodyEnd \<Longrightarrow> bodyEnd < cursor + 8 \<Longrightarrow>
    walkBody img idx owner bodyEnd cursor = ([], 0, bodyEnd - cursor)"
  by (subst walkBody.simps) (auto simp: Let_def)

text \<open>
  The walk reads a log up to the first head word without a commit tag; nothing behind
  that word changes what it yields.
\<close>

lemma walkBody_frames_then:
  assumes "\<forall>r \<in> set rs. rec_ok r" and "img = pre @ frames rs @ rest"
    and "length pre + length (frames rs) \<le> bodyEnd"
  shows "walkBody img idx owner bodyEnd (length pre) =
    addWalk (views idx owner (length pre) rs, 0, 0)
      (walkBody img idx owner bodyEnd (length pre + length (frames rs)))"
  using assms
proof (induction rs arbitrary: pre)
  case Nil
  then show ?case by (simp add: addWalk_def)
next
  case (Cons r rs)
  have step: "walkBody img idx owner bodyEnd (length pre) =
      addWalk ([viewOf idx owner (length pre) r], 0, 0)
        (walkBody img idx owner bodyEnd (length pre + footprint (length (snd r))))"
    using Cons.prems by (intro walkBody_step [where rest = "frames rs @ rest"]) (auto simp: length_frame)
  have "walkBody img idx owner bodyEnd (length (pre @ frame r)) =
      addWalk (views idx owner (length (pre @ frame r)) rs, 0, 0)
        (walkBody img idx owner bodyEnd (length (pre @ frame r) + length (frames rs)))"
    using Cons.prems by (intro Cons.IH) auto
  then show ?case
    by (simp add: step length_frame addWalk_def add.assoc)
qed

lemma walkBody_log:
  assumes "\<forall>r \<in> set rs. rec_ok r"
  shows "walkBody (pre @ frames rs @ replicate k 0 @ post) idx owner
      (length pre + length (frames rs) + k) (length pre)
    = (views idx owner (length pre) rs, 0, k)"
proof -
  let ?img = "pre @ frames rs @ replicate k 0 @ post" and ?c = "length pre + length (frames rs)"
  have "walkBody ?img idx owner (?c + k) ?c = ([], 0, k)"
  proof (cases "k < 8")
    case True
    then show ?thesis by (simp add: walkBody_short)
  next
    case False
    then have "replicate k 0 = replicate 8 0 @ (replicate (k - 8) 0 :: bytes)"
      by (simp add: replicate_add [symmetric])
    then have "loadHeadWord ?img ?c = loadHeadWord (replicate 8 0 @ replicate (k - 8) 0 @ post) 0"
      using loadHeadWord_append [of ?c "pre @ frames rs" "replicate k 0 @ post"] False by simp
    also have "\<dots> = 0" by (simp add: loadHeadWord_eq_loadWord) (simp add: loadWord_def)
    finally show ?thesis using False by (subst walkBody_stop) simp_all
  qed
  then show ?thesis
    by (subst walkBody_frames_then [OF assms refl]) (simp_all add: addWalk_def)
qed

section \<open>Any image: bounds and accounting\<close>

lemma walkBody_accounted:
  "fst (snd (walkBody img idx owner bodyEnd cursor)) + snd (snd (walkBody img idx owner bodyEnd cursor))
    \<le> bodyEnd - cursor"
proof (induction img idx owner bodyEnd cursor rule: walkBody.induct)
  case (1 img idx owner bodyEnd cursor)
  show ?case
  proof (cases "bodyEnd < cursor + 8 \<or> \<not> isCommitted (loadHeadWord img cursor)
      \<or> bodyEnd - (cursor + 8) < unat (rh_payloadBytes (unpack (loadHeadWord img cursor)))")
    case True
    then show ?thesis by (subst (1 2) walkBody.simps) (auto simp: Let_def)
  next
    case False
    let ?n = "cursor + 8 + unat (paddedPayload (ucast (rh_payloadBytes (unpack (loadHeadWord img cursor)))))"
    have "fst (snd (walkBody img idx owner bodyEnd ?n)) + snd (snd (walkBody img idx owner bodyEnd ?n))
        \<le> bodyEnd - ?n"
      using False by (intro 1) auto
    then show ?thesis using False by (subst (1 2) walkBody.simps) (auto simp: Let_def)
  qed
qed

definition view_within :: "bytes \<Rightarrow> nat \<Rightarrow> nat \<Rightarrow> RecordView \<Rightarrow> bool" where
  "view_within img lo hi v \<longleftrightarrow>
     lo \<le> rv_recordOffset v
     \<and> rv_recordOffset v + 8 + length (rv_payload v) \<le> hi
     \<and> length (rv_payload v) = unat (rh_payloadBytes (rv_head v))
     \<and> rv_payload v = take (length (rv_payload v)) (drop (rv_recordOffset v + 8) img)"

definition before :: "RecordView \<Rightarrow> RecordView \<Rightarrow> bool" where
  "before v v' \<longleftrightarrow> rv_recordOffset v + 8 + length (rv_payload v) \<le> rv_recordOffset v'"

lemma unat_padded_ge: "unat (n :: u16) \<le> unat (paddedPayload (ucast n))"
proof -
  have "unat (ucast n :: u32) = unat n"
    using unat_u16_lt [of n] by (simp add: unsigned_ucast_eq take_bit_nat_eq_self)
  then show ?thesis
    using unat_u16_lt [of n] align8_ge [of "unat n"] by (simp add: unat_paddedPayload)
qed

lemma view_within_mono:
  "view_within img lo hi v \<Longrightarrow> lo' \<le> lo \<Longrightarrow> hi \<le> hi' \<Longrightarrow> view_within img lo' hi' v"
  by (auto simp: view_within_def)

lemma walkBody_views:
  "bodyEnd \<le> length img \<Longrightarrow>
    (\<forall>v \<in> set (fst (walkBody img idx owner bodyEnd cursor)). view_within img cursor bodyEnd v)
    \<and> sorted_wrt before (fst (walkBody img idx owner bodyEnd cursor))"
proof (induction img idx owner bodyEnd cursor rule: walkBody.induct)
  case (1 img idx owner bodyEnd cursor)
  let ?h = "unpack (loadHeadWord img cursor)"
  show ?case
  proof (cases "bodyEnd < cursor + 8 \<or> \<not> isCommitted (loadHeadWord img cursor)
      \<or> bodyEnd - (cursor + 8) < unat (rh_payloadBytes ?h)")
    case True
    then show ?thesis by (subst (1 2) walkBody.simps) (auto simp: Let_def)
  next
    case False
    let ?v = "\<lparr>rv_head = ?h, rv_payload = take (unat (rh_payloadBytes ?h)) (drop (cursor + 8) img),
      rv_chunkIndex = idx, rv_ownerThread = owner, rv_recordOffset = cursor\<rparr>"
    let ?n = "cursor + 8 + unat (paddedPayload (ucast (rh_payloadBytes ?h)))"
    let ?rest = "fst (walkBody img idx owner bodyEnd ?n)"
    have eq: "fst (walkBody img idx owner bodyEnd cursor) = ?v # ?rest"
      using False by (subst walkBody.simps) (auto simp: Let_def)
    have ih: "(\<forall>v \<in> set ?rest. view_within img ?n bodyEnd v) \<and> sorted_wrt before ?rest"
      using False 1(2) by (intro 1(1)) auto
    have len: "length (rv_payload ?v) = unat (rh_payloadBytes ?h)" using False 1(2) by auto
    have "view_within img cursor bodyEnd ?v"
      using False 1(2) by (auto simp: view_within_def)
    moreover have "view_within img cursor bodyEnd v" if "v \<in> set ?rest" for v
      using ih that by (auto intro: view_within_mono)
    moreover have "before ?v v" if "v \<in> set ?rest" for v
      using ih that unat_padded_ge [of "rh_payloadBytes ?h"] len
      by (force simp: view_within_def before_def)
    ultimately show ?thesis using ih by (simp add: eq)
  qed
qed

section \<open>The walk over a whole image\<close>

text \<open>Either the chunk yields no record, or its body is walked.\<close>

lemma visitChunk_cases:
  fixes img :: bytes and h :: SegmentHeader and i cs :: nat
  defines "cb \<equiv> unat (sh_chunkBytes h)" and "seg \<equiv> unat (sh_segmentBytes h)"
  assumes "cs < seg"
  obtains (skip) u n where "visitChunk img h i cs = (([], u, n), cs + cb)"
      "u + n \<le> min (cs + cb) seg - cs"
    | (walk) owner m where "visitChunk img h i cs =
        (addWalk (walkBody img i owner (cs + (min (min (cs + m) seg) (length img) - cs)) (cs + 32))
           ([], min (cs + m) seg - cs - (min (min (cs + m) seg) (length img) - cs), 0), cs + m)"
proof -
  let ?nb = "min (cs + cb) seg - cs"
  let ?av = "min (min (cs + cb) seg) (length img) - cs"
  let ?ch = "ChunkHeader_load cs img"
  let ?dam = "(([], (?av - 32) + (?nb - ?av), 0), cs + cb) :: walk \<times> nat"
  have av: "?av \<le> ?nb" by simp
  have eq: "visitChunk img h i cs =
     (if ?av < 32 then (([], ?nb, 0), cs + cb)
      else if ch_headerChecksum ?ch \<noteq> 0 \<and> ch_headerChecksum ?ch \<noteq>
          computeChunkHeaderChecksum (ch_generation ?ch) (ch_ownerThread ?ch) (ch_claimMonoNs ?ch)
            (ch_chunkSizeClass ?ch) then ?dam
      else if ch_generation ?ch = 0 then (([], 0, ?nb), cs + cb)
      else if ch_generation ?ch \<noteq> sh_generation h then ?dam
      else case chunkSizeOf h ?ch of None \<Rightarrow> ?dam
        | Some m \<Rightarrow> (addWalk (walkBody img i (ch_ownerThread ?ch)
              (cs + (min (min (cs + m) seg) (length img) - cs)) (cs + 32))
           ([], min (cs + m) seg - cs - (min (min (cs + m) seg) (length img) - cs), 0), cs + m))"
    unfolding visitChunk_def Let_def cb_def seg_def cChunkHeaderSize_def ..
  have "a - 32 + (b - a) + 0 \<le> b" if "a \<le> b" for a b :: nat using that by simp
  from this [OF av] have dam: thesis if "visitChunk img h i cs = ?dam"
    using that by (intro skip)
  have none: thesis if "visitChunk img h i cs = (([], ?nb, 0), cs + cb)"
    using that by (intro skip) auto
  have unw: thesis if "visitChunk img h i cs = (([], 0, ?nb), cs + cb)"
    using that by (intro skip) auto
  show thesis
  proof (cases "chunkSizeOf h ?ch")
    case None
    then have "visitChunk img h i cs = (([], ?nb, 0), cs + cb) \<or>
        visitChunk img h i cs = ?dam \<or> visitChunk img h i cs = (([], 0, ?nb), cs + cb)"
      unfolding eq by (simp only: option.case split: if_split) blast
    then show thesis using dam none unw by blast
  next
    case (Some m)
    then have "visitChunk img h i cs = (([], ?nb, 0), cs + cb) \<or>
        visitChunk img h i cs = ?dam \<or> visitChunk img h i cs = (([], 0, ?nb), cs + cb) \<or>
        visitChunk img h i cs = (addWalk (walkBody img i (ch_ownerThread ?ch)
              (cs + (min (min (cs + m) seg) (length img) - cs)) (cs + 32))
           ([], min (cs + m) seg - cs - (min (min (cs + m) seg) (length img) - cs), 0), cs + m)"
      unfolding eq by (simp only: option.case split: if_split) blast
    then show thesis using dam none unw walk by blast
  qed
qed

lemma bounded_remainder: "u + n \<le> (a::nat) \<Longrightarrow> a \<le> b \<Longrightarrow> u + (b - a) + n \<le> b"
  by simp

lemma visitChunk_accounted:
  assumes "chunkStart < unat (sh_segmentBytes h)"
  shows "fst (snd (fst (visitChunk img h i chunkStart))) + snd (snd (fst (visitChunk img h i chunkStart)))
    \<le> min (snd (visitChunk img h i chunkStart)) (unat (sh_segmentBytes h)) - chunkStart"
  using assms
proof (cases rule: visitChunk_cases [where img = img and i = i])
  case (skip u n)
  then show ?thesis by simp
next
  case (walk owner m)
  let ?e = "min (chunkStart + m) (unat (sh_segmentBytes h))"
  have "fst (snd (walkBody img i owner (chunkStart + (min ?e (length img) - chunkStart)) (chunkStart + 32)))
      + snd (snd (walkBody img i owner (chunkStart + (min ?e (length img) - chunkStart)) (chunkStart + 32)))
      \<le> min ?e (length img) - chunkStart"
    using walkBody_accounted [of img i owner "chunkStart + (min ?e (length img) - chunkStart)" "chunkStart + 32"]
    by (rule order_trans) simp
  then have "fst (snd (walkBody img i owner (chunkStart + (min ?e (length img) - chunkStart)) (chunkStart + 32)))
      + (?e - chunkStart - (min ?e (length img) - chunkStart))
      + snd (snd (walkBody img i owner (chunkStart + (min ?e (length img) - chunkStart)) (chunkStart + 32)))
      \<le> ?e - chunkStart"
    by (rule bounded_remainder) (simp add: diff_le_mono)
  then show ?thesis unfolding walk by (simp only: addWalk_simps fst_conv snd_conv add_0_right)
qed

lemma visitChunk_views:
  assumes "chunkStart < length img" and "chunkStart < unat (sh_segmentBytes h)"
    and c_def: "c = visitChunk img h i chunkStart"
  shows "(\<forall>v \<in> set (fst (fst c)). view_within img (chunkStart + 32)
            (min (snd c) (min (unat (sh_segmentBytes h)) (length img))) v)
    \<and> sorted_wrt before (fst (fst c))"
  using assms(2)
proof (cases rule: visitChunk_cases [where img = img and i = i])
  case (skip u n)
  then show ?thesis by (simp add: c_def)
next
  case (walk owner m)
  let ?e = "min (min (chunkStart + m) (unat (sh_segmentBytes h))) (length img)"
  have e: "chunkStart + (?e - chunkStart) = ?e" using assms by simp
  have "(\<forall>v \<in> set (fst (walkBody img i owner ?e (chunkStart + 32))). view_within img (chunkStart + 32) ?e v)
      \<and> sorted_wrt before (fst (walkBody img i owner ?e (chunkStart + 32)))"
    by (rule walkBody_views) simp
  then show ?thesis unfolding c_def walk e by (simp add: min.assoc)
qed

lemma visitFrom_accounted:
  "fst (snd (visitFrom img h i chunkStart)) + snd (snd (visitFrom img h i chunkStart))
    \<le> unat (sh_segmentBytes h) - chunkStart"
proof (induction img h i chunkStart rule: visitFrom.induct)
  case (1 img h i chunkStart)
  show ?case
  proof (cases "cChunkHeaderSize < unat (sh_chunkBytes h) \<and> chunkStart < unat (sh_segmentBytes h)
      \<and> chunkStart < length img")
    case False
    then show ?thesis by (subst (1 2) visitFrom.simps) (auto simp: Let_def)
  next
    case True
    let ?c = "visitChunk img h i chunkStart"
    have "fst (snd (visitFrom img h (i + 1) (snd ?c))) + snd (snd (visitFrom img h (i + 1) (snd ?c)))
        \<le> unat (sh_segmentBytes h) - snd ?c"
      using True by (intro 1) auto
    moreover have "fst (snd (fst ?c)) + snd (snd (fst ?c))
        \<le> min (snd ?c) (unat (sh_segmentBytes h)) - chunkStart"
      using True by (intro visitChunk_accounted) auto
    moreover have "chunkStart < snd ?c" using True by (intro visitChunk_advances) auto
    ultimately show ?thesis
      using True by (subst (1 2) visitFrom.simps) (auto simp: Let_def min_def split: if_splits)
  qed
qed

lemma visitFrom_views:
  "(\<forall>v \<in> set (fst (visitFrom img h i chunkStart)).
      view_within img (chunkStart + 32) (min (unat (sh_segmentBytes h)) (length img)) v)
    \<and> sorted_wrt before (fst (visitFrom img h i chunkStart))"
proof (induction img h i chunkStart rule: visitFrom.induct)
  case (1 img h i chunkStart)
  show ?case
  proof (cases "cChunkHeaderSize < unat (sh_chunkBytes h) \<and> chunkStart < unat (sh_segmentBytes h)
      \<and> chunkStart < length img")
    case False
    then show ?thesis by (subst (1 2) visitFrom.simps) (auto simp: Let_def)
  next
    case True
    let ?c = "visitChunk img h i chunkStart"
    let ?e = "min (unat (sh_segmentBytes h)) (length img)"
    have eq: "fst (visitFrom img h i chunkStart) = fst (fst ?c) @ fst (visitFrom img h (i + 1) (snd ?c))"
      using True by (subst visitFrom.simps) (auto simp: Let_def)
    have ih: "(\<forall>v \<in> set (fst (visitFrom img h (i + 1) (snd ?c))). view_within img (snd ?c + 32) ?e v)
        \<and> sorted_wrt before (fst (visitFrom img h (i + 1) (snd ?c)))"
      using True by (intro 1) auto
    have here: "(\<forall>v \<in> set (fst (fst ?c)). view_within img (chunkStart + 32) (min (snd ?c) ?e) v)
        \<and> sorted_wrt before (fst (fst ?c))"
      using True by (intro visitChunk_views [where i = i]) auto
    have adv: "chunkStart < snd ?c" using True by (intro visitChunk_advances) auto
    have "before v v'" if "v \<in> set (fst (fst ?c))" "v' \<in> set (fst (visitFrom img h (i + 1) (snd ?c)))" for v v'
      using here ih that by (fastforce simp: view_within_def before_def)
    moreover have "view_within img (chunkStart + 32) ?e v" if "v \<in> set (fst (fst ?c))" for v
      using here that by (blast intro: view_within_mono order_refl min.cobounded2)
    moreover have "view_within img (chunkStart + 32) ?e v"
      if "v \<in> set (fst (visitFrom img h (i + 1) (snd ?c)))" for v
      using ih adv that by (auto intro: view_within_mono)
    ultimately show ?thesis using here ih by (auto simp: eq sorted_wrt_append)
  qed
qed

lemma writes_walk:
  assumes "writes w bs rs"
  shows "walkBody bs idx owner (cw_base w + cw_size w) (cw_base w)
    = (views idx owner (cw_base w) rs, 0, remaining w)"
proof -
  obtain pre post where bs: "bs = pre @ frames rs @ replicate (remaining w) 0 @ post"
    and pre: "length pre = cw_base w" using writes_split [OF assms] .
  have "cw_base w + cw_size w = length pre + length (frames rs) + remaining w"
    using assms writes_remaining [OF assms] pre by (simp add: writes_def)
  then show ?thesis
    using assms walkBody_log [of rs pre "remaining w" post idx owner] pre
    by (simp add: bs writes_def add.assoc)
qed

lemma loadHeadWord_pending:
  "ps \<noteq> [] \<Longrightarrow> 0 \<notin> set js \<Longrightarrow> slot = length pre \<Longrightarrow>
    loadHeadWord (pre @ cellsBytes (groupCells w hs ps js) @ post) slot = 0"
proof -
  assume a: "ps \<noteq> []" "0 \<notin> set js" "slot = length pre"
  have u: "[0 ..< length ps] = 0 # [1 ..< length ps]" using a(1) by (simp add: upt_conv_Cons)
  then have "groupCells w hs ps js = Pending (ps ! 0) # tl (groupCells w hs ps js)"
    using a(2) unfolding groupCells_def u by simp
  then have "cellsBytes (groupCells w hs ps js) = replicate 8 0 @ (ps ! 0 @ padding (ps ! 0)
      @ cellsBytes (tl (groupCells w hs ps js)))"
    by (metis append.assoc cellBytes.simps(1) cellsBytes_simps(2) pendingFrame_def)
  then have "loadHeadWord (pre @ cellsBytes (groupCells w hs ps js) @ post) slot
      = loadHeadWord (replicate 8 0 @ (ps ! 0 @ padding (ps ! 0)
      @ cellsBytes (tl (groupCells w hs ps js))) @ post) 0"
    using a(3) by (simp add: loadHeadWord_append)
  also have "\<dots> = 0" by (simp add: loadHeadWord_eq_loadWord) (simp add: loadWord_def)
  finally show ?thesis .
qed

section \<open>Properties\<close>

text \<open>
  What a writer appended is what the reader walks: over the body of a chunk whose
  writer stands at the end of the log \<open>rs\<close>, the inner loop visits exactly the records of
  \<open>rs\<close>, in order, each at the offset it was reserved at and with its payload, calls
  nothing unreadable and calls the rest of the chunk unwritten.
\<close>

theorem walk_reads_log:
  assumes "writes w bs rs"
  shows "walkBody bs idx owner (cw_base w + cw_size w) (cw_base w)
    = (views idx owner (cw_base w) rs, 0, remaining w)"
  using assms by (rule writes_walk)

theorem walk_reads_log_witness:
  "walkBody (replicate 20 0) 3 77 20 4 = ([], 0, 16)"
proof -
  have "writes (newWriter 4 16) (replicate 4 0 @ replicate 16 0 @ []) []"
    by (rule writes_new) simp_all
  then have "writes (newWriter 4 16) (replicate 20 0) []" by (simp add: replicate_add [symmetric])
  from walk_reads_log [OF this, of 3 77] show ?thesis
    by (simp add: newWriter_def remaining_def cw_valid_def)
qed

text \<open>
  A writer stopped at any moment loses nothing it committed: whatever the bytes
  from its write position on hold, as long as the head word there carries no commit
  tag, the walk yields the committed records and no other.
\<close>

theorem crash_keeps_committed:
  assumes "writes w bs rs" and "length bs' = length bs"
    and "take (cw_base w + cw_offset w) bs' = take (cw_base w + cw_offset w) bs"
    and "8 \<le> remaining w \<longrightarrow> \<not> isCommitted (loadHeadWord bs' (cw_base w + cw_offset w))"
  shows "fst (walkBody bs' idx owner (cw_base w + cw_size w) (cw_base w)) = views idx owner (cw_base w) rs"
proof -
  obtain pre post where bs: "bs = pre @ frames rs @ replicate (remaining w) 0 @ post"
    and pre: "length pre = cw_base w" using writes_split [OF assms(1)] .
  have w: "cw_offset w = length (frames rs)" "remaining w = cw_size w - length (frames rs)"
    "length (frames rs) \<le> cw_size w" "\<forall>r \<in> set rs. rec_ok r"
    using assms(1) writes_remaining [OF assms(1)] by (auto simp: writes_def)
  let ?c = "cw_base w + cw_offset w" and ?e = "cw_base w + cw_size w"
  have "take ?c bs' = pre @ frames rs" unfolding assms(3) using w pre by (simp add: bs)
  then have bs': "bs' = pre @ frames rs @ drop ?c bs'"
    by (metis append.assoc append_take_drop_id)
  have split: "walkBody bs' idx owner ?e (length pre) =
      addWalk (views idx owner (length pre) rs, 0, 0) (walkBody bs' idx owner ?e (length pre + length (frames rs)))"
    using w pre by (intro walkBody_frames_then [OF _ bs']) auto
  have "fst (walkBody bs' idx owner ?e ?c) = []"
  proof (cases "8 \<le> remaining w")
    case True
    then show ?thesis using assms(4) w by (subst walkBody_stop) auto
  next
    case False
    then show ?thesis using w by (subst walkBody_short) auto
  qed
  then show ?thesis using split w pre by simp
qed

theorem crash_keeps_committed_witness:
  "fst (walkBody (replicate 4 0 @ replicate 8 0 @ replicate 8 0xAB) 3 77 20 4) = []"
proof -
  have "writes (newWriter 4 16) (replicate 4 0 @ replicate 16 0 @ []) []"
    by (rule writes_new) simp_all
  then have w: "writes (newWriter 4 16) (replicate 20 0) []" by (simp add: replicate_add [symmetric])
  show ?thesis
    using crash_keeps_committed [OF w, of "replicate 4 0 @ replicate 8 0 @ replicate 8 0xAB" 3 77]
    by (simp add: newWriter_def loadHeadWord_def loadWord_def)
qed

text \<open>
  C21. On any image at all, however damaged, every visited record lies inside the part
  of the image the header claims, its payload is the image's own bytes at its offset
  and as long as its head says, and no two visited records overlap.
\<close>

theorem visit_reads_inside:
  "(\<forall>v \<in> set (fst (visit (openSegment img))).
      rv_recordOffset v + 8 + length (rv_payload v) \<le> length img
      \<and> length (rv_payload v) = unat (rh_payloadBytes (rv_head v))
      \<and> rv_payload v = take (length (rv_payload v)) (drop (rv_recordOffset v + 8) img))
    \<and> sorted_wrt (\<lambda>v v'. rv_recordOffset v + 8 + length (rv_payload v) \<le> rv_recordOffset v')
        (fst (visit (openSegment img)))"
proof -
  let ?rd = "openSegment img"
  have img: "sr_image ?rd = img" by (simp add: openSegment_def Let_def)
  have "(\<forall>v \<in> set (fst (visit ?rd)). view_within img 0 (length img) v)
      \<and> sorted_wrt before (fst (visit ?rd))"
    using visitFrom_views [of img "sr_header ?rd" 0 "unat (sh_headerBytes (sr_header ?rd))"]
    by (auto simp: visit_def img elim!: view_within_mono)
  then show ?thesis by (auto simp: view_within_def before_def elim!: sorted_wrt_mono_rel [rotated])
qed

theorem visit_reads_inside_witness:
  "sorted_wrt (\<lambda>v v'. rv_recordOffset v + 8 + length (rv_payload v) \<le> rv_recordOffset v')
        (fst (visit (openSegment [1, 2, 3])))"
  using visit_reads_inside [of "[1, 2, 3]"] by simp

text \<open>
  The two counters never overlap and never exceed the chunk area: on any image,
  unreadable and unwritten bytes together are at most the header's segment size minus
  its header area.
\<close>

theorem accounted_within_segment:
  "accountedBytes rd \<le> unat (sh_segmentBytes (sr_header rd)) - unat (sh_headerBytes (sr_header rd))"
  using visitFrom_accounted [of "sr_image rd" "sr_header rd" 0 "unat (sh_headerBytes (sr_header rd))"]
  by (simp add: accountedBytes_def unreadableBytes_def unwrittenBytes_def visit_def)

text \<open>
  A continuation chain is visible whole or not at all: while the record at the front
  of a reserved group is uncommitted, whichever of the others are, the walk yields the
  records from before; once all are committed it yields the whole group behind them.
\<close>

theorem chain_all_or_nothing:
  assumes "writes w bs rs" and "groupSize (map length ps) \<le> remaining w" and "ps \<noteq> []"
    and "distinct js" and "set js \<subseteq> {0 ..< length ps}"
    and "length hs = length ps"
    and "\<forall>j < length ps. unat (rh_payloadBytes (hs ! j)) = length (ps ! j) \<and> kindCanonical (rh_kind (hs ! j))"
    and "bs' = commitAll split (storeAll bs (slotsFor w (map length ps)) ps) (slotsFor w (map length ps)) hs js"
  shows "(0 \<notin> set js \<longrightarrow>
      fst (walkBody bs' idx owner (cw_base w + cw_size w) (cw_base w)) = views idx owner (cw_base w) rs)
    \<and> (set js = {0 ..< length ps} \<longrightarrow>
      fst (walkBody bs' idx owner (cw_base w + cw_size w) (cw_base w))
        = views idx owner (cw_base w) (rs @ groupRecords w hs ps))"
proof (intro conjI impI)
  let ?k = "remaining w - groupSize (map length ps)"
  have f: "remaining w = cw_size w - length (frames rs)" "length (frames rs) \<le> cw_size w" "\<forall>r \<in> set rs. rec_ok r"
    using assms(1) writes_remaining [OF assms(1)] by (auto simp: writes_def)
  assume "0 \<notin> set js"
  obtain pre post where p: "bs' = (pre @ frames rs) @ cellsBytes (groupCells w hs ps js) @ replicate ?k 0 @ post"
    "length pre = cw_base w"
    using group_written [OF assms(1,2,4,5)] assms(8) by metis
  let ?e = "cw_base w + cw_size w" and ?c = "length pre + length (frames rs)"
  have head: "loadHeadWord bs' ?c = 0"
    unfolding p(1) using \<open>0 \<notin> set js\<close> assms(3) by (intro loadHeadWord_pending) simp_all
  have "8 \<le> groupSize (map length ps)" using assms(3) by (cases ps) (simp_all add: footprint_def)
  then have "?c + 8 \<le> ?e" using assms(2) f p(2) by simp
  then have "walkBody bs' idx owner ?e ?c = ([], 0, ?e - ?c)"
    using head by (subst walkBody_stop) simp_all
  moreover have "walkBody bs' idx owner ?e (length pre) =
      addWalk (views idx owner (length pre) rs, 0, 0) (walkBody bs' idx owner ?e ?c)"
    using f p by (intro walkBody_frames_then [where rest = "cellsBytes (groupCells w hs ps js) @ replicate ?k 0 @ post"])
      simp_all
  ultimately show "fst (walkBody bs' idx owner ?e (cw_base w)) = views idx owner (cw_base w) rs"
    using p(2) by simp
next
  assume "set js = {0 ..< length ps}"
  then have "writes (advanceAll w (map length ps)) bs' (rs @ groupRecords w hs ps)"
    using assms by (intro group_committed(1) [OF assms(1,2,4)]) simp_all
  then show "fst (walkBody bs' idx owner (cw_base w + cw_size w) (cw_base w))
      = views idx owner (cw_base w) (rs @ groupRecords w hs ps)"
    using writes_walk [of "advanceAll w (map length ps)"] by (simp add: advanceAll_fields)
qed

theorem chain_all_or_nothing_witness:
  "fst (walkBody (commitAll False (storeAll (replicate 40 0) (slotsFor (newWriter 0 40) [3, 5]) [[1, 2, 3], [4, 5, 6, 7, 8]])
      (slotsFor (newWriter 0 40) [3, 5])
      [\<lparr>rh_payloadBytes = 3, rh_kind = Message, rh_flags = 2, rh_sequence = 0\<rparr>,
       \<lparr>rh_payloadBytes = 5, rh_kind = Continuation, rh_flags = 0, rh_sequence = 0\<rparr>] [1]) 0 7 40 0) = []"
proof -
  have "writes (newWriter 0 40) ([] @ replicate 40 0 @ []) []" by (rule writes_new) simp_all
  then have w: "writes (newWriter 0 40) (replicate 40 0) []" by simp
  have l: "map length [[1, 2, 3], [4, 5, 6, 7, 8 :: byte]] = [3, 5]" by simp
  show ?thesis
    using chain_all_or_nothing [OF w, of "[[1, 2, 3], [4, 5, 6, 7, 8]]" "[1]"
        "[\<lparr>rh_payloadBytes = 3, rh_kind = Message, rh_flags = 2, rh_sequence = 0\<rparr>,
          \<lparr>rh_payloadBytes = 5, rh_kind = Continuation, rh_flags = 0, rh_sequence = 0\<rparr>]" _ False 0 7, OF _ _ _ _ _ _ refl]
    unfolding l by (simp add: newWriter_def less_Suc_eq_0_disj footprint_def align8_def remaining_def cw_valid_def)
qed

end
