(* ===== verification/Platform.thy ===== *)
theory Platform
  imports Prelude
begin

text \<open>
  The part of \<^verbatim>\<open>include/sub0log/detail/platform.hpp\<close> the rest of the library computes with:
  the error value fallible constructors carry and the segment generation.  Clock
  readings, process and thread ids are inputs; what the operating system does with a
  file (\<open>FileMapping::create\<close>) is a parameter of \<open>Segment.create\<close>.
\<close>

section \<open>Errors\<close>

record PlatformError =
  pe_code :: int
  pe_what :: string

definition noError :: PlatformError where
  "noError = \<lparr>pe_code = 0, pe_what = []\<rparr>"

definition hasError :: "PlatformError \<Rightarrow> bool" where
  "hasError e \<longleftrightarrow> pe_what e \<noteq> []"

section \<open>The generation\<close>

text \<open>
  \<open>call\<close> is this call's value of the per-process counter, \<open>stackNoise\<close> the address of a
  local variable; the mix before the zero check is \<open>generationMix\<close>.
\<close>

definition generationMix :: "u32 \<Rightarrow> u64 \<Rightarrow> u64 \<Rightarrow> u64 \<Rightarrow> u64 \<Rightarrow> u64" where
  "generationMix call stackNoise monoNs pid wallNs =
     ucast call * 0xA24BAED4963EE407
     XOR stackNoise * 0xD6E8FEB86659FD93
     XOR monoNs * 0x9E3779B97F4A7C15
     XOR (pid + 1) * 0xBF58476D1CE4E5B9
     XOR wallNs * 0x94D049BB133111EB"

definition randomGeneration :: "u32 \<Rightarrow> u64 \<Rightarrow> u64 \<Rightarrow> u64 \<Rightarrow> u64 \<Rightarrow> u64" where
  "randomGeneration call stackNoise monoNs pid wallNs =
     (let value = generationMix call stackNoise monoNs pid wallNs
      in if value = 0 then 0x9E3779B97F4A7C15 else value)"

lemma randomGeneration_nonzero [simp]: "randomGeneration c s m p w \<noteq> 0"
  by (simp add: randomGeneration_def Let_def)

lemma xor_right_cancel: "a XOR x = b XOR x \<Longrightarrow> a = (b :: 'a::len word)"
  by (metis (no_types) bit.xor_self xor.assoc xor.right_neutral)

lemma odd_factor_inj:
  assumes "(a :: u64) * 0xA24BAED4963EE407 = b * 0xA24BAED4963EE407"
  shows "a = b"
proof -
  have one: "(0xA24BAED4963EE407 :: u64) * 0x8B951323F69349B7 = 1" by simp
  have "a * (0xA24BAED4963EE407 * 0x8B951323F69349B7) = b * (0xA24BAED4963EE407 * 0x8B951323F69349B7)"
    using assms by (simp only: mult.assoc [symmetric])
  then show ?thesis by (simp only: one mult_1_right)
qed

lemma ucast_inj_iff: "(ucast (c :: u32) :: u64) = ucast c' \<longleftrightarrow> c = c'"
proof
  assume e: "(ucast c :: u64) = ucast c'"
  show "c = c'"
  proof (rule bit_word_eqI)
    fix n assume "n < LENGTH(32)"
    then show "bit c n = bit c' n" using arg_cong [OF e, of "\<lambda>w. bit w n"] by (simp add: bit_simps)
  qed
qed simp

lemma generationMix_distinct:
  assumes "generationMix c s m p w = generationMix c' s m p w"
  shows "c = c'"
proof -
  have "(ucast c :: u64) * 0xA24BAED4963EE407 = ucast c' * 0xA24BAED4963EE407"
    using assms unfolding generationMix_def by (blast dest: xor_right_cancel)
  then have "(ucast c :: u64) = ucast c'" by (rule odd_factor_inj)
  then show ?thesis by (simp add: ucast_inj_iff)
qed

end
