(* ===== verification/Context.thy ===== *)
theory Context
  imports Platform
begin

text \<open>
  The small headers every call site uses: \<^verbatim>\<open>severity.hpp\<close> (the severity ladder and the
  subsystem id), \<^verbatim>\<open>site.hpp\<close> (the constant half of a call site) and \<^verbatim>\<open>context.hpp\<close>
  (correlation ids and their scopes).  Thread-local variables are explicit arguments and
  results.
\<close>

section \<open>Severity\<close>

text \<open>An \<open>enum class\<close> with a fixed underlying type holds any byte, named or not.\<close>

datatype Severity = Severity (sevCode: u8)

definition Trace :: Severity where "Trace = Severity 0"
definition Debug :: Severity where "Debug = Severity 1"
definition Info :: Severity where "Info = Severity 2"
definition Warning :: Severity where "Warning = Severity 3"
definition Error :: Severity where "Error = Severity 4"
definition Unclassified :: Severity where "Unclassified = Severity 5"
definition Fatal :: Severity where "Fatal = Severity 6"

instantiation Severity :: linorder
begin

definition less_eq_Severity :: "Severity \<Rightarrow> Severity \<Rightarrow> bool" where
  "less_eq_Severity a b \<longleftrightarrow> sevCode a \<le> sevCode b"

definition less_Severity :: "Severity \<Rightarrow> Severity \<Rightarrow> bool" where
  "less_Severity a b \<longleftrightarrow> sevCode a < sevCode b"

instance
  by standard (auto simp: less_eq_Severity_def less_Severity_def intro: Severity.expand)

end

definition atLeast :: "Severity \<Rightarrow> Severity \<Rightarrow> bool" where
  "atLeast v threshold \<longleftrightarrow> sevCode threshold \<le> sevCode v"

lemma atLeast_iff: "atLeast v threshold \<longleftrightarrow> threshold \<le> v"
  by (simp add: atLeast_def less_eq_Severity_def)

section \<open>Call sites\<close>

text \<open>\<open>sd_address\<close> is the descriptor's own address, which is its id on the wire.\<close>

record SiteDescriptor =
  sd_address :: u64
  sd_format :: bytes
  sd_file :: bytes
  sd_line :: u32
  sd_subsystem :: u32
  sd_severity :: Severity
  sd_announcedKey :: u64

definition siteId :: "SiteDescriptor \<Rightarrow> u64" where
  "siteId site = sd_address site"

section \<open>Correlation ids\<close>

definition splitmix64 :: "u64 \<Rightarrow> u64" where
  "splitmix64 x0 =
     (let x = x0 + 0x9E3779B97F4A7C15;
          z = (x XOR drop_bit 30 x) * 0xBF58476D1CE4E5B9;
          z = (z XOR drop_bit 27 z) * 0x94D049BB133111EB
      in z XOR drop_bit 31 z)"

text \<open>The id and the thread-local counter after the call.\<close>

definition newCorrelationId :: "u64 \<Rightarrow> u64 \<Rightarrow> u64 \<Rightarrow> u64 \<times> u64" where
  "newCorrelationId pid now tCounter =
     (let tCounter = tCounter + 1;
          seed = splitmix64 pid;
          seed = splitmix64 (seed XOR now);
          seed = splitmix64 (seed XOR tCounter)
      in (if seed = 0 then 1 else seed, tCounter))"

text \<open>A live scope: the id it entered and the one it will restore.\<close>

record CorrelationScope =
  co_id :: u64
  co_previous :: u64

definition enterScope :: "u64 \<Rightarrow> u64 \<Rightarrow> CorrelationScope \<times> u64" where
  "enterScope newId current = (\<lparr>co_id = newId, co_previous = current\<rparr>, newId)"

definition leaveScope :: "CorrelationScope \<Rightarrow> u64" where
  "leaveScope scope = co_previous scope"

text \<open>\<open>strtoull(value, &end, 10)\<close>: the value, and whether any digit was consumed.\<close>

definition isSpaceChar :: "char \<Rightarrow> bool" where
  "isSpaceChar c \<longleftrightarrow> of_char c \<in> {9, 10, 11, 12, 13, 32 :: nat}"

definition isDigitChar :: "char \<Rightarrow> bool" where
  "isDigitChar c \<longleftrightarrow> 48 \<le> (of_char c :: nat) \<and> (of_char c :: nat) \<le> 57"

definition strtoull :: "string \<Rightarrow> u64 \<times> bool" where
  "strtoull s =
     (let s1 = dropWhile isSpaceChar s;
          negative = (s1 \<noteq> [] \<and> hd s1 = CHR ''-'');
          s2 = (if s1 \<noteq> [] \<and> (hd s1 = CHR ''-'' \<or> hd s1 = CHR ''+'') then tl s1 else s1);
          digits = takeWhile isDigitChar s2;
          n = charsToNat 10 digits
      in if digits = [] then (0, False)
         else if 2 ^ 64 \<le> n then (-1, True)
         else (if negative then - word_of_nat n else word_of_nat n, True))"

definition correlationFromEnvironment :: "string option \<Rightarrow> u64" where
  "correlationFromEnvironment envVar =
     (case envVar of
        None \<Rightarrow> 0
      | Some s \<Rightarrow>
          if s = [] then 0
          else let (parsed, any) = strtoull s in if \<not> any then 0 else parsed)"

section \<open>Mixing loses nothing\<close>

lemma xorshift_inj:
  assumes eq: "z XOR drop_bit k z = w XOR drop_bit k (w :: 'a::len word)" and k: "0 < k"
  shows "z = w"
proof (rule bit_word_eqI)
  have step: "bit z n = bit w n" if "bit z (k + n) = bit w (k + n)" for n
    using arg_cong [OF eq, of "\<lambda>x. bit x n"] that by (auto simp: bit_simps)
  fix n assume "n < LENGTH('a)"
  then show "bit z n = bit w n"
  proof (induction "LENGTH('a) - n" arbitrary: n rule: less_induct)
    case less
    show ?case
    proof (cases "k + n < LENGTH('a)")
      case True
      then have "bit z (k + n) = bit w (k + n)" using k by (intro less.hyps) linarith+
      then show ?thesis by (rule step)
    next
      case False
      then have "\<not> bit v (k + n)" for v :: "'a word" using bit_imp_le_length [of v "k + n"] by blast
      then show ?thesis by (simp add: step)
    qed
  qed
qed

lemma odd_mult_inj:
  assumes "c * d = (1 :: u64)" and "x * c = y * c"
  shows "x = y"
proof -
  have "x * (c * d) = y * (c * d)" using assms(2) by (simp only: mult.assoc [symmetric])
  then show ?thesis by (simp only: assms(1) mult_1_right)
qed

lemma splitmix64_inj: "splitmix64 x = splitmix64 y \<Longrightarrow> x = y"
proof -
  have c1: "(0xBF58476D1CE4E5B9 :: u64) * 0x96DE1B173F119089 = 1" by simp
  have c2: "(0x94D049BB133111EB :: u64) * 0x319642B2D24D8EC3 = 1" by simp
  define a :: "u64 \<Rightarrow> u64" where "a u = u + 0x9E3779B97F4A7C15" for u
  define b :: "u64 \<Rightarrow> u64" where "b u = (a u XOR drop_bit 30 (a u)) * 0xBF58476D1CE4E5B9" for u
  define c :: "u64 \<Rightarrow> u64" where "c u = (b u XOR drop_bit 27 (b u)) * 0x94D049BB133111EB" for u
  assume "splitmix64 x = splitmix64 y"
  then have "c x XOR drop_bit 31 (c x) = c y XOR drop_bit 31 (c y)"
    by (simp only: splitmix64_def Let_def a_def b_def c_def)
  then have "c x = c y" by (rule xorshift_inj) simp
  then have "b x XOR drop_bit 27 (b x) = b y XOR drop_bit 27 (b y)"
    unfolding c_def by (rule odd_mult_inj [OF c2])
  then have "b x = b y" by (rule xorshift_inj) simp
  then have "a x XOR drop_bit 30 (a x) = a y XOR drop_bit 30 (a y)"
    unfolding b_def by (rule odd_mult_inj [OF c1])
  then have "a x = a y" by (rule xorshift_inj) simp
  then show ?thesis by (simp add: a_def)
qed

section \<open>Scopes nest\<close>

text \<open>
  The code of one thread: record emissions, and blocks that run inside a scope.  The
  result lists the ids the emissions see; the second component is the thread-local id
  after the code has run.
\<close>

datatype scoped = Emission | InScope u64 "scoped list"

fun runScoped :: "scoped \<Rightarrow> u64 \<Rightarrow> u64 list \<times> u64"
  and runAll :: "scoped list \<Rightarrow> u64 \<Rightarrow> u64 list \<times> u64" where
  "runScoped Emission current = ([current], current)"
| "runScoped (InScope newId body) current =
     (let (scope, inner) = enterScope newId current;
          (seen, after) = runAll body inner
      in (seen, leaveScope scope))"
| "runAll [] current = ([], current)"
| "runAll (p # ps) current =
     (let (seen, after) = runScoped p current; (seen', after') = runAll ps after in (seen @ seen', after'))"

fun innermost :: "u64 \<Rightarrow> scoped \<Rightarrow> u64 list"
  and innermosts :: "u64 \<Rightarrow> scoped list \<Rightarrow> u64 list" where
  "innermost current Emission = [current]"
| "innermost current (InScope newId body) = innermosts newId body"
| "innermosts current [] = []"
| "innermosts current (p # ps) = innermost current p @ innermosts current ps"

lemma runScoped_innermost:
  "runScoped p current = (innermost current p, current)"
  "runAll ps current = (innermosts current ps, current)"
  by (induction p current and ps current rule: runScoped_runAll.induct)
    (auto simp: enterScope_def leaveScope_def split: prod.splits)

lemma correlation_environment_id: "correlationFromEnvironment (Some (natToChars 10 (unat w))) = w"
proof -
  let ?s = "natToChars 10 (unat w)"
  have d: "isDigitChar c" if "c \<in> set ?s" for c
    using natToChars_digits [OF _ _ that] by (auto simp: isDigitChar_def)
  then have ne: "?s \<noteq> []" and all: "takeWhile isDigitChar ?s = ?s"
    by (auto simp: natToChars.simps [of 10 "unat w"] intro!: takeWhile_eq_all_conv [THEN iffD2])
  have h: "isDigitChar (hd ?s)" using d ne by simp
  then have "\<not> isSpaceChar (hd ?s)" "hd ?s \<noteq> CHR ''-''" "hd ?s \<noteq> CHR ''+''"
    by (auto simp: isDigitChar_def isSpaceChar_def)
  moreover from this(1) ne have "dropWhile isSpaceChar ?s = ?s"
    by (cases ?s) simp_all
  moreover have "unat w < 2 ^ 64" using unsigned_less [of w] by simp
  ultimately have "strtoull ?s = (w, True)"
    using ne by (simp add: strtoull_def Let_def all charsToNat_natToChars)
  then show ?thesis
    using ne by (simp add: correlationFromEnvironment_def)
qed

section \<open>Properties\<close>



text \<open>
  Scopes nest: whatever a thread runs inside a scope, every emission sees the id of
  the innermost scope around it, and leaving the scope restores the id from before.
\<close>

theorem scopes_nest:
  "runScoped (InScope newId body) current = (innermosts newId body, current)"
  by (simp add: runScoped_innermost)

text \<open>
  A correlation variable that is a decimal number below 2 ^ 64 is read as that
  number, so a parent's id survives the trip through a child's environment; but a value
  with a malformed tail is not refused, its leading digits are taken.
\<close>

theorem correlation_environment:
  "correlationFromEnvironment (Some (natToChars 10 (unat w))) = w
    \<and> correlationFromEnvironment (Some ''12abc'') = 12"
  by (simp add: correlation_environment_id)
    (simp add: correlationFromEnvironment_def strtoull_def isSpaceChar_def isDigitChar_def charsToNat_def charDigit_def)

end
