(* ===== verification/Encode.thy ===== *)
theory Encode
  imports Wire
begin

text \<open>
  \<^verbatim>\<open>include/sub0log/encode.hpp\<close>: the type codes and the payload encoder.  A call site's
  argument is a value of \<open>arg\<close>, one constructor per class of C++ types the concepts
  admit; an enum is its underlying integer.  Integers and floating-point values are
  their object representations.  \<open>ABytes\<close> stands for every view (\<open>string_view\<close>,
  \<open>span<const byte>\<close>, anything converting to \<open>string_view\<close>), \<open>ACString\<close> for a C string:
  the characters in front of its terminator, or no string at all.
\<close>

datatype arg =
    ABool bool | AChar u8
  | AI8 u8 | AI16 u16 | AI32 u32 | AI64 u64
  | AU8 u8 | AU16 u16 | AU32 u32 | AU64 u64
  | AF32 u32 | AF64 u64
  | APointer u64
  | ABytes bytes
  | ACString "bytes option"

fun typeCodeFor :: "arg \<Rightarrow> TypeCode" where
  "typeCodeFor (ABool b) = TcBool"
| "typeCodeFor (AChar c) = TcChar"
| "typeCodeFor (AI8 w) = TcI8"
| "typeCodeFor (AI16 w) = TcI16"
| "typeCodeFor (AI32 w) = TcI32"
| "typeCodeFor (AI64 w) = TcI64"
| "typeCodeFor (AU8 w) = TcU8"
| "typeCodeFor (AU16 w) = TcU16"
| "typeCodeFor (AU32 w) = TcU32"
| "typeCodeFor (AU64 w) = TcU64"
| "typeCodeFor (AF32 w) = TcF32"
| "typeCodeFor (AF64 w) = TcF64"
| "typeCodeFor (APointer w) = TcPointer"
| "typeCodeFor (ABytes bs) = TcBytes"
| "typeCodeFor (ACString p) = TcBytes"

fun isByteArg :: "arg \<Rightarrow> bool" where
  "isByteArg (ABytes bs) = True"
| "isByteArg (ACString p) = True"
| "isByteArg _ = False"

definition hasByteArg :: "arg list \<Rightarrow> bool" where
  "hasByteArg args \<longleftrightarrow> list_ex isByteArg args"

fun fixedWireSize :: "arg \<Rightarrow> nat" where
  "fixedWireSize (ABool b) = 1"
| "fixedWireSize (AChar c) = 1"
| "fixedWireSize (AI8 w) = 1"
| "fixedWireSize (AI16 w) = 2"
| "fixedWireSize (AI32 w) = 4"
| "fixedWireSize (AI64 w) = 8"
| "fixedWireSize (AU8 w) = 1"
| "fixedWireSize (AU16 w) = 2"
| "fixedWireSize (AU32 w) = 4"
| "fixedWireSize (AU64 w) = 8"
| "fixedWireSize (AF32 w) = 4"
| "fixedWireSize (AF64 w) = 8"
| "fixedWireSize (APointer w) = 8"
| "fixedWireSize (ABytes bs) = 0"
| "fixedWireSize (ACString p) = 0"

section \<open>Lengths\<close>

text \<open>The scanning loop over a C string: at most \<open>limit\<close> characters, stopping at a NUL.\<close>

fun scanLength :: "nat \<Rightarrow> bytes \<Rightarrow> nat" where
  "scanLength 0 p = 0"
| "scanLength (Suc limit) [] = 0"
| "scanLength (Suc limit) (c # p) = (if c = 0 then 0 else Suc (scanLength limit p))"

definition boundedLength :: "bytes option \<Rightarrow> nat" where
  "boundedLength p = (case p of None \<Rightarrow> 0 | Some cs \<Rightarrow> scanLength cInlineBytesCap cs)"

definition cArgCeiling :: nat where
  "cArgCeiling = cInlineBytesCap * (1 + cMaxContinuations)"

text \<open>The bytes an argument points at and the length taken of them.\<close>

fun rawBytesOf :: "arg \<Rightarrow> bytes \<times> nat" where
  "rawBytesOf (ABytes bs) = (bs, length bs)"
| "rawBytesOf (ACString None) = ([], 0)"
| "rawBytesOf (ACString (Some cs)) = (cs, scanLength (cArgCeiling + 1) cs)"
| "rawBytesOf _ = ([], 0)"

fun upperBoundOne :: "arg \<Rightarrow> nat" where
  "upperBoundOne (ABytes bs) = 2 + (if length bs < cInlineBytesCap then length bs else cInlineBytesCap)"
| "upperBoundOne (ACString p) = 2 + boundedLength p"
| "upperBoundOne a = fixedWireSize a"

definition upperBoundSize :: "arg list \<Rightarrow> nat" where
  "upperBoundSize args = foldl (+) 0 (map upperBoundOne args)"

section \<open>Writing\<close>

record EncodeResult =
  er_bytes :: nat
  er_truncated :: bool

text \<open>The bytes one fixed-size argument stores; a pointer is widened to eight.\<close>

fun encodeFixedOne :: "arg \<Rightarrow> bytes" where
  "encodeFixedOne (ABool b) = wordBytes (if b then 1 else 0 :: u8)"
| "encodeFixedOne (AChar c) = wordBytes c"
| "encodeFixedOne (AI8 w) = wordBytes w"
| "encodeFixedOne (AI16 w) = wordBytes w"
| "encodeFixedOne (AI32 w) = wordBytes w"
| "encodeFixedOne (AI64 w) = wordBytes w"
| "encodeFixedOne (AU8 w) = wordBytes w"
| "encodeFixedOne (AU16 w) = wordBytes w"
| "encodeFixedOne (AU32 w) = wordBytes w"
| "encodeFixedOne (AU64 w) = wordBytes w"
| "encodeFixedOne (AF32 w) = wordBytes w"
| "encodeFixedOne (AF64 w) = wordBytes w"
| "encodeFixedOne (APointer w) = wordBytes w"
| "encodeFixedOne (ABytes bs) = []"
| "encodeFixedOne (ACString p) = []"

text \<open>The bytes written at the destination and the updated truncation flag.\<close>

definition encodeBytesOne :: "nat \<Rightarrow> bytes \<Rightarrow> nat \<Rightarrow> bool \<Rightarrow> bytes \<times> bool" where
  "encodeBytesOne capacityLeft data len truncated =
     (if capacityLeft < 2 then ([], truncated \<or> 0 < len)
      else
        let maxCopy = capacityLeft - 2;
            cap = (if maxCopy < cInlineBytesCap then maxCopy else cInlineBytesCap);
            copyLen = (if len < cap then len else cap)
        in (wordBytes (word_of_nat copyLen :: u16) @ take copyLen data,
            truncated \<or> copyLen < len))"

text \<open>
  One step of the fold over the arguments: what has been written so far is the first
  component, so its length is the source's \<open>offset\<close>.
\<close>

definition encodeOne :: "nat \<Rightarrow> bytes \<times> bool \<Rightarrow> arg \<Rightarrow> bytes \<times> bool" where
  "encodeOne capacity acc a =
     (let (out, truncated) = acc;
          left = (if length out \<le> capacity then capacity - length out else 0)
      in case a of
           ABytes bs \<Rightarrow> (let (xs, t) = encodeBytesOne left bs (length bs) truncated in (out @ xs, t))
         | ACString p \<Rightarrow>
             (let (xs, t) = encodeBytesOne left (case p of None \<Rightarrow> [] | Some cs \<Rightarrow> cs)
                              (boundedLength p) truncated
              in (out @ xs, t))
         | _ \<Rightarrow> (out @ encodeFixedOne a, truncated))"

definition encodeArgs :: "nat \<Rightarrow> arg list \<Rightarrow> bytes \<times> EncodeResult" where
  "encodeArgs capacity args =
     (let (out, truncated) = foldl (encodeOne capacity) ([], False) args
      in (out, \<lparr>er_bytes = length out, er_truncated = truncated\<rparr>))"

section \<open>Sizes\<close>

lemma fixedWireSize_agrees:
  "\<not> isByteArg a \<Longrightarrow> fixedWireSize a = fixedSizeOf (typeCodeFor a)"
  by (cases a) simp_all

lemma length_encodeFixedOne: "length (encodeFixedOne a) = fixedWireSize a"
  by (cases a) simp_all

lemma scanLength_le: "scanLength n p \<le> n" "scanLength n p \<le> length p"
  by (induction n p rule: scanLength.induct) auto

lemma scanLength_eq: "scanLength n p = length (takeWhile (\<lambda>c. c \<noteq> 0) (take n p))"
  by (induction n p rule: scanLength.induct) auto

lemma scanLength_Nil [simp]: "scanLength n [] = 0"
  by (cases n) simp_all

lemma scanLength_min: "m \<le> n \<Longrightarrow> min m (scanLength n p) = scanLength m p"
proof (induction n p arbitrary: m rule: scanLength.induct)
  case (3 limit c p)
  then show ?case by (cases m) auto
qed auto

lemma boundedLength_le: "boundedLength p \<le> cInlineBytesCap"
  by (auto simp: boundedLength_def scanLength_le split: option.split)

lemma foldl_add: "foldl (+) (n :: nat) xs = n + sum_list xs"
  by (induction xs arbitrary: n) simp_all

lemma upperBoundSize_simps [simp]:
  "upperBoundSize [] = 0" "upperBoundSize (a # as) = upperBoundOne a + upperBoundSize as"
  by (simp_all add: upperBoundSize_def foldl_add)

text \<open>The bytes of one argument when there is room for all it may take.\<close>

fun encodedArg :: "arg \<Rightarrow> bytes" where
  "encodedArg (ABytes bs) =
     wordBytes (word_of_nat (min (length bs) cInlineBytesCap) :: u16) @ take (min (length bs) cInlineBytesCap) bs"
| "encodedArg (ACString p) =
     wordBytes (word_of_nat (boundedLength p) :: u16)
     @ take (boundedLength p) (case p of None \<Rightarrow> [] | Some cs \<Rightarrow> cs)"
| "encodedArg a = encodeFixedOne a"

definition cutArg :: "arg \<Rightarrow> bool" where
  "cutArg a \<longleftrightarrow> (case a of ABytes bs \<Rightarrow> cInlineBytesCap < length bs | _ \<Rightarrow> False)"

lemma length_encodedArg: "length (encodedArg a) = upperBoundOne a"
  by (cases a rule: encodedArg.cases)
    (auto simp: length_encodeFixedOne boundedLength_def scanLength_le split: option.split)

lemma encodeBytesOne_fits:
  assumes "2 + min n cInlineBytesCap \<le> left"
  shows "encodeBytesOne left bs n t =
    (wordBytes (word_of_nat (min n cInlineBytesCap) :: u16) @ take (min n cInlineBytesCap) bs,
     t \<or> cInlineBytesCap < n)"
proof -
  let ?cap = "if left - 2 < cInlineBytesCap then left - 2 else cInlineBytesCap"
  have "(if n < ?cap then n else ?cap) = min n cInlineBytesCap"
    using assms by (auto simp: min_def split: if_splits)
  then show ?thesis using assms by (auto simp: encodeBytesOne_def Let_def)
qed

lemma encodeOne_fits:
  assumes "length out + upperBoundOne a \<le> capacity"
  shows "encodeOne capacity (out, t) a = (out @ encodedArg a, t \<or> cutArg a)"
proof -
  have le: "2 + min n cInlineBytesCap \<le> capacity - length out"
    if "length out + (2 + min n cInlineBytesCap) \<le> capacity" for n
    using that by arith
  have b: "min (boundedLength p) cInlineBytesCap = boundedLength p" for p
    using boundedLength_le [of p] by simp
  show ?thesis
  proof (cases a)
    case (ABytes bs)
    then have "length out + (2 + min (length bs) cInlineBytesCap) \<le> capacity"
      using assms by (simp add: min_def split: if_splits)
    with ABytes show ?thesis
      by (simp add: encodeOne_def encodeBytesOne_fits le cutArg_def)
  next
    case (ACString p)
    then have "length out + (2 + min (boundedLength p) cInlineBytesCap) \<le> capacity"
      using assms by (simp add: b)
    with ACString show ?thesis
      using boundedLength_le [of p]
      by (simp add: encodeOne_def encodeBytesOne_fits le b cutArg_def)
  qed (simp_all add: encodeOne_def cutArg_def)
qed

lemma encodeArgs_fits:
  assumes "upperBoundSize args \<le> capacity"
  shows "encodeArgs capacity args =
    (concat (map encodedArg args),
     \<lparr>er_bytes = upperBoundSize args, er_truncated = list_ex cutArg args\<rparr>)"
proof -
  have "foldl (encodeOne capacity) (out, t) args = (out @ concat (map encodedArg args), t \<or> list_ex cutArg args)"
    if "length out + upperBoundSize args \<le> capacity" for out t
    using that
  proof (induction args arbitrary: out t)
    case (Cons a args)
    then show ?case by (simp add: encodeOne_fits length_encodedArg)
  qed simp
  moreover have "length (concat (map encodedArg args)) = upperBoundSize args"
    by (induction args) (simp_all add: length_encodedArg)
  ultimately show ?thesis using assms by (simp add: encodeArgs_def)
qed

text \<open>The payload of a Continuation that carries a slice of the argument at an index.\<close>

definition slicePayload :: "u64 \<Rightarrow> nat \<times> bytes \<Rightarrow> bytes" where
  "slicePayload sid s =
     ContinuationPayload_bytes \<lparr>cp_siteId = sid, cp_argIndex = word_of_nat (fst s), cp_reserved0 = 0,
       cp_reserved1 = 0, cp_reserved2 = 0\<rparr> @ snd s"

section \<open>Properties\<close>

text \<open>
  Sizing and encoding agree: with the capacity the sizing pass computed, the encoder
  writes exactly that many bytes, every argument whole up to the inline cap, and reports a
  cut exactly when a view was longer than the cap.  A C string is different: it is measured
  with the cap as its bound, so one longer than the cap is cut without being reported.
\<close>

theorem encode_matches_sizing:
  "encodeArgs (upperBoundSize args) args
      = (concat (map encodedArg args), \<lparr>er_bytes = upperBoundSize args, er_truncated = list_ex cutArg args\<rparr>)
    \<and> length (concat (map encodedArg args)) = upperBoundSize args
    \<and> (let cs = replicate 600 65; (out, result) = encodeArgs 514 [ACString (Some cs)]
       in out = wordBytes (512 :: u16) @ take 512 cs \<and> \<not> er_truncated result)"
proof -
  have "length (concat (map encodedArg as)) = upperBoundSize as" for as
    by (induction as) (simp_all add: length_encodedArg)
  moreover have "scanLength n (replicate m 65) = min n m" for n m
    by (simp add: scanLength_eq)
  ultimately show ?thesis
    using encodeArgs_fits [of "[ACString (Some (replicate 600 65))]" 514]
    by (simp add: encodeArgs_fits boundedLength_def cInlineBytesCap_def cutArg_def min_def)
qed

end
