(* ===== verification/Decoder.thy ===== *)
theory Decoder
  imports Reader Context Encode
begin

text \<open>
  The typed layer of \<^verbatim>\<open>include/sub0log/reader.hpp\<close>: definitions become the site table,
  Message records become typed records, continuation chains are joined, and a record is
  rendered to text on request.  Views into the image are the bytes themselves, so the
  lifetime rules of the class comment have no counterpart here.  \<open>DInt\<close> carries an
  \<open>int64_t\<close> as its 64-bit pattern and \<open>DDouble\<close> a \<open>double\<close> as its IEEE 754 pattern; how a
  \<open>double\<close> prints (\<open>std::to_chars\<close>, shortest form) is a parameter.
\<close>

section \<open>Typed values\<close>

datatype DecodedArg =
    DBool bool | DChar u8 | DInt u64 | DUint u64 | DDouble u64 | DString bytes

record DecodedSite =
  ds_siteId :: u64
  ds_subsystem :: u32
  ds_severity :: Severity
  ds_line :: u32
  ds_format :: bytes
  ds_file :: bytes
  ds_argTypes :: "TypeCode list"

record DecodedRecord =
  dr_site :: "DecodedSite option"
  dr_monoNs :: u64
  dr_correlationId :: u64
  dr_ownerThread :: u64
  dr_truncated :: bool
  dr_args :: "DecodedArg list"
  dr_segmentGeneration :: u64
  dr_recordOffset :: nat

record Decoder =
  dc_sites :: "u64 \<Rightarrow> DecodedSite option"
  dc_subsystemNames :: "u32 \<Rightarrow> bytes option"
  dc_undecodable :: nat
  dc_skipped :: nat

definition newDecoder :: Decoder where
  "newDecoder = \<lparr>dc_sites = Map.empty, dc_subsystemNames = Map.empty, dc_undecodable = 0, dc_skipped = 0\<rparr>"

text \<open>\<open>try_emplace\<close>: the first value stored under a key stays.\<close>

definition tryEmplace :: "'k \<Rightarrow> 'v \<Rightarrow> ('k \<Rightarrow> 'v option) \<Rightarrow> 'k \<Rightarrow> 'v option" where
  "tryEmplace k v m = (case m k of None \<Rightarrow> m(k \<mapsto> v) | Some _ \<Rightarrow> m)"

section \<open>Parsing definitions\<close>

definition parseSiteDefinition :: "bytes \<Rightarrow> DecodedSite option" where
  "parseSiteDefinition payload =
     (if length payload < cSiteDefinitionPayloadSize then None
      else
        let prefix = SiteDefinitionPayload_load payload;
            offset = cSiteDefinitionPayloadSize;
            argCount = unat (sdp_argCount prefix)
        in if length payload - offset < argCount then None
        else
          let argTypes = map typeCodeOfByte (take argCount (drop offset payload));
              offset = offset + argCount
          in if length payload - offset < 2 then None
          else
            let formatLen = unat (loadWord offset payload :: u16);
                offset = offset + 2
            in if length payload - offset < formatLen then None
            else
              let fmt = take formatLen (drop offset payload);
                  offset = offset + formatLen
              in if length payload - offset < 2 then None
              else
                let fileLen = unat (loadWord offset payload :: u16);
                    offset = offset + 2
                in if length payload - offset < fileLen then None
                else Some \<lparr>ds_siteId = sdp_siteId prefix, ds_subsystem = sdp_subsystemId prefix,
                           ds_severity = Severity (sdp_severity prefix), ds_line = sdp_line prefix,
                           ds_format = fmt, ds_file = take fileLen (drop offset payload),
                           ds_argTypes = argTypes\<rparr>)"

definition parseSubsystemDefinition :: "bytes \<Rightarrow> (u32 \<times> bytes) option" where
  "parseSubsystemDefinition payload =
     (if length payload < cSubsystemDefinitionPayloadSize then None
      else
        let prefix = SubsystemDefinitionPayload_load payload;
            offset = cSubsystemDefinitionPayloadSize
        in if length payload - offset < unat (ssp_nameLen prefix) then None
           else Some (ssp_subsystemId prefix, take (unat (ssp_nameLen prefix)) (drop offset payload)))"

section \<open>Arguments\<close>

text \<open>
  \<open>static_cast<double>(float)\<close> on the bit patterns: exact on every finite value (a
  subnormal is normalised), infinities stay, a NaN keeps its payload and becomes quiet.
\<close>

function normaliseMantissa :: "nat \<Rightarrow> nat \<Rightarrow> nat \<times> nat" where
  "normaliseMantissa m e =
     (if m = 0 \<or> 2 ^ 23 \<le> m \<or> e = 0 then (m, e) else normaliseMantissa (2 * m) (e - 1))"
  by pat_completeness auto
termination by (relation "measure snd") auto

declare normaliseMantissa.simps [simp del]

definition widenFloat :: "u32 \<Rightarrow> u64" where
  "widenFloat f =
     (let s = unat (drop_bit 31 f);
          e = unat (drop_bit 23 f AND 0xFF);
          m = unat (f AND 0x7FFFFF)
      in word_of_nat (s * 2 ^ 63 +
           (if e = 255 then 2047 * 2 ^ 52 + (if m = 0 then 0 else 2 ^ 51 + (m mod 2 ^ 22) * 2 ^ 29)
            else if e \<noteq> 0 then (e + 896) * 2 ^ 52 + m * 2 ^ 29
            else if m = 0 then 0
            else (let (m', e') = normaliseMantissa m 897 in e' * 2 ^ 52 + (m' - 2 ^ 23) * 2 ^ 29))))"

fun decodeFixedArg :: "TypeCode \<Rightarrow> nat \<Rightarrow> bytes \<Rightarrow> DecodedArg" where
  "decodeFixedArg TcBool p bs = DBool ((loadWord p bs :: u8) \<noteq> 0)"
| "decodeFixedArg TcChar p bs = DChar (loadWord p bs)"
| "decodeFixedArg TcI8 p bs = DInt (scast (loadWord p bs :: u8))"
| "decodeFixedArg TcU8 p bs = DUint (ucast (loadWord p bs :: u8))"
| "decodeFixedArg TcI16 p bs = DInt (scast (loadWord p bs :: u16))"
| "decodeFixedArg TcU16 p bs = DUint (ucast (loadWord p bs :: u16))"
| "decodeFixedArg TcI32 p bs = DInt (scast (loadWord p bs :: u32))"
| "decodeFixedArg TcU32 p bs = DUint (ucast (loadWord p bs :: u32))"
| "decodeFixedArg TcI64 p bs = DInt (loadWord p bs)"
| "decodeFixedArg TcU64 p bs = DUint (loadWord p bs)"
| "decodeFixedArg TcF32 p bs = DDouble (widenFloat (loadWord p bs))"
| "decodeFixedArg TcF64 p bs = DDouble (loadWord p bs)"
| "decodeFixedArg TcPointer p bs = DUint (loadWord p bs)"
| "decodeFixedArg _ p bs = DUint 0"

text \<open>The argument loop of \<open>decodeAll\<close>; \<open>None\<close> is \<open>ok = false\<close>.\<close>

fun decodeArgs :: "TypeCode list \<Rightarrow> nat \<Rightarrow> bytes \<Rightarrow> DecodedArg list option" where
  "decodeArgs [] offset payload = Some []"
| "decodeArgs (code # codes) offset payload =
     (if code = TcBytes then
        if length payload - offset < 2 then None
        else
          let len = unat (loadWord offset payload :: u16);
              offset = offset + 2
          in if length payload - offset < len then None
             else map_option (\<lambda>as. DString (take len (drop offset payload)) # as)
                    (decodeArgs codes (offset + len) payload)
      else
        let sz = fixedSizeOf code
        in if sz = 0 \<or> length payload - offset < sz then None
           else map_option (\<lambda>as. decodeFixedArg code offset payload # as)
                  (decodeArgs codes (offset + sz) payload))"

section \<open>The two passes\<close>

definition passOne :: "Decoder \<Rightarrow> RecordView \<Rightarrow> Decoder" where
  "passOne dec v =
     (case rh_kind (rv_head v) of
        SiteDefinition \<Rightarrow>
          (case parseSiteDefinition (rv_payload v) of
             None \<Rightarrow> dec\<lparr>dc_undecodable := dc_undecodable dec + 1\<rparr>
           | Some site \<Rightarrow> dec\<lparr>dc_sites := tryEmplace (ds_siteId site) site (dc_sites dec)\<rparr>)
      | SubsystemDefinition \<Rightarrow>
          (case parseSubsystemDefinition (rv_payload v) of
             None \<Rightarrow> dec\<lparr>dc_undecodable := dc_undecodable dec + 1\<rparr>
           | Some (ident, name) \<Rightarrow>
               dec\<lparr>dc_subsystemNames := tryEmplace ident name (dc_subsystemNames dec)\<rparr>)
      | Message \<Rightarrow> dec
      | Continuation \<Rightarrow> dec
      | _ \<Rightarrow> dec\<lparr>dc_skipped := dc_skipped dec + 1\<rparr>)"

text \<open>The local variables pass two's callback captures.\<close>

record PassState =
  ps_result :: "DecodedRecord list"
  ps_pending :: "DecodedRecord option"
  ps_expecting :: bool
  ps_damaged :: bool
  ps_undecodable :: nat
  ps_skipped :: nat

definition finalizePending :: "PassState \<Rightarrow> PassState" where
  "finalizePending st =
     (case ps_pending st of
        None \<Rightarrow> st
      | Some rec \<Rightarrow>
          (if ps_damaged st then st\<lparr>ps_undecodable := ps_undecodable st + 1\<rparr>
           else st\<lparr>ps_result := ps_result st @ [rec]\<rparr>)
          \<lparr>ps_pending := None, ps_expecting := False, ps_damaged := False\<rparr>)"

definition siteFor :: "Decoder \<Rightarrow> u64 \<Rightarrow> DecodedSite option" where
  "siteFor dec i = dc_sites dec i"

definition subsystemName :: "Decoder \<Rightarrow> u32 \<Rightarrow> bytes" where
  "subsystemName dec i = (case dc_subsystemNames dec i of None \<Rightarrow> [] | Some n \<Rightarrow> n)"

fun argBytes :: "DecodedArg \<Rightarrow> bytes" where
  "argBytes (DString bs) = bs"
| "argBytes _ = []"

text \<open>One slice of a chain: its payload joined to the argument it names, or the chain damaged.\<close>

definition joinSlice :: "PassState \<Rightarrow> DecodedRecord \<Rightarrow> bytes \<Rightarrow> PassState" where
  "joinSlice st rec payload =
     (if length payload < cContinuationPayloadSize then st\<lparr>ps_damaged := True\<rparr>
      else
        let idx = unat (cp_argIndex (ContinuationPayload_load payload));
            types = (case dr_site rec of None \<Rightarrow> [] | Some site \<Rightarrow> ds_argTypes site);
            validTarget = (\<not> ps_damaged st \<and> idx < length (dr_args rec) \<and> dr_site rec \<noteq> None
                           \<and> idx < length types \<and> types ! idx = TcBytes)
        in if \<not> validTarget then st\<lparr>ps_damaged := True\<rparr>
           else st\<lparr>ps_pending := Some (rec\<lparr>dr_args := (dr_args rec)
                  [idx := DString (argBytes (dr_args rec ! idx)
                                   @ drop cContinuationPayloadSize payload)]\<rparr>)\<rparr>)"

text \<open>The ordinary handling of a record that is not part of an open chain.\<close>

definition decodeMessage :: "Decoder \<Rightarrow> u64 \<Rightarrow> PassState \<Rightarrow> RecordView \<Rightarrow> PassState" where
  "decodeMessage dec generation st v =
     (if rh_kind (rv_head v) = Continuation then st\<lparr>ps_skipped := ps_skipped st + 1\<rparr>
      else if rh_kind (rv_head v) \<noteq> Message then st
      else if length (rv_payload v) < cMessagePayloadSize
      then st\<lparr>ps_undecodable := ps_undecodable st + 1\<rparr>
      else
        let prefix = MessagePayload_load (rv_payload v)
        in case siteFor dec (mp_siteId prefix) of
             None \<Rightarrow> st\<lparr>ps_undecodable := ps_undecodable st + 1\<rparr>
           | Some site \<Rightarrow>
             (case decodeArgs (ds_argTypes site) cMessagePayloadSize (rv_payload v) of
                None \<Rightarrow> st\<lparr>ps_undecodable := ps_undecodable st + 1\<rparr>
              | Some args \<Rightarrow>
                let rec = \<lparr>dr_site = Some site, dr_monoNs = mp_monoNs prefix,
                           dr_correlationId = mp_correlationId prefix,
                           dr_ownerThread = rv_ownerThread v,
                           dr_truncated = (rh_flags (rv_head v) AND cFlagTruncated \<noteq> 0),
                           dr_args = args, dr_segmentGeneration = generation,
                           dr_recordOffset = rv_recordOffset v\<rparr>
                in if rh_flags (rv_head v) AND cFlagContinued \<noteq> 0
                   then st\<lparr>ps_pending := Some rec, ps_expecting := True, ps_damaged := False\<rparr>
                   else st\<lparr>ps_result := ps_result st @ [rec]\<rparr>))"

definition passTwo :: "Decoder \<Rightarrow> u64 \<Rightarrow> PassState \<Rightarrow> RecordView \<Rightarrow> PassState" where
  "passTwo dec generation st v =
     (if ps_expecting st then
        if rh_kind (rv_head v) \<noteq> Continuation
        then decodeMessage dec generation (finalizePending (st\<lparr>ps_damaged := True\<rparr>)) v
        else
          let moreFollow = (rh_flags (rv_head v) AND cFlagContinued \<noteq> 0);
              st' = (case ps_pending st of
                       None \<Rightarrow> st
                     | Some rec \<Rightarrow> joinSlice st rec (rv_payload v))
          in if moreFollow then st'\<lparr>ps_expecting := True\<rparr> else finalizePending st'
      else decodeMessage dec generation st v)"

definition startPassTwo :: "Decoder \<Rightarrow> PassState" where
  "startPassTwo dec = \<lparr>ps_result = [], ps_pending = None, ps_expecting = False, ps_damaged = False,
     ps_undecodable = dc_undecodable dec, ps_skipped = dc_skipped dec\<rparr>"

definition endPassTwo :: "PassState \<Rightarrow> PassState" where
  "endPassTwo st = finalizePending (if ps_pending st \<noteq> None then st\<lparr>ps_damaged := True\<rparr> else st)"

definition decodeAll :: "Decoder \<Rightarrow> SegmentReader \<Rightarrow> DecodedRecord list \<times> Decoder" where
  "decodeAll dec0 reader =
     (let vs = fst (visit reader);
          dec = foldl passOne dec0 vs;
          st = endPassTwo (foldl (passTwo dec (sh_generation (sr_header reader))) (startPassTwo dec) vs)
      in (ps_result st, dec\<lparr>dc_undecodable := ps_undecodable st, dc_skipped := ps_skipped st\<rparr>))"

section \<open>Text\<close>

definition bytesOfString :: "string \<Rightarrow> bytes" where
  "bytesOfString s = map (\<lambda>c. word_of_nat (of_char c)) s"

fun appendArgText :: "(u64 \<Rightarrow> bytes) \<Rightarrow> bytes \<Rightarrow> DecodedArg \<Rightarrow> bytes" where
  "appendArgText showDouble out (DBool b) = out @ bytesOfString (if b then ''true'' else ''false'')"
| "appendArgText showDouble out (DChar c) = out @ [c]"
| "appendArgText showDouble out (DString bs) = out @ bs"
| "appendArgText showDouble out (DInt w) =
     out @ bytesOfString (if sint w < 0 then CHR ''-'' # natToChars 10 (nat (- sint w))
                          else natToChars 10 (nat (sint w)))"
| "appendArgText showDouble out (DUint w) = out @ bytesOfString (natToChars 10 (unat w))"
| "appendArgText showDouble out (DDouble w) = out @ showDouble w"

text \<open>The substitution loop; \<open>args\<close> are the arguments from \<open>argIndex\<close> on.  Braces are 123 and 125.\<close>

fun formatLoop :: "(u64 \<Rightarrow> bytes) \<Rightarrow> bytes \<Rightarrow> DecodedArg list \<Rightarrow> bytes \<Rightarrow> bytes" where
  "formatLoop showDouble [] args out = out"
| "formatLoop showDouble [c] args out = out @ [c]"
| "formatLoop showDouble (c # d # fmt) args out =
     (if c = 123 \<and> d = 123 then formatLoop showDouble fmt args (out @ [123])
      else if c = 125 \<and> d = 125 then formatLoop showDouble fmt args (out @ [125])
      else if c = 123 \<and> d = 125 then
        (case args of
           a # as \<Rightarrow> formatLoop showDouble fmt as (appendArgText showDouble out a)
         | [] \<Rightarrow> formatLoop showDouble fmt args (out @ bytesOfString ''{?}''))
      else formatLoop showDouble (d # fmt) args (out @ [c]))"

definition formatRecord :: "(u64 \<Rightarrow> bytes) \<Rightarrow> DecodedRecord \<Rightarrow> bytes" where
  "formatRecord showDouble rec =
     (case dr_site rec of
        None \<Rightarrow> []
      | Some site \<Rightarrow> formatLoop showDouble (ds_format site) (dr_args rec) [])"

section \<open>Arguments read back\<close>

fun decodedArg :: "arg \<Rightarrow> DecodedArg" where
  "decodedArg (ABool b) = DBool b"
| "decodedArg (AChar c) = DChar c"
| "decodedArg (AI8 w) = DInt (scast w)"
| "decodedArg (AI16 w) = DInt (scast w)"
| "decodedArg (AI32 w) = DInt (scast w)"
| "decodedArg (AI64 w) = DInt w"
| "decodedArg (AU8 w) = DUint (ucast w)"
| "decodedArg (AU16 w) = DUint (ucast w)"
| "decodedArg (AU32 w) = DUint (ucast w)"
| "decodedArg (AU64 w) = DUint w"
| "decodedArg (AF32 w) = DDouble (widenFloat w)"
| "decodedArg (AF64 w) = DDouble w"
| "decodedArg (APointer w) = DUint w"
| "decodedArg (ABytes bs) = DString (take (min (length bs) cInlineBytesCap) bs)"
| "decodedArg (ACString p) = DString (take (boundedLength p) (case p of None \<Rightarrow> [] | Some cs \<Rightarrow> cs))"

lemma decodeFixedArg_encoded:
  assumes "\<not> isByteArg a" and "off = length pre"
  shows "decodeFixedArg (typeCodeFor a) off (pre @ encodedArg a @ post) = decodedArg a"
  using assms by (cases a) (simp_all add: loadWord_at [where off = "length pre" and pre = pre] del: wordBytes_byte)

text \<open>A view is stored as its length and its bytes.\<close>

lemma decodeArgs_bytes:
  assumes "length xs \<le> 0xFFFF" and "length pre = off"
  shows "decodeArgs (TcBytes # codes) off (pre @ (wordBytes (word_of_nat (length xs) :: u16) @ xs) @ post) =
    map_option ((#) (DString xs)) (decodeArgs codes (off + 2 + length xs)
      (pre @ (wordBytes (word_of_nat (length xs) :: u16) @ xs) @ post))"
proof -
  let ?p = "pre @ (wordBytes (word_of_nat (length xs) :: u16) @ xs) @ post"
  have "(loadWord off (pre @ wordBytes (word_of_nat (length xs) :: u16) @ xs @ post) :: u16) = word_of_nat (length xs)"
    using assms(2) by (intro loadWord_at) simp_all
  then have l: "unat (loadWord off ?p :: u16) = length xs" using assms(1) by (simp add: unat_of_nat)
  moreover have "take (length xs) (drop (off + 2) ?p) = xs" using assms(2) by simp
  ultimately show ?thesis using assms(2) by (simp add: Let_def)
qed

lemma encodedArg_bytes:
  assumes "isByteArg a"
  obtains xs where "decodedArg a = DString xs" "length xs \<le> 512"
    "encodedArg a = wordBytes (word_of_nat (length xs) :: u16) @ xs"
  using assms
proof (cases a)
  case (ABytes bs)
  then show ?thesis by (intro that [of "take (min (length bs) cInlineBytesCap) bs"]) (simp_all add: cInlineBytesCap_def)
next
  case (ACString p)
  have "boundedLength p \<le> length (case p of None \<Rightarrow> [] | Some cs \<Rightarrow> cs)"
    by (auto simp: boundedLength_def scanLength_le split: option.split)
  with ACString show ?thesis
    using boundedLength_le [of p]
    by (intro that [of "take (boundedLength p) (case p of None \<Rightarrow> [] | Some cs \<Rightarrow> cs)"])
      (simp_all add: cInlineBytesCap_def min_def)
qed simp_all

lemma decodeArgs_encoded:
  "decodeArgs (map typeCodeFor args) (length pre) (pre @ concat (map encodedArg args) @ post)
    = Some (map decodedArg args)"
proof (induction args arbitrary: pre)
  case Nil
  then show ?case by simp
next
  case (Cons a args)
  let ?rest = "concat (map encodedArg args) @ post"
  have ih: "decodeArgs (map typeCodeFor args) (length pre + length (encodedArg a)) (pre @ encodedArg a @ ?rest)
      = Some (map decodedArg args)"
    using Cons [of "pre @ encodedArg a"] by simp
  show ?case
  proof (cases "isByteArg a")
    case True
    then obtain xs where x: "decodedArg a = DString xs" "length xs \<le> 512"
        "encodedArg a = wordBytes (word_of_nat (length xs) :: u16) @ xs"
      by (rule encodedArg_bytes)
    have "typeCodeFor a = TcBytes" using True by (cases a) simp_all
    with x ih show ?thesis
      using decodeArgs_bytes [of xs pre "length pre" "map typeCodeFor args" ?rest] by (simp add: add.assoc)
  next
    case False
    then have e: "encodedArg a = encodeFixedOne a" "typeCodeFor a \<noteq> TcBytes" "0 < fixedWireSize a"
      by (cases a; simp)+
    have f: "fixedSizeOf (typeCodeFor a) = length (encodedArg a)"
      using False by (simp add: e(1) length_encodeFixedOne fixedWireSize_agrees)
    have "0 < length (encodedArg a)" using e by (simp add: length_encodeFixedOne)
    then show ?thesis
      using ih e(2) f decodeFixedArg_encoded [OF False, of "length pre" pre ?rest] by simp
  qed
qed

section \<open>Site table\<close>

definition siteDefOf :: "RecordView \<Rightarrow> DecodedSite option" where
  "siteDefOf v = (if rh_kind (rv_head v) = SiteDefinition then parseSiteDefinition (rv_payload v) else None)"

fun firstSite :: "RecordView list \<Rightarrow> u64 \<Rightarrow> DecodedSite option" where
  "firstSite [] i = None"
| "firstSite (v # vs) i =
     (case siteDefOf v of
        Some site \<Rightarrow> if ds_siteId site = i then Some site else firstSite vs i
      | None \<Rightarrow> firstSite vs i)"

lemma passOne_sites:
  "dc_sites (passOne dec v) = (case siteDefOf v of None \<Rightarrow> dc_sites dec
     | Some site \<Rightarrow> tryEmplace (ds_siteId site) site (dc_sites dec))"
  by (auto simp: passOne_def siteDefOf_def split: RecordKind.splits option.splits)

lemma foldl_passOne_sites:
  "dc_sites (foldl passOne dec vs) i = (case dc_sites dec i of Some s \<Rightarrow> Some s | None \<Rightarrow> firstSite vs i)"
  by (induction vs arbitrary: dec)
    (auto simp: passOne_sites tryEmplace_def split: option.splits)

section \<open>Every message is accounted for\<close>

definition isMessage :: "RecordView \<Rightarrow> bool" where
  "isMessage v \<longleftrightarrow> rh_kind (rv_head v) = Message"

definition badDefinition :: "RecordView \<Rightarrow> bool" where
  "badDefinition v \<longleftrightarrow>
     (rh_kind (rv_head v) = SiteDefinition \<and> parseSiteDefinition (rv_payload v) = None)
     \<or> (rh_kind (rv_head v) = SubsystemDefinition \<and> parseSubsystemDefinition (rv_payload v) = None)"

lemma passOne_undecodable:
  "dc_undecodable (foldl passOne dec vs) = dc_undecodable dec + length (filter badDefinition vs)"
proof (induction vs arbitrary: dec)
  case (Cons v vs)
  have "dc_undecodable (passOne dec v) = dc_undecodable dec + (if badDefinition v then 1 else 0)"
    by (auto simp: passOne_def badDefinition_def split: RecordKind.splits option.splits)
  with Cons show ?case by simp
qed simp

definition pendingCount :: "PassState \<Rightarrow> nat" where
  "pendingCount st = (case ps_pending st of None \<Rightarrow> 0 | Some _ \<Rightarrow> 1)"

definition ledger :: "PassState \<Rightarrow> nat" where
  "ledger st = length (ps_result st) + ps_undecodable st + pendingCount st"

definition chain_ok :: "PassState \<Rightarrow> bool" where
  "chain_ok st \<longleftrightarrow> (ps_expecting st \<longleftrightarrow> ps_pending st \<noteq> None)"

lemmas pass_defs = ledger_def chain_ok_def pendingCount_def

lemma finalizePending_ledger:
  "ledger (finalizePending st) = ledger st" "ps_pending (finalizePending st) = None"
  "chain_ok st \<Longrightarrow> \<not> ps_expecting (finalizePending st)"
  by (auto simp: finalizePending_def pass_defs split: option.splits)

lemma joinSlice_ledger:
  "ps_pending st = Some rec \<Longrightarrow> ledger (joinSlice st rec p) = ledger st"
  "ps_pending st = Some rec \<Longrightarrow> ps_pending (joinSlice st rec p) \<noteq> None"
  by (auto simp: joinSlice_def pass_defs Let_def)

lemma decodeMessage_ledger:
  assumes "\<not> ps_expecting st" and "ps_pending st = None"
  shows "ledger (decodeMessage dec g st v) = ledger st + (if isMessage v then 1 else 0)"
    and "chain_ok (decodeMessage dec g st v)"
  using assms by (auto simp: decodeMessage_def pass_defs isMessage_def Let_def split: option.splits)

lemma damaged_ledger [simp]:
  "ledger (st\<lparr>ps_damaged := b\<rparr>) = ledger st" "chain_ok (st\<lparr>ps_damaged := b\<rparr>) = chain_ok st"
  by (simp_all add: pass_defs)

lemma passTwo_ledger:
  assumes "chain_ok st"
  shows "ledger (passTwo dec g st v) = ledger st + (if isMessage v then 1 else 0) \<and> chain_ok (passTwo dec g st v)"
proof (cases "ps_expecting st")
  case False
  then show ?thesis
    using assms decodeMessage_ledger [of st dec g v] by (simp add: passTwo_def chain_ok_def)
next
  case exp: True
  then obtain rec where rec: "ps_pending st = Some rec" using assms by (auto simp: chain_ok_def)
  show ?thesis
  proof (cases "rh_kind (rv_head v) = Continuation")
    case False
    let ?st = "finalizePending (st\<lparr>ps_damaged := True\<rparr>)"
    have "\<not> ps_expecting ?st" "ps_pending ?st = None" "ledger ?st = ledger st"
      using assms by (simp_all add: finalizePending_ledger)
    with exp False show ?thesis
      using decodeMessage_ledger [of ?st dec g v] by (simp add: passTwo_def)
  next
    case True
    let ?st = "joinSlice st rec (rv_payload v)"
    have nm: "\<not> isMessage v" using True by (simp add: isMessage_def)
    have j: "ledger ?st = ledger st" "ps_pending ?st \<noteq> None" using joinSlice_ledger [OF rec] by simp_all
    then obtain r where r: "ps_pending ?st = Some r" by blast
    have "ledger (?st\<lparr>ps_expecting := True\<rparr>) = ledger st" "chain_ok (?st\<lparr>ps_expecting := True\<rparr>)"
      using j by (simp_all add: pass_defs)
    moreover have "chain_ok (finalizePending ?st)" using r by (simp add: finalizePending_def chain_ok_def)
    ultimately show ?thesis
      using exp True nm rec j by (simp add: passTwo_def Let_def finalizePending_ledger)
  qed
qed

lemma foldl_passTwo_ledger:
  "chain_ok st \<Longrightarrow> ledger (foldl (passTwo dec g) st vs) = ledger st + length (filter isMessage vs)
    \<and> chain_ok (foldl (passTwo dec g) st vs)"
proof (induction vs arbitrary: st)
  case (Cons v vs)
  then show ?case using passTwo_ledger [of st dec g v] Cons.IH [of "passTwo dec g st v"] by simp
qed simp

lemma endPassTwo_ledger:
  "length (ps_result (endPassTwo st)) + ps_undecodable (endPassTwo st) = ledger st"
  by (auto simp: endPassTwo_def finalizePending_def pass_defs split: option.splits)

lemma decodeAll_ledger:
  assumes "decodeAll dec reader = (rs, dec')" and "vs = fst (visit reader)"
  shows "length rs + dc_undecodable dec' =
    dc_undecodable dec + length (filter badDefinition vs) + length (filter isMessage vs)"
proof -
  let ?dec = "foldl passOne dec vs" and ?g = "sh_generation (sr_header reader)"
  let ?st = "foldl (passTwo ?dec ?g) (startPassTwo ?dec) vs"
  have "chain_ok (startPassTwo ?dec)" "ledger (startPassTwo ?dec) = dc_undecodable ?dec"
    by (simp_all add: startPassTwo_def pass_defs)
  then have "ledger ?st = dc_undecodable ?dec + length (filter isMessage vs)"
    using foldl_passTwo_ledger [of "startPassTwo ?dec" ?dec ?g vs] by simp
  then show ?thesis
    using assms endPassTwo_ledger [of ?st] by (auto simp: decodeAll_def Let_def passOne_undecodable)
qed

section \<open>Chains joined\<close>

text \<open>A chain's slices, each with the argument it extends, in stream order.\<close>

fun joinAll :: "DecodedArg list \<Rightarrow> (nat \<times> bytes) list \<Rightarrow> DecodedArg list" where
  "joinAll as [] = as"
| "joinAll as ((i, xs) # ss) = joinAll (as[i := DString (argBytes (as ! i) @ xs)]) ss"

text \<open>The views of a chain: a Continuation per slice, every one but the last promising more.\<close>

definition chainOf :: "u64 \<Rightarrow> (nat \<times> bytes) list \<Rightarrow> RecordView list \<Rightarrow> bool" where
  "chainOf sid ss vs \<longleftrightarrow>
     length vs = length ss
     \<and> (\<forall>j < length ss. rh_kind (rv_head (vs ! j)) = Continuation
          \<and> rv_payload (vs ! j) = slicePayload sid (ss ! j)
          \<and> (rh_flags (rv_head (vs ! j)) AND cFlagContinued \<noteq> 0 \<longleftrightarrow> Suc j < length ss))"

lemma chainOf_Cons:
  "chainOf sid (s # ss) (v # vs) \<longleftrightarrow>
     rh_kind (rv_head v) = Continuation \<and> rv_payload v = slicePayload sid s
     \<and> (rh_flags (rv_head v) AND cFlagContinued \<noteq> 0 \<longleftrightarrow> ss \<noteq> []) \<and> chainOf sid ss vs"
  by (auto simp: chainOf_def less_Suc_eq_0_disj)

lemma joinSlice_valid:
  assumes "ps_pending st = Some rec" and "\<not> ps_damaged st" and "dr_site rec = Some site"
    and "i < length (dr_args rec)" and "i < length (ds_argTypes site)" and "ds_argTypes site ! i = TcBytes"
    and "i < 256"
  shows "joinSlice st rec (slicePayload sid (i, xs)) =
    st\<lparr>ps_pending := Some (rec\<lparr>dr_args := joinAll (dr_args rec) [(i, xs)]\<rparr>)\<rparr>"
proof -
  let ?p = "slicePayload sid (i, xs)"
  have "cp_argIndex (ContinuationPayload_load ?p) = word_of_nat i"
    by (simp add: slicePayload_def ContinuationPayload_load_bytes)
  then have i: "unat (cp_argIndex (ContinuationPayload_load ?p)) = i"
    using assms(7) by (simp add: unat_of_nat)
  have d: "drop cContinuationPayloadSize ?p = xs" "\<not> length ?p < cContinuationPayloadSize"
    by (simp_all add: slicePayload_def struct_sizes)
  show ?thesis unfolding joinSlice_def Let_def i d using assms by (simp add: d)
qed

lemma passTwo_chain:
  assumes "chainOf sid ss vs" and "ss \<noteq> []"
    and "ps_pending st = Some rec" and "ps_expecting st" and "\<not> ps_damaged st" and "dr_site rec = Some site"
    and "length (dr_args rec) = length (ds_argTypes site)"
    and "\<forall>(i, xs) \<in> set ss. i < length (ds_argTypes site) \<and> ds_argTypes site ! i = TcBytes \<and> i < 256"
  shows "foldl (passTwo dec g) st vs =
    st\<lparr>ps_result := ps_result st @ [rec\<lparr>dr_args := joinAll (dr_args rec) ss\<rparr>],
       ps_pending := None, ps_expecting := False, ps_damaged := False\<rparr>"
  using assms
proof (induction ss arbitrary: vs st rec)
  case Nil
  then show ?case by simp
next
  case (Cons s ss)
  obtain i xs where s: "s = (i, xs)" by (cases s)
  obtain v vs' where vs: "vs = v # vs'" using Cons.prems(1) by (cases vs) (auto simp: chainOf_def)
  have v: "rh_kind (rv_head v) = Continuation" "rv_payload v = slicePayload sid s"
    "(rh_flags (rv_head v) AND cFlagContinued \<noteq> 0) = (ss \<noteq> [])" "chainOf sid ss vs'"
    using Cons.prems(1) by (auto simp: vs chainOf_Cons)
  let ?rec = "rec\<lparr>dr_args := joinAll (dr_args rec) [(i, xs)]\<rparr>"
  have j: "joinSlice st rec (rv_payload v) = st\<lparr>ps_pending := Some ?rec\<rparr>"
    unfolding v(2) s using Cons.prems s by (intro joinSlice_valid [where site = site]) auto
  have step: "passTwo dec g st v =
      (if ss \<noteq> [] then st\<lparr>ps_pending := Some ?rec, ps_expecting := True\<rparr>
       else finalizePending (st\<lparr>ps_pending := Some ?rec\<rparr>))"
    using Cons.prems v j by (simp add: passTwo_def Let_def)
  show ?case
  proof (cases "ss = []")
    case True
    then have "vs' = []" using v(4) by (simp add: chainOf_def)
    with True show ?thesis
      using Cons.prems(5) by (simp add: vs step s finalizePending_def)
  next
    case False
    have "foldl (passTwo dec g) (st\<lparr>ps_pending := Some ?rec, ps_expecting := True\<rparr>) vs' =
      st\<lparr>ps_pending := Some ?rec, ps_expecting := True\<rparr>
        \<lparr>ps_result := ps_result st @ [?rec\<lparr>dr_args := joinAll (dr_args ?rec) ss\<rparr>],
         ps_pending := None, ps_expecting := False, ps_damaged := False\<rparr>"
      using Cons.prems v(4) False
      by (subst Cons.IH [where rec = ?rec]) (auto simp: s)
    with False show ?thesis by (simp add: vs step s)
  qed
qed

section \<open>Text substituted\<close>

text \<open>A format string as its author means it: a byte of text, braces escaped, or a placeholder.\<close>

datatype piece = Lit u8 | Hole

fun unparse :: "piece \<Rightarrow> bytes" where
  "unparse (Lit c) = (if c = 123 \<or> c = 125 then [c, c] else [c])"
| "unparse Hole = [123, 125]"

fun render :: "(u64 \<Rightarrow> bytes) \<Rightarrow> piece list \<Rightarrow> DecodedArg list \<Rightarrow> bytes" where
  "render showDouble [] args = []"
| "render showDouble (Lit c # ps) args = c # render showDouble ps args"
| "render showDouble (Hole # ps) [] = bytesOfString ''{?}'' @ render showDouble ps []"
| "render showDouble (Hole # ps) (a # args) = appendArgText showDouble [] a @ render showDouble ps args"

lemma appendArgText_append: "appendArgText showDouble out a = out @ appendArgText showDouble [] a"
  by (cases a) simp_all

lemma formatLoop_plain:
  "c \<noteq> 123 \<Longrightarrow> c \<noteq> 125 \<Longrightarrow> formatLoop showDouble (c # fmt) args out = formatLoop showDouble fmt args (out @ [c])"
  by (cases fmt) simp_all

lemma formatLoop_render:
  "formatLoop showDouble (concat (map unparse ps)) args out = out @ render showDouble ps args"
proof (induction showDouble ps args arbitrary: out rule: render.induct)
  case (2 showDouble c ps args)
  then show ?case by (auto simp: formatLoop_plain)
next
  case (4 showDouble ps a args)
  then show ?case using appendArgText_append [of showDouble out a] by simp
qed simp_all

section \<open>Decoded records are typed\<close>

text \<open>The variant alternative that goes with a type code.\<close>

fun argTyped :: "TypeCode \<Rightarrow> DecodedArg \<Rightarrow> bool" where
  "argTyped code (DBool b) \<longleftrightarrow> code = TcBool"
| "argTyped code (DChar c) \<longleftrightarrow> code = TcChar"
| "argTyped code (DInt w) \<longleftrightarrow> code \<in> {TcI8, TcI16, TcI32, TcI64}"
| "argTyped code (DUint w) \<longleftrightarrow> code \<in> {TcU8, TcU16, TcU32, TcU64, TcPointer}"
| "argTyped code (DDouble w) \<longleftrightarrow> code \<in> {TcF32, TcF64}"
| "argTyped code (DString bs) \<longleftrightarrow> code = TcBytes"

definition recTyped :: "DecodedRecord \<Rightarrow> bool" where
  "recTyped rec \<longleftrightarrow> (\<exists>site. dr_site rec = Some site \<and> list_all2 argTyped (ds_argTypes site) (dr_args rec))"

lemma decodeFixedArg_typed: "0 < fixedSizeOf code \<Longrightarrow> argTyped code (decodeFixedArg code off p)"
  by (cases code) simp_all

lemma decodeArgs_typed: "decodeArgs codes off p = Some args \<Longrightarrow> list_all2 argTyped codes args"
proof (induction codes off p arbitrary: args rule: decodeArgs.induct)
  case (2 code codes off p)
  then show ?case
    by (cases "code = TcBytes") (auto simp: Let_def intro!: decodeFixedArg_typed split: if_splits)
qed simp

definition stateTyped :: "PassState \<Rightarrow> bool" where
  "stateTyped st \<longleftrightarrow> (\<forall>rec \<in> set (ps_result st). recTyped rec) \<and> (\<forall>rec. ps_pending st = Some rec \<longrightarrow> recTyped rec)"

lemma finalizePending_typed: "stateTyped st \<Longrightarrow> stateTyped (finalizePending (st\<lparr>ps_damaged := b\<rparr>))"
  by (auto simp: stateTyped_def finalizePending_def split: option.splits)

lemma joinSlice_typed:
  assumes "stateTyped st" and "ps_pending st = Some rec"
  shows "stateTyped (joinSlice st rec p)"
proof -
  obtain site where site: "dr_site rec = Some site" "list_all2 argTyped (ds_argTypes site) (dr_args rec)"
    using assms by (auto simp: stateTyped_def recTyped_def)
  then have "recTyped (rec\<lparr>dr_args := (dr_args rec)[i := DString bs]\<rparr>)"
    if "i < length (ds_argTypes site)" "ds_argTypes site ! i = TcBytes" for i bs
    using that by (auto simp: recTyped_def list_all2_conv_all_nth nth_list_update)
  then show ?thesis
    using assms site(1) by (auto simp: joinSlice_def Let_def stateTyped_def)
qed

lemma decodeMessage_typed: "stateTyped st \<Longrightarrow> stateTyped (decodeMessage dec g st v)"
  by (auto simp: decodeMessage_def Let_def stateTyped_def recTyped_def dest: decodeArgs_typed split: option.splits)

lemma passTwo_typed: "stateTyped st \<Longrightarrow> stateTyped (passTwo dec g st v)"
proof -
  assume st: "stateTyped st"
  have "stateTyped (finalizePending st')" if "stateTyped st'" for st'
    using finalizePending_typed [OF that, of "ps_damaged st'"] by simp
  moreover have "stateTyped (st'\<lparr>ps_expecting := b\<rparr>)" if "stateTyped st'" for st' b
    using that by (simp add: stateTyped_def)
  ultimately show ?thesis
    using st decodeMessage_typed finalizePending_typed joinSlice_typed [OF st]
    by (auto simp: passTwo_def Let_def split: option.split)
qed

lemma decodeAll_typed: "rec \<in> set (fst (decodeAll dec reader)) \<Longrightarrow> recTyped rec"
proof -
  have "stateTyped (foldl (passTwo d g) st vs)" if "stateTyped st" for d g st vs
    using that by (induction vs arbitrary: st) (simp_all add: passTwo_typed)
  moreover have "stateTyped (startPassTwo d)" for d by (simp add: stateTyped_def startPassTwo_def)
  moreover have "stateTyped (endPassTwo st)" if "stateTyped st" for st
    using finalizePending_typed [OF that, of "ps_damaged st"] finalizePending_typed [OF that, of True]
    by (simp add: endPassTwo_def)
  moreover assume "rec \<in> set (fst (decodeAll dec reader))"
  ultimately show ?thesis by (simp add: decodeAll_def Let_def) (metis stateTyped_def)
qed

section \<open>Properties\<close>

text \<open>
  Arguments survive the wire: what the encoder writes for an argument pack, wherever
  the payload places it, the decoder reads back as the values the call site passed, each
  with the type the producer had; integers keep their sign and width, a \<open>float\<close> is widened
  exactly, views are cut at the inline cap.
\<close>

theorem args_roundtrip:
  "decodeArgs (map typeCodeFor args) (length pre) (pre @ fst (encodeArgs (upperBoundSize args) args) @ post)
    = Some (map decodedArg args)"
  by (simp add: encodeArgs_fits decodeArgs_encoded)

text \<open>
  C26. The decoder accounts for every record: on any image, each Message the reader visits
  becomes one decoded record or is counted undecodable, whatever chains are open, broken or
  cut off, and each malformed definition is counted too.
\<close>

theorem decode_accounts_for_messages:
  "length (fst (decodeAll dec reader)) + dc_undecodable (snd (decodeAll dec reader))
    = dc_undecodable dec + length (filter badDefinition (fst (visit reader)))
      + length (filter isMessage (fst (visit reader)))"
  by (rule decodeAll_ledger [OF prod.collapse [symmetric] refl])

text \<open>
  C11. The site table holds, for each site id, the first well-formed definition of the
  segment, whatever chunk it sits in and whatever duplicates follow, and a site the decoder
  already knew is not replaced.
\<close>

theorem first_definition_wins:
  "siteFor (snd (decodeAll dec reader)) i
    = (case dc_sites dec i of Some site \<Rightarrow> Some site | None \<Rightarrow> firstSite (fst (visit reader)) i)"
  by (simp add: decodeAll_def Let_def siteFor_def foldl_passOne_sites)

text \<open>
  C27. Rendering a record substitutes exactly: with a format made of text, doubled braces
  and placeholders, each placeholder becomes the next argument's text, or \<open>{?}\<close> once the
  arguments are used up, and everything else is copied.
\<close>

theorem format_substitutes:
  "formatRecord showDouble (rec\<lparr>dr_site := Some (site\<lparr>ds_format := concat (map unparse ps)\<rparr>)\<rparr>)
    = render showDouble ps (dr_args rec)"
  by (simp add: formatRecord_def formatLoop_render)

text \<open>
  C12. Type safety of decoding: every record the decoder hands out, from any image, names
  a site, carries one argument per type code of that site, and each argument is the variant
  alternative that goes with its code, so a consumer's access by the declared type never
  meets another alternative.
\<close>

theorem decoded_records_typed:
  "list_all recTyped (fst (decodeAll dec reader))"
  by (auto simp: list_all_iff intro: decodeAll_typed)

end
