(* ===== verification/Segment.thy ===== *)
theory Segment
  imports Platform Reader
begin

text \<open>
  \<^verbatim>\<open>include/sub0log/segment.hpp\<close>: creating a segment over a file or over caller memory and
  claiming its chunks.  \<open>bytes_\<close> is the image itself, present only when the segment is
  valid; the file mapping survives as the error it reports.  \<open>SegmentEnv\<close> holds what
  the functions read from the platform.  The second half states the segment invariant,
  an equation between the image and a list of claimed chunks with their record lists,
  and shows what a reader of such an image visits.
\<close>

section \<open>State\<close>

record SegmentOptions =
  so_segmentBytes :: u64
  so_chunkBytes :: u32

record Segment =
  sg_valid :: bool
  sg_bytes :: bytes
  sg_mappingError :: PlatformError
  sg_geometryError :: PlatformError
  sg_path :: string
  sg_generation :: u64
  sg_announceKey :: u32
  sg_headerBytes :: u32
  sg_chunkBytes :: u32
  sg_chunkCount :: u32
  sg_sizeClass :: u8

definition emptySegment :: Segment where
  "emptySegment = \<lparr>sg_valid = False, sg_bytes = [], sg_mappingError = noError,
     sg_geometryError = noError, sg_path = [], sg_generation = 0, sg_announceKey = 0,
     sg_headerBytes = 0, sg_chunkBytes = 0, sg_chunkCount = 0, sg_sizeClass = 0\<rparr>"

text \<open>The readings of one call of \<open>initialise\<close>.\<close>

record SegmentEnv =
  se_monoNs :: u64
  se_wallNs :: u64
  se_processId :: u64

definition sg_error :: "Segment \<Rightarrow> PlatformError" where
  "sg_error s = (if hasError (sg_geometryError s) then sg_geometryError s else sg_mappingError s)"

definition announceKey :: "bool \<Rightarrow> Segment \<Rightarrow> u64" where
  "announceKey split s = (if split then ucast (sg_announceKey s) else sg_generation s)"

definition chunkCount :: "Segment \<Rightarrow> nat" where
  "chunkCount s = (if sg_valid s then unat (sg_chunkCount s) else 0)"

text \<open>
  The move constructor: the new object and what is left of the old one (a moved-from
  \<open>std::string\<close> is taken to be empty, as every implementation leaves it).
\<close>

definition moveSegment :: "Segment \<Rightarrow> Segment \<times> Segment" where
  "moveSegment other = (other, other\<lparr>sg_valid := False, sg_bytes := [], sg_path := []\<rparr>)"

section \<open>Creation\<close>

definition cMinChunkBytes :: nat where
  "cMinChunkBytes = cChunkHeaderSize + 2 * cRecordAlign"

definition badChunkBytes :: PlatformError where
  "badChunkBytes = \<lparr>pe_code = 0, pe_what = ''Segment::create: chunkBytes must be 8-aligned and larger than a chunk header''\<rparr>"

definition badStorageAlign :: PlatformError where
  "badStorageAlign = \<lparr>pe_code = 0, pe_what = ''Segment::createInMemory: storage must be non-null and 8-aligned''\<rparr>"

definition badStorageSize :: PlatformError where
  "badStorageSize = \<lparr>pe_code = 0, pe_what = ''Segment::createInMemory: storage is smaller than the header plus one chunk''\<rparr>"

definition validateChunkBytes :: "u32 \<Rightarrow> PlatformError" where
  "validateChunkBytes chunkBytes =
     (if unat chunkBytes < cMinChunkBytes \<or> unat chunkBytes mod cRecordAlign \<noteq> 0
      then badChunkBytes
      else noError)"

text \<open>The split path's static counter \<open>sNextAnnounceKey\<close>: the key drawn and the counter after.\<close>

definition drawAnnounceKey :: "u32 \<Rightarrow> u64 \<Rightarrow> u32 \<times> u32" where
  "drawAnnounceKey counter generation =
     (let seeded = (if counter = 0 then ucast generation OR 1 else counter);
          key = seeded
      in if key = 0 then (seeded + 1, seeded + 2) else (key, seeded + 1))"

definition headerOf :: "SegmentEnv \<Rightarrow> nat \<Rightarrow> u32 \<Rightarrow> u32 \<Rightarrow> u64 \<Rightarrow> SegmentHeader" where
  "headerOf env len headerBytes chunkBytes generation =
     \<lparr>sh_magic = cMagic, sh_formatVersion = cFormatVersion, sh_reserved0 = 0,
      sh_headerBytes = headerBytes, sh_chunkBytes = chunkBytes, sh_reserved1 = 0,
      sh_segmentBytes = word_of_nat len, sh_generation = generation,
      sh_processId = se_processId env, sh_anchorMonoNs = se_monoNs env,
      sh_anchorWallNs = se_wallNs env\<rparr>"

definition initialise ::
  "bool \<Rightarrow> SegmentEnv \<Rightarrow> u32 \<Rightarrow> Segment \<Rightarrow> bytes \<Rightarrow> u32 \<Rightarrow> u32 \<Rightarrow> u64 \<Rightarrow> Segment \<times> u32" where
  "initialise split env keys s bs headerBytes chunkBytes generation =
     (let segmentBytes = length bs;
          bs1 = store bs 0 (SegmentHeader_bytes (headerOf env segmentBytes headerBytes chunkBytes generation));
          bs2 = store bs1 cNextChunkOffset (wordBytes (0 :: u64));
          (key, keys') = (if split then drawAnnounceKey keys generation else (sg_announceKey s, keys))
      in (s\<lparr>sg_valid := True, sg_bytes := bs2, sg_generation := generation,
            sg_headerBytes := headerBytes, sg_announceKey := key, sg_chunkBytes := chunkBytes,
            sg_chunkCount := (if unat headerBytes < segmentBytes
                              then word_of_nat ((segmentBytes - unat headerBytes) div unat chunkBytes)
                              else 0),
            sg_sizeClass := (case sizeClassForChunkBytes chunkBytes of None \<Rightarrow> 0 | Some c \<Rightarrow> c)\<rparr>,
          keys'))"

text \<open>
  The caller's storage is an address and its contents; an address of 0 is a null span.
  The second component of the result is the announce-key counter.
\<close>

definition createInMemory ::
  "bool \<Rightarrow> SegmentEnv \<Rightarrow> u64 \<Rightarrow> u32 \<Rightarrow> nat \<Rightarrow> bytes \<Rightarrow> SegmentOptions \<Rightarrow> Segment \<times> u32" where
  "createInMemory split env generation keys address storage options =
     (let bad = validateChunkBytes (so_chunkBytes options)
      in if hasError bad then (emptySegment\<lparr>sg_geometryError := bad\<rparr>, keys)
      else if address = 0 \<or> address mod cRecordAlign \<noteq> 0
      then (emptySegment\<lparr>sg_geometryError := badStorageAlign\<rparr>, keys)
      else if length storage < cCompactSegmentHeaderBytes + unat (so_chunkBytes options)
      then (emptySegment\<lparr>sg_geometryError := badStorageSize\<rparr>, keys)
      else initialise split env keys emptySegment (replicate (length storage) 0)
             (word_of_nat cCompactSegmentHeaderBytes) (so_chunkBytes options) generation)"

definition segmentPath :: "string \<Rightarrow> string \<Rightarrow> u64 \<Rightarrow> u64 \<Rightarrow> string" where
  "segmentPath directory stem pid generation =
     (if directory \<noteq> [] \<and> last directory \<noteq> CHR ''/'' then directory @ ''/'' else directory)
     @ stem @ ''-'' @ natToChars 10 (unat pid) @ ''-'' @ natToChars 16 (unat generation) @ ''.s0l''"

definition createSegment ::
  "(string \<Rightarrow> u64 \<Rightarrow> PlatformError + bytes) \<Rightarrow> bool \<Rightarrow> SegmentEnv \<Rightarrow> u64 \<Rightarrow> u32 \<Rightarrow> string \<Rightarrow> string
    \<Rightarrow> SegmentOptions \<Rightarrow> Segment \<times> u32" where
  "createSegment mapFile split env generation keys directory stem options =
     (let path = segmentPath directory stem (se_processId env) generation;
          bad = validateChunkBytes (so_chunkBytes options)
      in if hasError bad then (emptySegment\<lparr>sg_geometryError := bad\<rparr>, keys)
      else case mapFile path (so_segmentBytes options) of
        Inl e \<Rightarrow> (emptySegment\<lparr>sg_path := path, sg_mappingError := e\<rparr>, keys)
      | Inr bs \<Rightarrow> initialise split env keys (emptySegment\<lparr>sg_path := path\<rparr>) bs
                    (word_of_nat cSegmentHeaderBytes) (so_chunkBytes options) generation)"

section \<open>Claiming\<close>

definition claimedChunks :: "bool \<Rightarrow> Segment \<Rightarrow> nat" where
  "claimedChunks split s =
     (if \<not> sg_valid s then 0
      else loadClaimedChunks split cNextChunkOffset (unat (sg_chunkCount s)) (sg_bytes s))"

definition stampedHeader :: "Segment \<Rightarrow> u64 \<Rightarrow> u64 \<Rightarrow> ChunkHeader" where
  "stampedHeader s thread now =
     \<lparr>ch_generation = sg_generation s, ch_ownerThread = thread, ch_claimMonoNs = now,
      ch_headerChecksum =
        computeChunkHeaderChecksum (sg_generation s) thread now (sg_sizeClass s),
      ch_chunkSizeClass = sg_sizeClass s\<rparr>"

definition claimChunk :: "bool \<Rightarrow> u64 \<Rightarrow> u64 \<Rightarrow> Segment \<Rightarrow> ChunkWriter \<times> Segment" where
  "claimChunk split thread now s =
     (if \<not> sg_valid s then (noWriter, s)
      else
        let (index, bs1) = claimChunkIndex split cNextChunkOffset (unat (sg_chunkCount s)) (sg_bytes s)
        in if unat (sg_chunkCount s) \<le> index then (noWriter, s\<lparr>sg_bytes := bs1\<rparr>)
           else
             let chunkBase = unat (sg_headerBytes s) + index * unat (sg_chunkBytes s);
                 bs2 = store bs1 chunkBase (ChunkHeader_bytes (stampedHeader s thread now))
             in (newWriter (chunkBase + cChunkHeaderSize) (unat (sg_chunkBytes s) - cChunkHeaderSize),
                 s\<lparr>sg_bytes := bs2\<rparr>))"

section \<open>The segment as a list of chunk logs\<close>

text \<open>A claimed chunk: its stamped header and the records committed into it.\<close>

type_synonym chunklog = "ChunkHeader \<times> logrec list"

definition chunkImage :: "nat \<Rightarrow> chunklog \<Rightarrow> bytes" where
  "chunkImage cb c = ChunkHeader_bytes (fst c) @ chunkBody (cb - 32) (snd c)"

definition chunk_ok :: "Segment \<Rightarrow> chunklog \<Rightarrow> bool" where
  "chunk_ok s c \<longleftrightarrow>
     fst c = stampedHeader s (ch_ownerThread (fst c)) (ch_claimMonoNs (fst c))
     \<and> length (frames (snd c)) \<le> unat (sg_chunkBytes s) - 32
     \<and> (\<forall>r \<in> set (snd c). rec_ok r)"

definition cursorRoom :: "bool \<Rightarrow> bytes \<Rightarrow> nat \<Rightarrow> nat \<Rightarrow> bool" where
  "cursorRoom split bs n k \<longleftrightarrow>
     (if split then roomSplit cNextChunkOffset bs n k else roomWide cNextChunkOffset bs n k)"

text \<open>The fields of a segment that no operation after creation changes.\<close>

definition seg_geometry :: "Segment \<Rightarrow> bool" where
  "seg_geometry s \<longleftrightarrow>
     sg_valid s \<and> sg_generation s \<noteq> 0
     \<and> 48 \<le> unat (sg_chunkBytes s) \<and> 8 dvd unat (sg_chunkBytes s)
     \<and> 136 \<le> unat (sg_headerBytes s) \<and> unat (sg_headerBytes s) \<le> length (sg_bytes s)
     \<and> sg_sizeClass s = (case sizeClassForChunkBytes (sg_chunkBytes s) of None \<Rightarrow> 0 | Some c \<Rightarrow> c)
     \<and> length (sg_bytes s) < 2 ^ 64
     \<and> unat (sg_chunkCount s) * unat (sg_chunkBytes s) \<le> length (sg_bytes s) - unat (sg_headerBytes s)
     \<and> (let h = SegmentHeader_load (sg_bytes s)
        in sh_magic h = cMagic \<and> sh_formatVersion h = cFormatVersion
           \<and> sh_headerBytes h = sg_headerBytes s \<and> sh_chunkBytes h = sg_chunkBytes s
           \<and> sh_segmentBytes h = word_of_nat (length (sg_bytes s)) \<and> sh_generation h = sg_generation s)"

text \<open>
  \<open>seg_inv split k s cs\<close>: the image is the header area, the claimed chunks \<open>cs\<close> in index
  order, and zeros; the cursor counts them and has room for \<open>k\<close> more claims, refused
  ones included, before its 64 bits wrap.
\<close>

definition seg_inv :: "bool \<Rightarrow> nat \<Rightarrow> Segment \<Rightarrow> chunklog list \<Rightarrow> bool" where
  "seg_inv split k s cs \<longleftrightarrow>
     seg_geometry s \<and> length cs \<le> unat (sg_chunkCount s) \<and> (\<forall>c \<in> set cs. chunk_ok s c)
     \<and> claimedChunks split s = length cs
     \<and> cursorRoom split (sg_bytes s) (unat (sg_chunkCount s)) k
     \<and> drop (unat (sg_headerBytes s)) (sg_bytes s) =
         concat (map (chunkImage (unat (sg_chunkBytes s))) cs)
         @ replicate (length (sg_bytes s) - unat (sg_headerBytes s) - length cs * unat (sg_chunkBytes s)) 0"

lemma length_chunkImage:
  "chunk_ok s c \<Longrightarrow> 48 \<le> unat (sg_chunkBytes s) \<Longrightarrow>
    length (chunkImage (unat (sg_chunkBytes s)) c) = unat (sg_chunkBytes s)"
  by (auto simp: chunkImage_def chunkBody_def chunk_ok_def)

lemma length_chunkImages:
  "\<forall>c \<in> set cs. chunk_ok s c \<Longrightarrow> 48 \<le> unat (sg_chunkBytes s) \<Longrightarrow>
    length (concat (map (chunkImage (unat (sg_chunkBytes s))) cs)) = length cs * unat (sg_chunkBytes s)"
  by (induction cs) (auto simp: length_chunkImage)

lemma unat_u32_lt: "unat (w :: u32) < 4294967296"
  using unsigned_less [of w] by simp

section \<open>Creation establishes the invariant\<close>

lemma initialise_inv:
  assumes init: "initialise split env keys s0 (replicate len 0) headerBytes chunkBytes generation = (s, keys')"
    and hb: "136 \<le> unat headerBytes" "unat headerBytes \<le> len" "len < 2 ^ 64"
    and cb: "48 \<le> unat chunkBytes" "8 dvd unat chunkBytes"
    and gen: "generation \<noteq> 0"
  shows "seg_inv split (2 ^ 64 - 1) s []"
    and "length (sg_bytes s) = len" and "sg_headerBytes s = headerBytes" and "sg_chunkBytes s = chunkBytes"
proof -
  let ?h = "headerOf env len headerBytes chunkBytes generation"
  let ?img = "SegmentHeader_bytes ?h @ replicate (len - 64) 0"
  have b1: "store (replicate len 0) 0 (SegmentHeader_bytes ?h) = ?img"
    by (simp add: store_def)
  have z8: "replicate 8 0 = (wordBytes (0 :: u64))" by (simp add: wordBytes_0)
  have "replicate (len - 64) 0 = replicate 64 0 @ replicate 8 0 @ (replicate (len - 136) 0 :: bytes)"
    using hb by (simp add: replicate_add [symmetric])
  then have img: "?img = (SegmentHeader_bytes ?h @ replicate 64 0) @ replicate 8 0 @ replicate (len - 136) 0"
    by simp
  have b2: "store ?img cNextChunkOffset (wordBytes (0 :: u64)) = ?img"
    unfolding img z8 [symmetric] by (subst store_append) (simp_all add: wire_consts)
  have f: "sg_valid s" "sg_bytes s = ?img" "sg_generation s = generation" "sg_headerBytes s = headerBytes"
    "sg_chunkBytes s = chunkBytes"
    "sg_chunkCount s = (if unat headerBytes < len
        then word_of_nat ((len - unat headerBytes) div unat chunkBytes) else 0)"
    "sg_sizeClass s = (case sizeClassForChunkBytes chunkBytes of None \<Rightarrow> 0 | Some c \<Rightarrow> c)"
    using init by (auto simp: initialise_def Let_def b1 b2 split: prod.splits)
  show "sg_headerBytes s = headerBytes" and "sg_chunkBytes s = chunkBytes" by (fact f)+
  show len: "length (sg_bytes s) = len" using hb by (simp add: f(2))
  have "unat (word_of_nat ((len - unat headerBytes) div unat chunkBytes) :: u32) * unat chunkBytes
      \<le> (len - unat headerBytes) div unat chunkBytes * unat chunkBytes"
    by (simp add: unat_of_nat)
  also have "\<dots> \<le> len - unat headerBytes" by simp
  finally have cnt: "unat (sg_chunkCount s) * unat chunkBytes \<le> len - unat headerBytes"
    by (simp add: f(6))
  have head: "SegmentHeader_load (sg_bytes s) = ?h"
    by (simp only: f(2) SegmentHeader_load_bytes)
  have geo: "seg_geometry s"
    unfolding seg_geometry_def head Let_def using hb cb gen cnt len f
    by (simp add: headerOf_def)
  have cur: "(loadWord cNextChunkOffset (sg_bytes s) :: u64) = 0" "(loadWord cNextChunkOffset (sg_bytes s) :: u32) = 0"
    unfolding f(2) by (simp_all add: loadWord_append_right wire_consts loadWord_zeros)
  have d: "drop (unat headerBytes) ?img = replicate (len - unat headerBytes) 0"
    using hb by simp
  have c: "claimedChunks split s = 0" by (simp add: claimedChunks_def loadClaimedChunks_def cur)
  have r: "cursorRoom split (sg_bytes s) (unat (sg_chunkCount s)) (2 ^ 64 - 1)"
    using hb unat_u32_lt [of "sg_chunkCount s"] cur
    by (simp add: cursorRoom_def roomSplit_def roomWide_def len cNextChunkOffset_def)
  show "seg_inv split (2 ^ 64 - 1) s []"
    unfolding seg_inv_def using geo c r d by (simp only: f(2,4) len [unfolded f(2)]) simp
qed


section \<open>What the header area determines\<close>

lemma loadWord_cong:
  "take n bs = take n bs' \<Longrightarrow> off + LENGTH('a) div 8 \<le> n \<Longrightarrow> (loadWord off bs :: 'a::len word) = loadWord off bs'"
  by (metis loadWord_take)

lemma SegmentHeader_load_cong:
  assumes "take 64 bs = take 64 bs'"
  shows "SegmentHeader_load bs = SegmentHeader_load bs'"
proof -
  have w: "(loadWord off bs :: u64) = loadWord off bs'" if "off + 8 \<le> 64" for off
    using assms that by (intro loadWord_cong [of 64]) auto
  have d: "(loadWord off bs :: u32) = loadWord off bs'" if "off + 4 \<le> 64" for off
    using assms that by (intro loadWord_cong [of 64]) auto
  have h: "(loadWord off bs :: u16) = loadWord off bs'" if "off + 2 \<le> 64" for off
    using assms that by (intro loadWord_cong [of 64]) auto
  show ?thesis by (simp add: SegmentHeader_load_def w d h)
qed

lemma seg_geometry_update:
  assumes "seg_geometry s" and "length bs = length (sg_bytes s)" and "take 64 bs = take 64 (sg_bytes s)"
  shows "seg_geometry (s\<lparr>sg_bytes := bs\<rparr>)"
  using assms SegmentHeader_load_cong [OF assms(3)] by (simp add: seg_geometry_def)

lemma chunk_ok_update [simp]: "chunk_ok (s\<lparr>sg_bytes := bs\<rparr>) c \<longleftrightarrow> chunk_ok s c"
  by (simp add: chunk_ok_def stampedHeader_def)

lemma cursor_cong:
  assumes "take 136 bs = take 136 bs'" and "length bs = length bs'"
  shows "loadClaimedChunks split cNextChunkOffset n bs = loadClaimedChunks split cNextChunkOffset n bs'"
    and "cursorRoom split bs n k = cursorRoom split bs' n k"
proof -
  have "(loadWord 128 bs :: u64) = loadWord 128 bs'" "(loadWord 128 bs :: u32) = loadWord 128 bs'"
    using assms(1) by (auto intro!: loadWord_cong [of 136])
  then show "loadClaimedChunks split cNextChunkOffset n bs = loadClaimedChunks split cNextChunkOffset n bs'"
    and "cursorRoom split bs n k = cursorRoom split bs' n k"
    using assms(2) by (simp_all add: loadClaimedChunks_def cursorRoom_def roomSplit_def roomWide_def cNextChunkOffset_def)
qed

section \<open>Claiming\<close>

lemma claim_cursor:
  assumes room: "cursorRoom split bs n (Suc k)" and len: "136 \<le> length bs"
    and c: "claimChunkIndex split cNextChunkOffset n bs = (i, bs')"
  shows "i = loadClaimedChunks split cNextChunkOffset n bs"
    and "loadClaimedChunks split cNextChunkOffset n bs' = min n (Suc i)"
    and "cursorRoom split bs' n k" and "length bs' = length bs"
    and "take 64 bs' = take 64 bs" and "drop 136 bs' = drop 136 bs"
proof -
  have fs: "i = fst (claimChunkIndex split cNextChunkOffset n bs)"
    "bs' = snd (claimChunkIndex split cNextChunkOffset n bs)" using c by simp_all
  show i: "i = loadClaimedChunks split cNextChunkOffset n bs"
    using room unfolding fs by (cases split)
      (simp_all add: cursorRoom_def wide.claim_index [where k = k] narrow.claim_index [where k = k])
  show "loadClaimedChunks split cNextChunkOffset n bs' = min n (Suc i)"
    using room unfolding i fs by (cases split)
      (simp_all add: cursorRoom_def wide.claim_counts [where k = k] narrow.claim_counts [where k = k])
  show "cursorRoom split bs' n k"
    using room unfolding fs by (cases split)
      (simp_all add: cursorRoom_def wide.claim_room [where k = k] narrow.claim_room [where k = k])
  have "bs' = bs \<or> (\<exists>w :: u32. bs' = store bs 128 (wordBytes w)) \<or> (\<exists>w :: u64. bs' = store bs 128 (wordBytes w))"
    using c by (auto simp: claimChunkIndex_def Let_def cNextChunkOffset_def split: if_splits)
  then show "length bs' = length bs" "take 64 bs' = take 64 bs" "drop 136 bs' = drop 136 bs"
    using len by (auto simp: take_store_before drop_store_after)
qed

text \<open>The writer that stands at the end of chunk \<open>i\<close>'s log.\<close>

definition writerAt :: "Segment \<Rightarrow> nat \<Rightarrow> logrec list \<Rightarrow> ChunkWriter" where
  "writerAt s i rs =
     \<lparr>cw_base = unat (sg_headerBytes s) + i * unat (sg_chunkBytes s) + 32,
      cw_size = unat (sg_chunkBytes s) - 32, cw_offset = length (frames rs),
      cw_sequence = word_of_nat (length rs)\<rparr>"

lemma claimChunk_full:
  assumes inv: "seg_inv split (Suc k) s cs" and "length cs = unat (sg_chunkCount s)"
    and c: "claimChunk split thread now s = (w, s')"
  shows "w = noWriter" and "\<exists>bs. s' = s\<lparr>sg_bytes := bs\<rparr>" and "seg_inv split k s' cs"
proof -
  let ?n = "unat (sg_chunkCount s)" and ?hb = "unat (sg_headerBytes s)"
  obtain i bs1 where c1: "claimChunkIndex split cNextChunkOffset ?n (sg_bytes s) = (i, bs1)"
    by (metis surj_pair)
  have g: "seg_geometry s" "sg_valid s" "136 \<le> ?hb" "?hb \<le> length (sg_bytes s)"
    using inv by (simp_all add: seg_inv_def seg_geometry_def)
  have room: "cursorRoom split (sg_bytes s) ?n (Suc k)" using inv by (simp add: seg_inv_def)
  have len: "136 \<le> length (sg_bytes s)" using g by simp
  note cc = claim_cursor [OF room len c1]
  have i: "i = ?n" using cc(1) inv assms(2) g(2) by (simp add: seg_inv_def claimedChunks_def)
  have eq: "w = noWriter" "s' = s\<lparr>sg_bytes := bs1\<rparr>"
    using c g(2) by (simp_all add: claimChunk_def c1 i)
  then show "w = noWriter" and "\<exists>bs. s' = s\<lparr>sg_bytes := bs\<rparr>" by auto
  have "drop ?hb bs1 = drop (?hb - 136) (drop 136 bs1)" using g(3) by simp
  also have "\<dots> = drop ?hb (sg_bytes s)" unfolding cc(6) using g(3) by simp
  finally have d: "drop ?hb bs1 = drop ?hb (sg_bytes s)" .
  have "claimedChunks split s' = length cs"
    using g(2) cc(2) i assms(2) by (simp add: eq claimedChunks_def)
  then show "seg_inv split k s' cs"
    using inv seg_geometry_update [OF g(1) cc(4,5)] cc(3,4) d by (simp add: eq seg_inv_def)
qed

lemma claimChunk_ok:
  assumes inv: "seg_inv split (Suc k) s cs" and lt: "length cs < unat (sg_chunkCount s)"
    and c: "claimChunk split thread now s = (w, s')"
  shows "w = writerAt s (length cs) []" and "\<exists>bs. s' = s\<lparr>sg_bytes := bs\<rparr>"
    and "seg_inv split k s' (cs @ [(stampedHeader s thread now, [])])"
proof -
  let ?n = "unat (sg_chunkCount s)" and ?hb = "unat (sg_headerBytes s)" and ?cb = "unat (sg_chunkBytes s)"
  let ?ch = "stampedHeader s thread now" and ?imgs = "concat (map (chunkImage ?cb) cs)"
  let ?base = "?hb + length cs * ?cb"
  obtain i bs1 where c1: "claimChunkIndex split cNextChunkOffset ?n (sg_bytes s) = (i, bs1)"
    by (metis surj_pair)
  have g: "seg_geometry s" "sg_valid s" "136 \<le> ?hb" "?hb \<le> length (sg_bytes s)" "48 \<le> ?cb"
    "?n * ?cb \<le> length (sg_bytes s) - ?hb"
    using inv by (simp_all add: seg_inv_def seg_geometry_def)
  have room: "cursorRoom split (sg_bytes s) ?n (Suc k)" using inv by (simp add: seg_inv_def)
  have len: "136 \<le> length (sg_bytes s)" using g by simp
  note cc = claim_cursor [OF room len c1]
  have i: "i = length cs" using cc(1) inv g(2) by (simp add: seg_inv_def claimedChunks_def)
  define bs2 where "bs2 = store bs1 ?base (ChunkHeader_bytes ?ch)"
  have eq: "w = newWriter (?base + cChunkHeaderSize) (?cb - cChunkHeaderSize)" "s' = s\<lparr>sg_bytes := bs2\<rparr>"
    using c g(2) lt by (simp_all add: claimChunk_def c1 i bs2_def Let_def)
  show "w = writerAt s (length cs) []" "\<exists>bs. s' = s\<lparr>sg_bytes := bs\<rparr>"
    using eq by (auto simp: writerAt_def newWriter_def cChunkHeaderSize_def)
  have "Suc (length cs) * ?cb \<le> ?n * ?cb" using lt by (intro mult_le_mono1) simp
  then have fit: "length cs * ?cb + ?cb \<le> length (sg_bytes s) - ?hb" using g(6) by simp
  define z where "z = length (sg_bytes s) - ?hb - Suc (length cs) * ?cb"
  have zs: "length (sg_bytes s) - ?hb - length cs * ?cb = 32 + (?cb - 32) + z"
    using fit g(5) by (simp add: z_def)
  have "drop ?hb bs1 = drop (?hb - 136) (drop 136 bs1)" using g(3) by simp
  also have "\<dots> = drop ?hb (sg_bytes s)" unfolding cc(6) using g(3) by simp
  also have "\<dots> = ?imgs @ replicate 32 0 @ replicate (?cb - 32) 0 @ replicate z 0"
    using inv unfolding seg_inv_def by (simp only: zs replicate_add append.assoc)
  finally have d1: "drop ?hb bs1 = ?imgs @ replicate 32 0 @ replicate (?cb - 32) 0 @ replicate z 0" .
  have hb1: "length (take ?hb bs1) = ?hb" using cc(4) g(4) by simp
  have ok: "\<forall>c \<in> set cs. chunk_ok s c" using inv by (simp add: seg_inv_def)
  have b1: "bs1 = (take ?hb bs1 @ ?imgs) @ replicate 32 0 @ (replicate (?cb - 32) 0 @ replicate z 0)"
    using d1 append_take_drop_id [of ?hb bs1] by simp
  have b2: "bs2 = (take ?hb bs1 @ ?imgs) @ ChunkHeader_bytes ?ch @ replicate (?cb - 32) 0 @ replicate z 0"
    unfolding bs2_def by (subst b1, subst store_append) (use hb1 in \<open>simp_all add: length_chunkImages [OF ok g(5)]\<close>)
  have len2: "length bs2 = length (sg_bytes s)"
    using arg_cong [OF b1, of length] arg_cong [OF b2, of length] cc(4) by simp
  have t136: "take 136 bs2 = take 136 bs1" using g(3,4) cc(4) by (simp add: b2)
  then have "take 64 (take 136 bs2) = take 64 (take 136 bs1)" by simp
  then have t64: "take 64 bs2 = take 64 (sg_bytes s)" using cc(5) by simp
  have d2: "drop ?hb bs2 = concat (map (chunkImage ?cb) (cs @ [(?ch, [])])) @ replicate z 0"
    using hb1 by (simp add: b2 chunkImage_def chunkBody_def)
  have cur: "loadClaimedChunks split cNextChunkOffset ?n bs2 = Suc (length cs)"
    "cursorRoom split bs2 ?n k"
    using cursor_cong(1) [OF t136, of split ?n] cursor_cong(2) [OF t136, of split ?n k] len2 cc(2,3,4) i lt
    by simp_all
  have "chunk_ok s (?ch, [])" by (simp add: chunk_ok_def stampedHeader_def)
  then show "seg_inv split k s' (cs @ [(?ch, [])])"
    using inv g(2) seg_geometry_update [OF g(1) len2 t64] cur d2 len2 lt ok
    by (simp add: eq seg_inv_def claimedChunks_def z_def)
qed

section \<open>Writing into a claimed chunk\<close>

lemma seg_inv_parts:
  assumes inv: "seg_inv split k s cs" and i: "i < length cs"
  obtains pre post where
    "sg_bytes s = pre @ chunkBody (unat (sg_chunkBytes s) - 32) (snd (cs ! i)) @ post"
    "length pre = cw_base (writerAt s i rs)" "136 \<le> length pre"
    "drop (unat (sg_headerBytes s)) pre =
       concat (map (chunkImage (unat (sg_chunkBytes s))) (take i cs)) @ ChunkHeader_bytes (fst (cs ! i))"
    "post = concat (map (chunkImage (unat (sg_chunkBytes s))) (drop (Suc i) cs))
         @ replicate (length (sg_bytes s) - unat (sg_headerBytes s) - length cs * unat (sg_chunkBytes s)) 0"
proof -
  let ?hb = "unat (sg_headerBytes s)" and ?cb = "unat (sg_chunkBytes s)"
  let ?H = "take ?hb (sg_bytes s)" and ?A = "concat (map (chunkImage ?cb) (take i cs))"
  let ?P = "concat (map (chunkImage ?cb) (drop (Suc i) cs))
         @ replicate (length (sg_bytes s) - ?hb - length cs * ?cb) 0"
  have g: "136 \<le> ?hb" "?hb \<le> length (sg_bytes s)" "48 \<le> ?cb" "\<forall>c \<in> set cs. chunk_ok s c"
    using inv by (simp_all add: seg_inv_def seg_geometry_def)
  have "drop ?hb (sg_bytes s) = concat (map (chunkImage ?cb) cs)
      @ replicate (length (sg_bytes s) - ?hb - length cs * ?cb) 0"
    using inv unfolding seg_inv_def by blast
  also have "concat (map (chunkImage ?cb) cs) = ?A @ chunkImage ?cb (cs ! i)
      @ concat (map (chunkImage ?cb) (drop (Suc i) cs))"
    by (subst id_take_nth_drop [OF i]) simp
  finally have "sg_bytes s = (?H @ ?A @ ChunkHeader_bytes (fst (cs ! i)))
      @ chunkBody (?cb - 32) (snd (cs ! i)) @ ?P"
    using append_take_drop_id [of ?hb "sg_bytes s"] by (simp add: chunkImage_def)
  moreover have "\<forall>c \<in> set (take i cs). chunk_ok s c" using g(4) by (auto dest: in_set_takeD)
  then have "length ?A = i * ?cb" using g(3) i by (simp add: length_chunkImages)
  ultimately show thesis
    using g i by (intro that [of "?H @ ?A @ ChunkHeader_bytes (fst (cs ! i))" ?P]) (auto simp: writerAt_def)
qed

lemma seg_chunk_ok: "seg_inv split k s cs \<Longrightarrow> i < length cs \<Longrightarrow> chunk_ok s (cs ! i)"
  by (simp add: seg_inv_def)

lemma seg_writes:
  assumes inv: "seg_inv split k s cs" and i: "i < length cs"
  shows "writes (writerAt s i (snd (cs ! i))) (sg_bytes s) (snd (cs ! i))"
proof -
  obtain pre post where p: "sg_bytes s = pre @ chunkBody (unat (sg_chunkBytes s) - 32) (snd (cs ! i)) @ post"
    "length pre = cw_base (writerAt s i (snd (cs ! i)))"
    using seg_inv_parts [OF inv i, where rs = "snd (cs ! i)"] by blast
  have g: "48 \<le> unat (sg_chunkBytes s)" "8 dvd unat (sg_chunkBytes s)"
    using inv by (simp_all add: seg_inv_def seg_geometry_def)
  then have "8 dvd unat (sg_chunkBytes s) - 32" by (simp add: dvd_diff_nat)
  then show ?thesis
    using g p seg_chunk_ok [OF inv i]
    unfolding p(1) chunkBody_def append.assoc
    by (intro writes_intro) (auto simp: writerAt_def chunk_ok_def)
qed

lemma length_chunkBody: "length (frames rs) \<le> sz \<Longrightarrow> length (chunkBody sz rs) = sz"
  by (simp add: chunkBody_def)

lemma seg_update:
  assumes inv: "seg_inv split k s cs" and i: "i < length cs" and len: "length bs = length (sg_bytes s)"
    and pre: "take (cw_base (writerAt s i rs)) bs = take (cw_base (writerAt s i rs)) (sg_bytes s)"
    and post: "drop (cw_base (writerAt s i rs) + cw_size (writerAt s i rs)) bs
      = drop (cw_base (writerAt s i rs) + cw_size (writerAt s i rs)) (sg_bytes s)"
    and w: "writes (writerAt s i rs) bs rs"
  shows "seg_inv split k (s\<lparr>sg_bytes := bs\<rparr>) (cs[i := (fst (cs ! i), rs)])"
proof -
  let ?hb = "unat (sg_headerBytes s)" and ?cb = "unat (sg_chunkBytes s)"
  let ?b = "cw_base (writerAt s i rs)" and ?n = "cw_size (writerAt s i rs)"
  obtain H P where p: "sg_bytes s = H @ chunkBody (?cb - 32) (snd (cs ! i)) @ P"
    "length H = ?b" "136 \<le> length H"
    "drop ?hb H = concat (map (chunkImage ?cb) (take i cs)) @ ChunkHeader_bytes (fst (cs ! i))"
    "P = concat (map (chunkImage ?cb) (drop (Suc i) cs))
         @ replicate (length (sg_bytes s) - ?hb - length cs * ?cb) 0"
    using seg_inv_parts [OF inv i, where rs = rs] by blast
  have g: "seg_geometry s" "sg_valid s" "?hb \<le> length H" "length (chunkBody (?cb - 32) (snd (cs ! i))) = ?n"
    using inv seg_chunk_ok [OF inv i] p(2)
    by (simp_all add: seg_inv_def seg_geometry_def length_chunkBody chunk_ok_def writerAt_def)
  have e0: "bs = take ?b bs @ take ?n (drop ?b bs) @ drop ?n (drop ?b bs)" by (simp del: drop_drop)
  have e1: "take ?b bs = H" using pre p(1,2) by simp
  have e2: "take ?n (drop ?b bs) = chunkBody (?cb - 32) rs"
    using w by (simp add: writes_def writerAt_def)
  have e3: "drop ?n (drop ?b bs) = P"
    using post p(1,2) g(4) by (simp add: add.commute)
  have bs: "bs = H @ chunkBody (?cb - 32) rs @ P" using e0 by (simp only: e1 e2 e3)
  have t: "take m bs = take m (sg_bytes s)" if "m \<le> 136" for m
    using that p(1,3) bs by simp
  have upd: "cs[i := (fst (cs ! i), rs)] = take i cs @ (fst (cs ! i), rs) # drop (Suc i) cs"
    using i by (simp add: upd_conv_take_nth_drop)
  have d: "drop ?hb bs = concat (map (chunkImage ?cb) (cs[i := (fst (cs ! i), rs)]))
       @ replicate (length (sg_bytes s) - ?hb - length cs * ?cb) 0"
    unfolding bs upd using g(3) p(4,5) by (simp add: chunkImage_def)
  have ok: "\<forall>c \<in> set (cs[i := (fst (cs ! i), rs)]). chunk_ok s c"
  proof -
    have "chunk_ok s (fst (cs ! i), rs)"
      using seg_chunk_ok [OF inv i] w by (auto simp: chunk_ok_def writes_def writerAt_def)
    moreover have "\<forall>c \<in> set cs. chunk_ok s c" using inv by (simp add: seg_inv_def)
    ultimately show ?thesis using set_update_subset_insert [of cs i "(fst (cs ! i), rs)"] by blast
  qed
  show ?thesis
    using inv g(2) seg_geometry_update [OF g(1) len t] cursor_cong [OF t [of 136] len] d ok len
    by (simp add: seg_inv_def claimedChunks_def)
qed

section \<open>Reading the image back\<close>

fun chunkViews :: "nat \<Rightarrow> nat \<Rightarrow> nat \<Rightarrow> chunklog list \<Rightarrow> RecordView list" where
  "chunkViews cb idx pos [] = []"
| "chunkViews cb idx pos (c # cs) =
     views idx (ch_ownerThread (fst c)) (pos + 32) (snd c) @ chunkViews cb (Suc idx) (pos + cb) cs"

definition freeBytes :: "nat \<Rightarrow> chunklog list \<Rightarrow> nat" where
  "freeBytes cb cs = sum_list (map (\<lambda>c. cb - 32 - length (frames (snd c))) cs)"

lemma chunkSizeOf_stamped:
  assumes "seg_geometry s" and "sh_chunkBytes h = sg_chunkBytes s"
  shows "chunkSizeOf h (stampedHeader s t m) = Some (unat (sg_chunkBytes s))"
proof (cases "sizeClassForChunkBytes (sg_chunkBytes s)")
  case None
  then show ?thesis using assms by (simp add: chunkSizeOf_def stampedHeader_def seg_geometry_def)
next
  case (Some c)
  then have "chunkBytesForSizeClass c = sg_chunkBytes s" "unat c \<in> {1..17}"
    by (auto elim: sizeClassForChunkBytes_SomeE)
  then show ?thesis
    using assms Some
    by (auto simp: chunkSizeOf_def stampedHeader_def seg_geometry_def cMaxChunkSizeClass_def word_le_nat_alt)
qed

lemma visitChunk_claimed:
  assumes geo: "seg_geometry s" and ok: "chunk_ok s c"
    and h: "sh_chunkBytes h = sg_chunkBytes s" "sh_generation h = sg_generation s"
    and img: "img = pre @ chunkImage (unat (sg_chunkBytes s)) c @ post"
    and seg: "unat (sh_segmentBytes h) = length img"
  shows "visitChunk img h idx (length pre) =
    ((views idx (ch_ownerThread (fst c)) (length pre + 32) (snd c), 0,
      unat (sg_chunkBytes s) - 32 - length (frames (snd c))), length pre + unat (sg_chunkBytes s))"
proof -
  let ?cb = "unat (sg_chunkBytes s)"
  let ?n = "?cb - 32 - length (frames (snd c))"
  have cb: "48 \<le> ?cb" "sg_generation s \<noteq> 0" using geo by (simp_all add: seg_geometry_def)
  have len: "length img = length pre + ?cb + length post"
    using ok cb by (simp add: img length_chunkImage)
  have fit: "length (frames (snd c)) \<le> ?cb - 32" "\<forall>r \<in> set (snd c). rec_ok r"
    using ok by (simp_all add: chunk_ok_def)
  have head: "ChunkHeader_load (length pre) img = fst c"
    unfolding img chunkImage_def append.assoc by (rule ChunkHeader_load_bytes) simp
  have st: "fst c = stampedHeader s (ch_ownerThread (fst c)) (ch_claimMonoNs (fst c))"
    using ok by (simp add: chunk_ok_def)
  then have fs: "ch_generation (fst c) = sg_generation s"
    "ch_headerChecksum (fst c) = computeChunkHeaderChecksum (ch_generation (fst c)) (ch_ownerThread (fst c))
       (ch_claimMonoNs (fst c)) (ch_chunkSizeClass (fst c))"
    by (metis ChunkHeader.select_convs stampedHeader_def)+
  have sz: "chunkSizeOf h (fst c) = Some ?cb"
    by (subst st) (rule chunkSizeOf_stamped [OF geo h(1)])
  have i: "img = (pre @ ChunkHeader_bytes (fst c)) @ frames (snd c) @ replicate ?n 0 @ post"
    by (simp add: img chunkImage_def chunkBody_def)
  have "walkBody img idx (ch_ownerThread (fst c)) (length pre + 32 + length (frames (snd c)) + ?n) (length pre + 32)
      = (views idx (ch_ownerThread (fst c)) (length pre + 32) (snd c), 0, ?n)"
    using walkBody_log [OF fit(2), of "pre @ ChunkHeader_bytes (fst c)" ?n post idx] by (simp add: i)
  moreover have "length pre + 32 + length (frames (snd c)) + ?n = length pre + ?cb" using fit(1) cb by simp
  ultimately have w: "walkBody img idx (ch_ownerThread (fst c)) (length pre + ?cb) (length pre + 32)
      = (views idx (ch_ownerThread (fst c)) (length pre + 32) (snd c), 0, ?n)" by simp
  show ?thesis
    unfolding visitChunk_def Let_def head cChunkHeaderSize_def
    using cb len fs h seg sz w by (simp add: addWalk_def)
qed


lemma visitFrom_chunk:
  assumes "48 \<le> unat (sh_chunkBytes h)" and "pos < unat (sh_segmentBytes h)"
    and "unat (sh_segmentBytes h) = length img" and "visitChunk img h idx pos = (r, pos')"
  shows "visitFrom img h idx pos = addWalk r (visitFrom img h (Suc idx) pos')"
  using assms by (subst visitFrom.simps) (simp add: cChunkHeaderSize_def Let_def)

lemma visitFrom_claimed:
  assumes geo: "seg_geometry s" and ok: "\<forall>c \<in> set cs. chunk_ok s c"
    and h: "sh_chunkBytes h = sg_chunkBytes s" "sh_generation h = sg_generation s"
    and img: "img = pre @ concat (map (chunkImage (unat (sg_chunkBytes s))) cs) @ post"
    and seg: "unat (sh_segmentBytes h) = length img"
  shows "visitFrom img h idx (length pre) =
    addWalk (chunkViews (unat (sg_chunkBytes s)) idx (length pre) cs, 0, freeBytes (unat (sg_chunkBytes s)) cs)
      (visitFrom img h (idx + length cs) (length pre + length cs * unat (sg_chunkBytes s)))"
  using ok img
proof (induction cs arbitrary: pre idx)
  case Nil
  then show ?case by (simp add: addWalk_def freeBytes_def)
next
  case (Cons c cs)
  let ?cb = "unat (sg_chunkBytes s)" and ?pre = "pre @ chunkImage (unat (sg_chunkBytes s)) c"
  have cb: "48 \<le> ?cb" using geo by (simp add: seg_geometry_def)
  have lc: "length ?pre = length pre + ?cb" using Cons.prems cb by (simp add: length_chunkImage)
  have img: "img = pre @ chunkImage ?cb c @ (concat (map (chunkImage ?cb) cs) @ post)"
    using Cons.prems by simp
  have c: "chunk_ok s c" using Cons.prems by simp
  have "length pre < length img" using lc cb by (simp add: img)
  then have step: "visitFrom img h idx (length pre) =
      addWalk (views idx (ch_ownerThread (fst c)) (length pre + 32) (snd c), 0, ?cb - 32 - length (frames (snd c)))
        (visitFrom img h (Suc idx) (length pre + ?cb))"
    using cb h seg by (intro visitFrom_chunk visitChunk_claimed [OF geo c h img seg]) simp_all
  have "visitFrom img h (Suc idx) (length ?pre) =
      addWalk (chunkViews ?cb (Suc idx) (length ?pre) cs, 0, freeBytes ?cb cs)
        (visitFrom img h (Suc idx + length cs) (length ?pre + length cs * ?cb))"
    using Cons.prems by (intro Cons.IH) simp_all
  then show ?case unfolding step lc by (simp add: addWalk_def freeBytes_def add.assoc)
qed

lemma ChunkHeader_load_zeros:
  "ChunkHeader_load (length pre) (pre @ replicate z 0) =
    \<lparr>ch_generation = 0, ch_ownerThread = 0, ch_claimMonoNs = 0, ch_headerChecksum = 0, ch_chunkSizeClass = 0\<rparr>"
  by (simp add: ChunkHeader_load_def loadWord_append_right loadWord_zeros)

text \<open>
  Zeros up to the end of the segment: whole chunks are unwritten, and so is a shorter
  tail, unless it is shorter than a chunk header, when it counts as unreadable.
\<close>

definition slackLoss :: "nat \<Rightarrow> nat \<Rightarrow> nat" where
  "slackLoss cb z = (if z mod cb < 32 then z mod cb else 0)"

lemma visitFrom_zeros:
  assumes cb: "48 \<le> unat (sh_chunkBytes h)" and seg: "unat (sh_segmentBytes h) = length pre + z"
  shows "visitFrom (pre @ replicate z 0) h idx (length pre) =
    ([], slackLoss (unat (sh_chunkBytes h)) z, z - slackLoss (unat (sh_chunkBytes h)) z)"
  using seg
proof (induction z arbitrary: pre idx rule: less_induct)
  case (less z)
  let ?cb = "unat (sh_chunkBytes h)" and ?img = "pre @ replicate z 0"
  have img: "length ?img = unat (sh_segmentBytes h)" using less.prems by simp
  show ?case
  proof (cases "z < ?cb")
    case True
    have "visitFrom ?img h (Suc idx) (length pre + ?cb) = ([], 0, 0)"
      using True less.prems by (subst visitFrom.simps) (simp add: Let_def)
    moreover have "visitChunk ?img h idx (length pre) =
        (([], slackLoss ?cb z, z - slackLoss ?cb z), length pre + ?cb)"
      using True less.prems cb
      by (auto simp: visitChunk_def Let_def ChunkHeader_load_zeros cChunkHeaderSize_def slackLoss_def)
    ultimately show ?thesis
      using True less.prems cb img
      by (cases "z = 0") (simp_all add: visitFrom.simps [of ?img h idx "length pre"]
          visitFrom.simps [of pre h idx "length pre"] cChunkHeaderSize_def Let_def slackLoss_def addWalk_def)
  next
    case False
    let ?z = "z - ?cb" and ?pre = "pre @ replicate ?cb 0"
    have eq: "?img = ?pre @ replicate ?z 0" using False by (simp add: replicate_add [symmetric])
    have c: "visitChunk ?img h idx (length pre) = (([], 0, ?cb), length pre + ?cb)"
      using False less.prems cb
      by (auto simp: visitChunk_def Let_def ChunkHeader_load_zeros cChunkHeaderSize_def)
    have sl: "slackLoss ?cb ?z = slackLoss ?cb z" using False by (simp add: slackLoss_def le_mod_geq)
    have "slackLoss ?cb z \<le> ?z" unfolding sl [symmetric] by (simp add: slackLoss_def)
    moreover have "visitFrom (?pre @ replicate ?z 0) h (Suc idx) (length ?pre) =
        ([], slackLoss ?cb ?z, ?z - slackLoss ?cb ?z)"
      using False less.prems cb by (intro less.IH) auto
    then have "visitFrom ?img h (Suc idx) (length pre + ?cb) = ([], slackLoss ?cb z, ?z - slackLoss ?cb z)"
      unfolding eq [symmetric] sl by simp
    moreover have "visitFrom ?img h idx (length pre) = addWalk ([], 0, ?cb) (visitFrom ?img h (Suc idx) (length pre + ?cb))"
      using False cb less.prems img by (intro visitFrom_chunk c) simp_all
    ultimately show ?thesis using False by (simp add: addWalk_def)
  qed
qed

lemma visit_segment:
  assumes inv: "seg_inv split k s cs"
  defines "cb \<equiv> unat (sg_chunkBytes s)" and "hb \<equiv> unat (sg_headerBytes s)"
  defines "z \<equiv> length (sg_bytes s) - hb - length cs * cb"
  shows "visit (openSegment (sg_bytes s)) =
    (chunkViews cb 0 hb cs, slackLoss cb z, freeBytes cb cs + z - slackLoss cb z)"
proof -
  let ?h = "SegmentHeader_load (sg_bytes s)" and ?H = "take hb (sg_bytes s)"
  let ?I = "concat (map (chunkImage cb) cs)"
  have g: "seg_geometry s" "136 \<le> hb" "hb \<le> length (sg_bytes s)" "48 \<le> cb" "length (sg_bytes s) < 2 ^ 64"
    "\<forall>c \<in> set cs. chunk_ok s c"
    using inv by (simp_all add: seg_inv_def seg_geometry_def cb_def hb_def)
  have h: "sh_magic ?h = cMagic" "sh_formatVersion ?h = cFormatVersion" "sh_headerBytes ?h = sg_headerBytes s"
    "sh_chunkBytes ?h = sg_chunkBytes s" "sh_segmentBytes ?h = word_of_nat (length (sg_bytes s))"
    "sh_generation ?h = sg_generation s"
    using g(1) by (simp_all add: seg_geometry_def Let_def)
  have seg: "unat (sh_segmentBytes ?h) = length (sg_bytes s)" using g(5) by (simp add: h(5) unat_of_nat)
  have "openSegment (sg_bytes s) = \<lparr>sr_image = sg_bytes s, sr_header = ?h, sr_error = Ok\<rparr>"
    unfolding openSegment_def Let_def using g h seg
    by (simp add: cSegmentHeaderSize_def cChunkHeaderSize_def cb_def hb_def)
  then have v: "visit (openSegment (sg_bytes s)) = visitFrom (sg_bytes s) ?h 0 hb"
    by (simp add: visit_def sr_valid_def h hb_def)
  have "drop hb (sg_bytes s) = ?I @ replicate z 0"
    using inv unfolding seg_inv_def by (simp add: hb_def cb_def z_def)
  then have img: "sg_bytes s = ?H @ ?I @ replicate z 0" using append_take_drop_id [of hb "sg_bytes s"] by simp
  have lH: "length ?H = hb" using g(3) by simp
  have lI: "length (?H @ ?I) = hb + length cs * cb" using lH length_chunkImages [OF g(6)] g(4) by (simp add: cb_def)
  have "visitFrom (sg_bytes s) ?h 0 (length ?H) = addWalk (chunkViews cb 0 (length ?H) cs, 0, freeBytes cb cs)
      (visitFrom (sg_bytes s) ?h (0 + length cs) (length ?H + length cs * cb))"
    unfolding cb_def by (rule visitFrom_claimed [OF g(1,6) h(4,6) img [unfolded cb_def] seg])
  moreover have "visitFrom ((?H @ ?I) @ replicate z 0) ?h (length cs) (length (?H @ ?I))
      = ([], slackLoss cb z, z - slackLoss cb z)"
    unfolding cb_def h(4) [symmetric]
  proof (rule visitFrom_zeros)
    show "48 \<le> unat (sh_chunkBytes ?h)" using g(4) by (simp add: h(4) cb_def)
    have "length (sg_bytes s) = length (?H @ ?I) + z" by (subst img) simp
    then show "unat (sh_segmentBytes ?h) = length (?H @ concat (map (chunkImage (unat (sh_chunkBytes ?h))) cs)) + z"
      by (simp only: seg h(4) cb_def)
  qed
  moreover have "slackLoss cb z \<le> z" by (simp add: slackLoss_def)
  ultimately show ?thesis
    unfolding v using img lH lI by (simp add: addWalk_def)
qed

section \<open>Creation, as a whole\<close>

lemma validateChunkBytes_ok:
  "hasError (validateChunkBytes cb) \<longleftrightarrow> \<not> (48 \<le> unat cb \<and> 8 dvd unat cb)"
  by (auto simp: validateChunkBytes_def hasError_def noError_def cMinChunkBytes_def cChunkHeaderSize_def
      cRecordAlign_def dvd_eq_mod_eq_0 badChunkBytes_def)

definition storageFits :: "nat \<Rightarrow> bytes \<Rightarrow> SegmentOptions \<Rightarrow> bool" where
  "storageFits addr st opts \<longleftrightarrow>
     48 \<le> unat (so_chunkBytes opts) \<and> 8 dvd unat (so_chunkBytes opts)
     \<and> addr \<noteq> 0 \<and> 8 dvd addr \<and> 192 + unat (so_chunkBytes opts) \<le> length st"

lemma createInMemory_fits:
  assumes "storageFits addr st opts"
  shows "createInMemory split env gen keys addr st opts =
    initialise split env keys emptySegment (replicate (length st) 0) (word_of_nat 192) (so_chunkBytes opts) gen"
proof -
  have "addr mod 8 = 0" using assms by (simp add: storageFits_def dvd_eq_mod_eq_0)
  then show ?thesis
    using assms unfolding createInMemory_def Let_def validateChunkBytes_ok storageFits_def
    by (simp add: wire_consts)
qed

lemma createInMemory_refuses:
  assumes "\<not> storageFits addr st opts"
  shows "createInMemory split env gen keys addr st opts =
    (emptySegment\<lparr>sg_geometryError :=
       if unat (so_chunkBytes opts) < 48 \<or> \<not> 8 dvd unat (so_chunkBytes opts) then badChunkBytes
       else if addr = 0 \<or> \<not> 8 dvd addr then badStorageAlign else badStorageSize\<rparr>, keys)"
  using assms unfolding createInMemory_def Let_def validateChunkBytes_ok storageFits_def
  by (auto simp: wire_consts validateChunkBytes_def cMinChunkBytes_def cChunkHeaderSize_def
      dvd_eq_mod_eq_0 not_le)

lemma createInMemory_valid:
  "sg_valid (fst (createInMemory split env gen keys addr st opts)) \<longleftrightarrow> storageFits addr st opts"
proof (cases "storageFits addr st opts")
  case True
  then show ?thesis by (simp add: createInMemory_fits initialise_def Let_def split: prod.split)
next
  case False
  with createInMemory_refuses [of addr st opts split env gen keys] show ?thesis
    by (auto simp: emptySegment_def)
qed

lemma createInMemory_inv:
  assumes "sg_valid s" and "createInMemory split env gen keys addr st opts = (s, keys')"
    and "gen \<noteq> 0" and "length st < 2 ^ 64"
  shows "seg_inv split (2 ^ 64 - 1) s [] \<and> length (sg_bytes s) = length st
    \<and> unat (sg_headerBytes s) = 192 \<and> sg_chunkBytes s = so_chunkBytes opts"
proof -
  let ?cb = "so_chunkBytes opts"
  have fits: "storageFits addr st opts"
    using assms(1,2) createInMemory_valid [of split env gen keys addr st opts] by simp
  then have "initialise split env keys emptySegment (replicate (length st) 0) (word_of_nat 192) ?cb gen = (s, keys')"
    using assms(2) by (simp add: createInMemory_fits)
  moreover have u: "unat (word_of_nat 192 :: u32) = 192" by simp
  ultimately show ?thesis
    using initialise_inv [of split env keys emptySegment "length st" "word_of_nat 192" ?cb gen s keys'] fits assms(3,4)
    by (simp add: storageFits_def)
qed

lemma createSegment_inv:
  assumes "createSegment mapFile split env gen keys dir stem opts = (s, keys')" and "sg_valid s"
    and "mapFile (segmentPath dir stem (se_processId env) gen) (so_segmentBytes opts)
          = Inr (replicate (unat (so_segmentBytes opts)) 0)"
    and "gen \<noteq> 0" and "4096 \<le> unat (so_segmentBytes opts)"
  shows "seg_inv split (2 ^ 64 - 1) s [] \<and> length (sg_bytes s) = unat (so_segmentBytes opts)
    \<and> unat (sg_headerBytes s) = 4096 \<and> sg_chunkBytes s = so_chunkBytes opts"
proof -
  let ?cb = "so_chunkBytes opts"
  have v: "48 \<le> unat ?cb" "8 dvd unat ?cb"
    using assms(1,2) by (auto simp: createSegment_def Let_def validateChunkBytes_ok emptySegment_def split: if_splits)
  then have "initialise split env keys (emptySegment\<lparr>sg_path := segmentPath dir stem (se_processId env) gen\<rparr>)
      (replicate (unat (so_segmentBytes opts)) 0) (word_of_nat 4096) ?cb gen = (s, keys')"
    using assms(1,3) by (simp add: createSegment_def Let_def validateChunkBytes_ok cSegmentHeaderBytes_def)
  moreover have u: "unat (word_of_nat 4096 :: u32) = 4096" by simp
  moreover have "unat (so_segmentBytes opts) < 2 ^ 64" using unsigned_less [of "so_segmentBytes opts"] by simp
  ultimately show ?thesis
    using initialise_inv [of split env keys "emptySegment\<lparr>sg_path := segmentPath dir stem (se_processId env) gen\<rparr>"
        "unat (so_segmentBytes opts)" "word_of_nat 4096" ?cb gen s keys'] v assms(4,5)
    by simp
qed

section \<open>File names\<close>

lemma append_sep_inj:
  assumes "x \<notin> set a" and "x \<notin> set a'" and "a @ x # b = a' @ x # b'"
  shows "a = a' \<and> b = b'"
  using assms
proof (induction a arbitrary: a')
  case Nil
  then show ?case by (cases a') auto
next
  case (Cons y a)
  then show ?case by (cases a') auto
qed

lemma segmentPath_inj:
  "segmentPath dir stem pid gen = segmentPath dir stem pid' gen' \<longleftrightarrow> pid = pid' \<and> gen = gen'"
proof
  assume eq: "segmentPath dir stem pid gen = segmentPath dir stem pid' gen'"
  have nd: "CHR ''-'' \<notin> set (natToChars 10 n)" for n
    using natToChars_digits [of 10 "CHR ''-''" n] by auto
  have "natToChars 10 (unat pid) @ CHR ''-'' # natToChars 16 (unat gen) @ ''.s0l''
      = natToChars 10 (unat pid') @ CHR ''-'' # natToChars 16 (unat gen') @ ''.s0l''"
    using eq by (simp add: segmentPath_def split: if_splits)
  from append_sep_inj [OF nd nd this] show "pid = pid' \<and> gen = gen'"
    by (simp add: natToChars_inj word_unat_eq_iff)
qed simp

section \<open>Announce keys\<close>

lemma drawAnnounceKey_nonzero [simp]: "fst (drawAnnounceKey c g) \<noteq> 0"
proof -
  have "bit (ucast g OR 1 :: u32) 0" by (simp add: bit_simps)
  then have "(ucast g OR 1 :: u32) \<noteq> 0" by (metis bit_0_eq bot_apply bot_bool_def)
  then show ?thesis by (simp add: drawAnnounceKey_def Let_def)
qed

lemma announceKey_created:
  assumes "createInMemory split env gen keys addr st opts = (s, keys')" and "sg_valid s" and "gen \<noteq> 0"
  shows "announceKey split s \<noteq> 0"
proof -
  have "storageFits addr st opts"
    using assms(1,2) createInMemory_valid [of split env gen keys addr st opts] by simp
  then have "s = fst (initialise split env keys emptySegment (replicate (length st) 0)
      (word_of_nat 192) (so_chunkBytes opts) gen)"
    using assms(1) by (simp add: createInMemory_fits)
  then have "announceKey split s = (if split then ucast (fst (drawAnnounceKey keys gen)) else gen)"
    by (simp add: initialise_def Let_def announceKey_def split: prod.split)
  moreover have "(ucast (fst (drawAnnounceKey keys gen)) :: u64) \<noteq> 0"
    using ucast_inj_iff [of "fst (drawAnnounceKey keys gen)" 0] by simp
  ultimately show ?thesis using assms(3) by simp
qed

section \<open>The visit loop ends\<close>

text \<open>The outer loop as the source writes it, without the guard of \<open>visitFrom\<close>: \<open>None\<close> when the fuel runs out.\<close>

fun visitLoop :: "nat \<Rightarrow> bytes \<Rightarrow> SegmentHeader \<Rightarrow> nat \<Rightarrow> nat \<Rightarrow> walk option" where
  "visitLoop 0 img h chunkIndex chunkStart = None"
| "visitLoop (Suc fuel) img h chunkIndex chunkStart =
     (let segEnd = unat (sh_segmentBytes h)
      in if chunkStart < segEnd
         then if length img \<le> chunkStart then Some ([], segEnd - chunkStart, 0)
              else map_option (addWalk (fst (visitChunk img h chunkIndex chunkStart)))
                     (visitLoop fuel img h (chunkIndex + 1) (snd (visitChunk img h chunkIndex chunkStart)))
         else Some ([], 0, 0))"

lemma visitChunk_stride:
  assumes "cChunkHeaderSize < unat (sh_chunkBytes h)"
  shows "chunkStart + 33 \<le> snd (visitChunk img h i chunkStart)"
proof -
  have big: "33 \<le> n" if "chunkSizeOf h c = Some n" for c n
  proof -
    have "33 \<le> unat (chunkBytesForSizeClass k)" if "k \<noteq> 0" "k \<le> cMaxChunkSizeClass" for k
    proof -
      have k: "unat k \<in> {1..17}" using that
        by (simp add: cMaxChunkSizeClass_def word_le_nat_alt unat_gt_0 Suc_le_eq)
      then have "(2 :: nat) ^ 1 \<le> 2 ^ unat k" by (intro power_increasing) auto
      then show ?thesis using unat_sizeClass [OF k] by simp
    qed
    then show ?thesis using that assms by (auto simp: chunkSizeOf_def struct_sizes split: if_splits)
  qed
  show ?thesis using assms
    by (auto simp: visitChunk_def Let_def struct_sizes split: option.splits dest!: big)
qed

lemma visitLoop_enough:
  assumes c: "cChunkHeaderSize < unat (sh_chunkBytes h)"
  shows "length img < chunkStart + 33 * fuel \<Longrightarrow> visitLoop (Suc fuel) img h i chunkStart = Some (visitFrom img h i chunkStart)"
proof (induction fuel arbitrary: i chunkStart)
  case 0
  then show ?case using c by (subst visitFrom.simps) (simp add: Let_def)
next
  case (Suc fuel)
  let ?next = "snd (visitChunk img h i chunkStart)"
  have "length img < ?next + 33 * fuel" using Suc.prems visitChunk_stride [OF c, of chunkStart img i] by simp
  then have "visitLoop (Suc fuel) img h (i + 1) ?next = Some (visitFrom img h (i + 1) ?next)" by (rule Suc.IH)
  then show ?case using c by (subst visitFrom.simps, subst visitLoop.simps) (simp add: Let_def)
qed

lemma opened_chunkBytes: "sr_valid (openSegment img) \<Longrightarrow> cChunkHeaderSize < unat (sh_chunkBytes (sr_header (openSegment img)))"
  by (auto simp: sr_valid_def openSegment_def Let_def split: if_splits)

lemma opened_image: "sr_image (openSegment img) = img"
  by (simp add: openSegment_def Let_def)

lemma opened_valid:
  assumes "seg_inv split k s cs"
  shows "sr_valid (openSegment (sg_bytes s))"
proof -
  have g: "seg_geometry s" "length (sg_bytes s) < 2 ^ 64" using assms by (simp_all add: seg_inv_def seg_geometry_def)
  then have "unat (sh_segmentBytes (SegmentHeader_load (sg_bytes s))) = length (sg_bytes s)"
    by (simp add: seg_geometry_def Let_def unat_of_nat)
  then show ?thesis using g(1)
    by (auto simp: sr_valid_def openSegment_def Let_def seg_geometry_def struct_sizes)
qed

section \<open>Properties\<close>

text \<open>
  Creating a segment over caller memory succeeds exactly when the chunk size is
  8-aligned and at least 48, the storage non-null, 8-aligned and large enough for the
  header and a chunk; otherwise the segment is invalid and names the first condition
  that failed, in that order.
\<close>

theorem create_in_memory_total:
  "createInMemory split env gen keys addr st opts =
    (if 48 \<le> unat (so_chunkBytes opts) \<and> 8 dvd unat (so_chunkBytes opts)
        \<and> addr \<noteq> 0 \<and> 8 dvd addr \<and> 192 + unat (so_chunkBytes opts) \<le> length st
     then initialise split env keys emptySegment (replicate (length st) 0) 192 (so_chunkBytes opts) gen
     else (emptySegment\<lparr>sg_geometryError :=
       if \<not> (48 \<le> unat (so_chunkBytes opts) \<and> 8 dvd unat (so_chunkBytes opts)) then badChunkBytes
       else if \<not> (addr \<noteq> 0 \<and> 8 dvd addr) then badStorageAlign else badStorageSize\<rparr>, keys))"
  using createInMemory_fits [of addr st opts split env gen keys]
    createInMemory_refuses [of addr st opts split env gen keys]
  by (cases "storageFits addr st opts") (simp_all add: storageFits_def)

text \<open>
  A segment that creation returns valid is readable at once: a reader opens its
  image without error, finds no record, and accounts for every byte behind the header,
  all of it as unwritten when the chunks fill the storage exactly.
\<close>

theorem fresh_segment_reads_empty:
  assumes "createInMemory split env gen keys addr st opts = (s, keys')" and "sg_valid s"
    and "gen \<noteq> 0" and "length st < 2 ^ 64"
    and "unat (so_chunkBytes opts) dvd length st - 192"
  shows "visit (openSegment (sg_bytes s)) = ([], 0, length st - 192)"
proof -
  have "seg_inv split (2 ^ 64 - 1) s [] \<and> length (sg_bytes s) = length st
    \<and> unat (sg_headerBytes s) = 192 \<and> sg_chunkBytes s = so_chunkBytes opts"
    using assms by (intro createInMemory_inv)
  then show ?thesis
    using visit_segment [of split "2 ^ 64 - 1" s "[]"] assms(5)
    by (simp add: slackLoss_def freeBytes_def)
qed

definition exampleEnv :: SegmentEnv where
  "exampleEnv = \<lparr>se_monoNs = 1000, se_wallNs = 2000, se_processId = 42\<rparr>"

definition exampleSegment :: "bool \<Rightarrow> nat \<Rightarrow> Segment" where
  "exampleSegment split len = fst (createInMemory split exampleEnv 7 0 64 (replicate len 0xFF)
     \<lparr>so_segmentBytes = 0, so_chunkBytes = 128\<rparr>)"

lemma exampleSegment_created:
  assumes "320 \<le> len"
  shows "createInMemory split exampleEnv 7 0 64 (replicate len 0xFF) \<lparr>so_segmentBytes = 0, so_chunkBytes = 128\<rparr>
      = (exampleSegment split len, snd (createInMemory split exampleEnv 7 0 64 (replicate len 0xFF)
          \<lparr>so_segmentBytes = 0, so_chunkBytes = 128\<rparr>))"
    and "sg_valid (exampleSegment split len)"
  using assms by (simp_all add: exampleSegment_def createInMemory_valid storageFits_def)

theorem fresh_segment_reads_empty_witness:
  "visit (openSegment (sg_bytes (exampleSegment True 448))) = ([], 0, 256)"
  using fresh_segment_reads_empty [OF exampleSegment_created, of 448 True] by simp

text \<open>
  Storage whose size is not a whole number of chunks: a tail of 1 to 31 bytes behind
  the last chunk is reported as unreadable on a segment nothing has damaged.
\<close>

theorem slack_reported_unreadable:
  assumes "createInMemory split env gen keys addr st opts = (s, keys')" and "sg_valid s"
    and "gen \<noteq> 0" and "length st < 2 ^ 64"
    and "(length st - 192) mod unat (so_chunkBytes opts) < 32"
  shows "unreadableBytes (openSegment (sg_bytes s)) = (length st - 192) mod unat (so_chunkBytes opts)"
proof -
  have "seg_inv split (2 ^ 64 - 1) s [] \<and> length (sg_bytes s) = length st
    \<and> unat (sg_headerBytes s) = 192 \<and> sg_chunkBytes s = so_chunkBytes opts"
    using assms by (intro createInMemory_inv)
  then show ?thesis
    using visit_segment [of split "2 ^ 64 - 1" s "[]"] assms(5)
    by (simp add: unreadableBytes_def slackLoss_def)
qed

theorem slack_reported_unreadable_witness:
  "unreadableBytes (openSegment (sg_bytes (exampleSegment False 336))) = 16"
  using slack_reported_unreadable [OF exampleSegment_created, of 336 False] by simp

text \<open>
  Claiming: while chunks are left, a claim stamps the next chunk with the segment's
  generation, the claiming thread and a checksum, and returns a fresh writer over its
  body; when none is left it returns an invalid writer.  Either way every record
  committed before is still in place and the segment invariant holds.
\<close>

theorem claim_extends_segment:
  assumes "seg_inv split (Suc k) s cs" and "claimChunk split thread now s = (w, s')"
  shows "if length cs < unat (sg_chunkCount s)
    then w = writerAt s (length cs) [] \<and> seg_inv split k s' (cs @ [(stampedHeader s thread now, [])])
    else \<not> cw_valid w \<and> seg_inv split k s' cs"
proof (cases "length cs < unat (sg_chunkCount s)")
  case True
  then show ?thesis using claimChunk_ok [OF assms(1) True assms(2)] by simp
next
  case False
  then have "length cs = unat (sg_chunkCount s)" using assms(1) by (simp add: seg_inv_def)
  from claimChunk_full [OF assms(1) this assms(2)] False show ?thesis
    by (simp add: cw_valid_def noWriter_def)
qed

lemma exampleSegment_inv:
  "320 \<le> len \<Longrightarrow> len < 2 ^ 64 \<Longrightarrow> seg_inv split (Suc (2 ^ 64 - 2)) (exampleSegment split len) []"
  using createInMemory_inv [OF exampleSegment_created(2) exampleSegment_created(1), of len split]
  by simp

theorem claim_extends_segment_witness:
  "seg_inv True (2 ^ 64 - 2) (snd (claimChunk True 3 9 (exampleSegment True 336)))
     [(stampedHeader (exampleSegment True 336) 3 9, [])]"
proof -
  have n: "unat (sg_chunkCount (exampleSegment True 336)) = 1"
    by (simp add: exampleSegment_def createInMemory_fits storageFits_def initialise_def Let_def
        split: prod.split)
  show ?thesis
    using claim_extends_segment [OF exampleSegment_inv prod.collapse [symmetric], of 336 True 3 9] n
    by simp
qed

text \<open>
  C10. What a segment holds is what a reader visits: over an image with claimed chunks
  \<open>cs\<close>, every record committed in any chunk is visited exactly once, chunk by chunk and
  in commit order, with its chunk's index and owner; nothing is unreadable beyond a
  tail shorter than a chunk header.
\<close>

theorem segment_reads_back:
  assumes "seg_inv split k s cs"
  shows "fst (visit (openSegment (sg_bytes s))) =
      chunkViews (unat (sg_chunkBytes s)) 0 (unat (sg_headerBytes s)) cs
    \<and> unreadableBytes (openSegment (sg_bytes s)) < 32"
  using visit_segment [OF assms] by (simp add: unreadableBytes_def slackLoss_def)

theorem segment_reads_back_witness:
  "fst (visit (openSegment (sg_bytes (exampleSegment True 336)))) = []"
  using segment_reads_back [OF exampleSegment_inv, of 336 True] by simp

text \<open>
  Segment files never collide: with the same directory and stem, two paths are equal
  only for the same process id and the same generation.
\<close>

theorem segment_paths_distinct:
  "segmentPath dir stem pid gen = segmentPath dir stem pid' gen' \<longleftrightarrow> pid = pid' \<and> gen = gen'"
  by (rule segmentPath_inj)

text \<open>
  A file segment smaller than its own header area is created valid, with no chunk in
  it, and every reader refuses the file.
\<close>

theorem short_file_unreadable:
  assumes "createSegment mapFile split env gen keys dir stem opts = (s, keys')" and "sg_valid s"
    and "mapFile (segmentPath dir stem (se_processId env) gen) (so_segmentBytes opts)
          = Inr (replicate (unat (so_segmentBytes opts)) 0)"
    and "136 \<le> unat (so_segmentBytes opts)" and "unat (so_segmentBytes opts) < 4096"
  shows "chunkCount s = 0 \<and> \<not> hasError (sg_error s) \<and> sr_error (openSegment (sg_bytes s)) = BadGeometry"
proof -
  let ?n = "unat (so_segmentBytes opts)" and ?p = "segmentPath dir stem (se_processId env) gen"
  let ?h = "headerOf env ?n (word_of_nat 4096) (so_chunkBytes opts) gen"
  have init: "s = fst (initialise split env keys (emptySegment\<lparr>sg_path := ?p\<rparr>) (replicate ?n 0)
      (word_of_nat 4096) (so_chunkBytes opts) gen)"
    using assms(1,2,3) by (auto simp: createSegment_def Let_def emptySegment_def cSegmentHeaderBytes_def split: if_splits)
  have img: "sg_bytes s = store (SegmentHeader_bytes ?h @ replicate (?n - 64) 0) 128 (wordBytes (0 :: u64))"
    unfolding init by (simp add: initialise_def Let_def store_def [of _ 0] cNextChunkOffset_def split: prod.split)
  then have img: "sg_bytes s = SegmentHeader_bytes ?h @ store (replicate (?n - 64) 0) 64 (wordBytes (0 :: u64))"
    using store_shift [of "SegmentHeader_bytes ?h" 128] by simp
  then have "SegmentHeader_load (sg_bytes s) = ?h" "length (sg_bytes s) = ?n"
    using assms(4) by (simp_all add: SegmentHeader_load_bytes)
  then have "sr_error (openSegment (sg_bytes s)) = BadGeometry"
    using assms(4,5) by (simp add: openSegment_def Let_def headerOf_def cSegmentHeaderSize_def)
  moreover have "chunkCount s = 0" "sg_error s = noError"
    using assms(5) unfolding init
    by (simp_all add: initialise_def Let_def chunkCount_def sg_error_def hasError_def emptySegment_def noError_def
        split: prod.split)
  ultimately show ?thesis by (simp add: hasError_def noError_def)
qed

theorem short_file_unreadable_witness:
  "sr_error (openSegment (sg_bytes (fst (createSegment (\<lambda>path n. Inr (replicate (unat n) 0)) False exampleEnv 7 0
     ''/tmp'' ''app'' \<lparr>so_segmentBytes = 1024, so_chunkBytes = 128\<rparr>)))) = BadGeometry"
proof -
  let ?c = "createSegment (\<lambda>path n. Inr (replicate (unat n) 0)) False exampleEnv 7 0
     ''/tmp'' ''app'' \<lparr>so_segmentBytes = 1024, so_chunkBytes = 128\<rparr>"
  have "sg_valid (fst ?c)"
    by (simp add: createSegment_def Let_def validateChunkBytes_ok initialise_def)
  then show ?thesis using short_file_unreadable [OF prod.collapse [symmetric], of _ _ _ _ _ _ _ "\<lparr>so_segmentBytes = 1024, so_chunkBytes = 128\<rparr>"]
    by simp
qed

text \<open>
  The announce key of the split path is never 0, the value an unannounced site holds;
  but the counter is reseeded when it wraps, so two segments of one process can be given
  the same key after fewer than 2 ^ 32 - 1 creations: here after one.
\<close>

theorem announce_keys_repeat:
  "fst (drawAnnounceKey c g) \<noteq> 0
    \<and> (let (key1, c1) = drawAnnounceKey 0 0xFFFFFFFF; (key2, c2) = drawAnnounceKey c1 0xAFFFFFFFF
       in key1 = key2)"
  by (simp add: drawAnnounceKey_nonzero) (simp add: drawAnnounceKey_def Let_def)

text \<open>
  C22. Reading terminates, on any image the reader opens, however it was damaged: the
  loop over the chunks, run without any bound of its own, ends after at most one iteration
  per 33 bytes of the image, because every chunk, its size class included, moves it at
  least past a chunk header, and its result is what \<open>visit\<close> returns.
\<close>

theorem visit_terminates:
  assumes "sr_valid (openSegment img)"
  shows "visitLoop (length img div 33 + 2) img (sr_header (openSegment img)) 0
      (unat (sh_headerBytes (sr_header (openSegment img)))) = Some (visit (openSegment img))"
proof -
  have "length img < 33 * (length img div 33 + 1)"
    using dividend_less_div_times [of 33 "length img"] by (simp add: algebra_simps)
  then have "length img < unat (sh_headerBytes (sr_header (openSegment img))) + 33 * (length img div 33 + 1)" by simp
  from visitLoop_enough [OF opened_chunkBytes [OF assms] this] show ?thesis
    using assms by (simp add: visit_def opened_image)
qed

theorem visit_terminates_witness:
  "let img = sg_bytes (exampleSegment True 448) in
    visitLoop (length img div 33 + 2) img (sr_header (openSegment img)) 0
      (unat (sh_headerBytes (sr_header (openSegment img)))) = Some (visit (openSegment img))"
  unfolding Let_def by (rule visit_terminates [OF opened_valid [OF exampleSegment_inv]]) simp_all

end
