(* ===== verification/Instance.thy ===== *)
theory Instance
  imports Segment Context
begin

text \<open>
  \<^verbatim>\<open>include/sub0log/instance.hpp\<close>: the Logger, the per-thread writer cache behind
  \<open>currentWriter\<close> and \<open>refillWriter\<close>, the fit-retry-drop reservation, subsystem
  declarations, thresholds, the scoped binding and the counters.  A producer call works
  on a \<open>Producer\<close>, the Logger together with the calling thread's cache; a \<open>Caller\<close> names
  the compile-time atomics path, the Logger's address and the thread.  The clock
  readings of a call are arguments.  The second half relates a producer to the list of
  chunk logs of its segment and shows what claiming and appending do to one thread's
  log, and that they leave every other thread's alone.
\<close>

section \<open>State\<close>

record Logger =
  lg_segment :: Segment
  lg_rootCorrelation :: u64
  lg_threshold :: Severity
  lg_subsystemThreshold :: "Severity list"
  lg_dropped :: u64
  lg_truncated :: u64

record WriterCache =
  wc_owner :: nat
  wc_generation :: u64
  wc_writer :: ChunkWriter

record Producer =
  pr_logger :: Logger
  pr_cache :: WriterCache

record Caller =
  ca_split :: bool
  ca_self :: nat
  ca_thread :: u64

text \<open>The process-wide variables: the bound instance (0 is none), the fork flag, unbound emits.\<close>

record Process =
  pc_active :: nat
  pc_detachedByFork :: bool
  pc_unboundEmits :: u64

definition cSubsystemLevels :: nat where "cSubsystemLevels = 64"
definition cUnboundEmitCap :: u64 where "cUnboundEmitCap = 1024"

definition emptyCache :: WriterCache where
  "emptyCache = \<lparr>wc_owner = 0, wc_generation = 0, wc_writer = noWriter\<rparr>"

definition emptyLogger :: Logger where
  "emptyLogger = \<lparr>lg_segment = emptySegment, lg_rootCorrelation = 0, lg_threshold = Trace,
     lg_subsystemThreshold = replicate cSubsystemLevels Trace, lg_dropped = 0, lg_truncated = 0\<rparr>"

section \<open>Binding and counting\<close>

definition countUnboundEmit :: "bool \<Rightarrow> Process \<Rightarrow> bool \<times> Process" where
  "countUnboundEmit split p =
     (False, if pc_unboundEmits p < cUnboundEmitCap
             then p\<lparr>pc_unboundEmits := counterIncrement split (pc_unboundEmits p)\<rparr> else p)"

definition unboundEmits :: "Process \<Rightarrow> u64" where
  "unboundEmits p = pc_unboundEmits p"

text \<open>\<open>ScopedBind\<close>: the constructor returns the previous binding, the destructor restores it.\<close>

definition bindLogger :: "nat \<Rightarrow> Process \<Rightarrow> nat \<times> Process" where
  "bindLogger logger p = (pc_active p, p\<lparr>pc_active := logger\<rparr>)"

definition unbindLogger :: "nat \<Rightarrow> Process \<Rightarrow> Process" where
  "unbindLogger previous p = p\<lparr>pc_active := previous\<rparr>"

definition detachForFork :: "Process \<Rightarrow> Process" where
  "detachForFork p = p\<lparr>pc_active := 0, pc_detachedByFork := True\<rparr>"

section \<open>Thresholds\<close>

definition subsystemThreshold :: "Logger \<Rightarrow> u32 \<Rightarrow> Severity" where
  "subsystemThreshold lg subsystem =
     (if unat subsystem < cSubsystemLevels then lg_subsystemThreshold lg ! unat subsystem
      else lg_threshold lg)"

definition setThreshold :: "Severity \<Rightarrow> Logger \<Rightarrow> Logger" where
  "setThreshold severity lg =
     lg\<lparr>lg_threshold := severity,
        lg_subsystemThreshold := map (\<lambda>_. severity) (lg_subsystemThreshold lg)\<rparr>"

definition setSubsystemThreshold :: "u32 \<Rightarrow> Severity \<Rightarrow> Logger \<Rightarrow> Logger" where
  "setSubsystemThreshold subsystem severity lg =
     (if unat subsystem < cSubsystemLevels
      then lg\<lparr>lg_subsystemThreshold := (lg_subsystemThreshold lg)[unat subsystem := severity]\<rparr>
      else lg)"

section \<open>Counters and usage\<close>

definition countDrop :: "bool \<Rightarrow> Logger \<Rightarrow> Logger" where
  "countDrop split lg = lg\<lparr>lg_dropped := counterIncrement split (lg_dropped lg)\<rparr>"

definition countTruncation :: "bool \<Rightarrow> Logger \<Rightarrow> Logger" where
  "countTruncation split lg = lg\<lparr>lg_truncated := counterIncrement split (lg_truncated lg)\<rparr>"

record Stats =
  st_droppedRecords :: u64
  st_truncatedRecords :: u64

definition stats :: "Logger \<Rightarrow> Stats" where
  "stats lg = \<lparr>st_droppedRecords = lg_dropped lg, st_truncatedRecords = lg_truncated lg\<rparr>"

record Usage =
  us_chunksClaimed :: nat
  us_chunkCount :: nat

definition usage :: "bool \<Rightarrow> Logger \<Rightarrow> Usage" where
  "usage split lg = \<lparr>us_chunksClaimed = claimedChunks split (lg_segment lg),
                     us_chunkCount = chunkCount (lg_segment lg)\<rparr>"

section \<open>The writer cache\<close>

text \<open>The claim both services make, leaving its writer in the cache.\<close>

definition claimInto :: "Caller \<Rightarrow> u64 \<Rightarrow> Producer \<Rightarrow> Producer" where
  "claimInto ca now P =
     (let (w, seg) = claimChunk (ca_split ca) (ca_thread ca) now (lg_segment (pr_logger P))
      in \<lparr>pr_logger = (pr_logger P)\<lparr>lg_segment := seg\<rparr>,
          pr_cache = \<lparr>wc_owner = ca_self ca, wc_generation = sg_generation seg, wc_writer = w\<rparr>\<rparr>)"

text \<open>The result says whether the returned pointer is non-null; it points at the cache's writer.\<close>

definition currentWriter :: "Caller \<Rightarrow> u64 \<Rightarrow> Producer \<Rightarrow> bool \<times> Producer" where
  "currentWriter ca now P =
     (let generation = sg_generation (lg_segment (pr_logger P));
          P' = (if wc_owner (pr_cache P) \<noteq> ca_self ca \<or> wc_generation (pr_cache P) \<noteq> generation
                then claimInto ca now P else P)
      in (cw_valid (wc_writer (pr_cache P')), P'))"

definition refillWriter :: "Caller \<Rightarrow> u64 \<Rightarrow> Producer \<Rightarrow> bool \<times> Producer" where
  "refillWriter ca now P =
     (let P' = claimInto ca now P in (cw_valid (wc_writer (pr_cache P')), P'))"

text \<open>What the callers do through the returned pointer: reserve, write a payload, commit.\<close>

definition reserveIn :: "nat \<Rightarrow> Producer \<Rightarrow> Reservation option \<times> Producer" where
  "reserveIn n P =
     (let (slot, w) = reserve (wc_writer (pr_cache P)) n
      in (slot, P\<lparr>pr_cache := (pr_cache P)\<lparr>wc_writer := w\<rparr>\<rparr>))"

definition updateBytes :: "(bytes \<Rightarrow> bytes) \<Rightarrow> Producer \<Rightarrow> Producer" where
  "updateBytes f P =
     P\<lparr>pr_logger := (pr_logger P)\<lparr>lg_segment := (lg_segment (pr_logger P))
        \<lparr>sg_bytes := f (sg_bytes (lg_segment (pr_logger P)))\<rparr>\<rparr>\<rparr>"

definition storePayload :: "Reservation \<Rightarrow> bytes \<Rightarrow> Producer \<Rightarrow> Producer" where
  "storePayload slot p = updateBytes (\<lambda>bs. store bs (rs_payload slot) p)"

definition commitIn :: "Caller \<Rightarrow> Reservation \<Rightarrow> RecordHead \<Rightarrow> Producer \<Rightarrow> Producer" where
  "commitIn ca slot head = updateBytes (\<lambda>bs. commit (ca_split ca) bs slot head)"

definition dropRecord :: "Caller \<Rightarrow> Producer \<Rightarrow> Producer" where
  "dropRecord ca P = P\<lparr>pr_logger := countDrop (ca_split ca) (pr_logger P)\<rparr>"

definition noteTruncation :: "Caller \<Rightarrow> bool \<Rightarrow> Producer \<Rightarrow> Producer" where
  "noteTruncation ca truncated P =
     (if truncated then P\<lparr>pr_logger := countTruncation (ca_split ca) (pr_logger P)\<rparr> else P)"

section \<open>Fit, retry, drop\<close>

definition reserveRecord ::
  "Caller \<Rightarrow> u64 \<Rightarrow> u64 \<Rightarrow> nat \<Rightarrow> Producer \<Rightarrow> Reservation option \<times> Producer" where
  "reserveRecord ca now now' payloadBytes P0 =
     (let (ok, P1) = currentWriter ca now P0;
          (slot, P2) = (if ok then reserveIn payloadBytes P1 else (None, P1))
      in case slot of
           Some s \<Rightarrow> (Some s, P2)
         | None \<Rightarrow>
           let (ok, P3) = refillWriter ca now' P2;
               (slot, P4) = (if ok then reserveIn payloadBytes P3 else (None, P3))
           in case slot of
                Some s \<Rightarrow> (Some s, P4)
              | None \<Rightarrow> (None, dropRecord ca P4))"

definition subsystemPayload :: "u32 \<Rightarrow> bytes \<Rightarrow> bytes" where
  "subsystemPayload subsystem name =
     SubsystemDefinitionPayload_bytes
       \<lparr>ssp_subsystemId = subsystem, ssp_nameLen = word_of_nat (length name), ssp_reserved0 = 0\<rparr>
     @ name"

definition writeSubsystemDefinition ::
  "Caller \<Rightarrow> u64 \<Rightarrow> u64 \<Rightarrow> u32 \<Rightarrow> bytes \<Rightarrow> Producer \<Rightarrow> bool \<times> Producer" where
  "writeSubsystemDefinition ca now now' subsystem name0 P0 =
     (let truncated = (cInlineBytesCap < length name0);
          name = (if truncated then take cInlineBytesCap name0 else name0);
          payloadBytes = cSubsystemDefinitionPayloadSize + length name;
          (slot, P1) = reserveRecord ca now now' payloadBytes P0
      in case slot of
           None \<Rightarrow> (False, P1)
         | Some s \<Rightarrow>
           let P2 = storePayload s (subsystemPayload subsystem name) P1;
               P3 = commitIn ca s \<lparr>rh_payloadBytes = word_of_nat payloadBytes, rh_kind = SubsystemDefinition,
                      rh_flags = (if truncated then cFlagTruncated else 0), rh_sequence = 0\<rparr> P2
           in (True, noteTruncation ca truncated P3))"

definition declareSubsystem :: "Caller \<Rightarrow> u64 \<Rightarrow> u64 \<Rightarrow> u32 \<Rightarrow> bytes \<Rightarrow> Producer \<Rightarrow> Producer" where
  "declareSubsystem ca now now' subsystem name P =
     snd (writeSubsystemDefinition ca now now' subsystem name P)"

section \<open>Creation\<close>

record LoggerOptions =
  lo_directory :: string
  lo_stem :: string
  lo_segment :: SegmentOptions
  lo_threshold :: Severity
  lo_subsystemNames :: "(u32 \<times> bytes) list"

text \<open>
  \<open>clock\<close> gives the two readings of each declaration; \<open>envVar\<close> is the correlation variable
  of the environment.
\<close>

fun declareAll :: "Caller \<Rightarrow> (nat \<Rightarrow> u64) \<Rightarrow> nat \<Rightarrow> (u32 \<times> bytes) list \<Rightarrow> Producer \<Rightarrow> Producer" where
  "declareAll ca clock i [] P = P"
| "declareAll ca clock i ((ident, name) # names) P =
     declareAll ca clock (i + 2) names
       (snd (writeSubsystemDefinition ca (clock i) (clock (i + 1)) ident name P))"

definition finishCreate ::
  "Caller \<Rightarrow> (nat \<Rightarrow> u64) \<Rightarrow> string option \<Rightarrow> Segment \<Rightarrow> LoggerOptions \<Rightarrow> WriterCache \<Rightarrow> Process
    \<Rightarrow> Producer \<times> Process" where
  "finishCreate ca clock envVar segment options cache p =
     (let lg = setThreshold (lo_threshold options)
                 (emptyLogger\<lparr>lg_segment := segment,
                              lg_rootCorrelation := correlationFromEnvironment envVar\<rparr>)
      in (declareAll ca clock 0 (lo_subsystemNames options) \<lparr>pr_logger = lg, pr_cache = cache\<rparr>,
          p\<lparr>pc_detachedByFork := False\<rparr>))"

definition createInMemoryLogger ::
  "Caller \<Rightarrow> (nat \<Rightarrow> u64) \<Rightarrow> string option \<Rightarrow> SegmentEnv \<Rightarrow> u64 \<Rightarrow> u32 \<Rightarrow> nat \<Rightarrow> bytes \<Rightarrow> LoggerOptions
    \<Rightarrow> WriterCache \<Rightarrow> Process \<Rightarrow> (Producer \<times> Process) \<times> u32" where
  "createInMemoryLogger ca clock envVar env generation keys address storage options cache p =
     (let (seg, keys') = createInMemory (ca_split ca) env generation keys address storage (lo_segment options)
      in (finishCreate ca clock envVar seg options cache p, keys'))"

definition createLogger ::
  "(string \<Rightarrow> u64 \<Rightarrow> PlatformError + bytes) \<Rightarrow> Caller \<Rightarrow> (nat \<Rightarrow> u64) \<Rightarrow> string option \<Rightarrow> SegmentEnv \<Rightarrow> u64 \<Rightarrow> u32
    \<Rightarrow> LoggerOptions \<Rightarrow> WriterCache \<Rightarrow> Process \<Rightarrow> (Producer \<times> Process) \<times> u32" where
  "createLogger mapFile ca clock envVar env generation keys options cache p =
     (let (seg, keys') = createSegment mapFile (ca_split ca) env generation keys
                           (lo_directory options) (lo_stem options) (lo_segment options)
      in (finishCreate ca clock envVar seg options cache p, keys'))"

text \<open>The move constructor: the new Logger and what is left of the old one.\<close>

definition moveLogger :: "Logger \<Rightarrow> Logger \<times> Logger" where
  "moveLogger other =
     (let (seg, rest) = moveSegment (lg_segment other)
      in (other\<lparr>lg_segment := seg\<rparr>, other\<lparr>lg_segment := rest\<rparr>))"

section \<open>One thread's log\<close>

definition ownerOf :: "chunklog \<Rightarrow> u64" where
  "ownerOf c = ch_ownerThread (fst c)"

text \<open>The records a thread committed, over all the chunks it claimed, in order.\<close>

definition threadLog :: "u64 \<Rightarrow> chunklog list \<Rightarrow> logrec list" where
  "threadLog t cs = concat (map snd (filter (\<lambda>c. ownerOf c = t) cs))"

definition lastOf :: "u64 \<Rightarrow> chunklog list \<Rightarrow> nat \<Rightarrow> bool" where
  "lastOf t cs i \<longleftrightarrow>
     i < length cs \<and> ownerOf (cs ! i) = t \<and> (\<forall>j. i < j \<longrightarrow> j < length cs \<longrightarrow> ownerOf (cs ! j) \<noteq> t)"

text \<open>
  \<open>grows t cs cs' rs\<close>: thread \<open>t\<close> appended \<open>rs\<close> to its own log; chunks of other threads are
  untouched and every new chunk is \<open>t\<close>'s.
\<close>

definition grows :: "u64 \<Rightarrow> chunklog list \<Rightarrow> chunklog list \<Rightarrow> logrec list \<Rightarrow> bool" where
  "grows t cs cs' rs \<longleftrightarrow>
     length cs \<le> length cs'
     \<and> (\<forall>j < length cs. fst (cs' ! j) = fst (cs ! j) \<and> (ownerOf (cs ! j) \<noteq> t \<longrightarrow> cs' ! j = cs ! j))
     \<and> (\<forall>j < length cs'. length cs \<le> j \<longrightarrow> ownerOf (cs' ! j) = t)
     \<and> threadLog t cs' = threadLog t cs @ rs"

lemma grows_refl [simp]: "grows t cs cs []"
  by (simp add: grows_def)

lemma grows_trans:
  assumes "grows t cs cs' rs" and "grows t cs' cs'' rs'"
  shows "grows t cs cs'' (rs @ rs')"
proof -
  have "ownerOf (cs'' ! j) = t" if "j < length cs''" "length cs \<le> j" for j
  proof (cases "j < length cs'")
    case True
    then show ?thesis using assms that by (simp add: grows_def ownerOf_def)
  next
    case False
    then show ?thesis using assms that by (simp add: grows_def)
  qed
  moreover have "ownerOf (cs' ! j) = ownerOf (cs ! j)" if "j < length cs" for j
    using assms(1) that by (simp add: grows_def ownerOf_def)
  ultimately show ?thesis using assms by (simp add: grows_def)
qed

lemma filter_eq_nth:
  assumes "length xs = length ys" and "\<And>j. j < length xs \<Longrightarrow> P (xs ! j) = P (ys ! j)"
    and "\<And>j. j < length xs \<Longrightarrow> P (xs ! j) \<Longrightarrow> xs ! j = ys ! j"
  shows "filter P xs = filter P ys"
  using assms
proof (induction xs ys rule: list_induct2)
  case (Cons x xs y ys)
  from Cons.prems(1,2) [of 0] have "P x = P y" "P x \<Longrightarrow> x = y" by simp_all
  moreover have "filter P xs = filter P ys"
    using Cons.prems(1,2) [of "Suc j" for j] by (intro Cons.IH) auto
  ultimately show ?case by simp
qed simp

lemma grows_other:
  assumes "grows t cs cs' rs" and "t' \<noteq> t"
  shows "threadLog t' cs' = threadLog t' cs"
proof -
  have "filter (\<lambda>c. ownerOf c = t') (drop (length cs) cs') = []"
  proof -
    have "ownerOf c = t" if c: "c \<in> set (drop (length cs) cs')" for c
    proof -
      obtain n where "n < length (drop (length cs) cs')" "c = drop (length cs) cs' ! n"
        using c by (metis in_set_conv_nth)
      then have "n + length cs < length cs'" "c = cs' ! (n + length cs)" using assms(1)
        by (simp_all add: grows_def add.commute)
      then show ?thesis using assms(1) by (simp add: grows_def)
    qed
    then show ?thesis using assms(2) by (auto simp: filter_empty_conv)
  qed
  moreover have "filter (\<lambda>c. ownerOf c = t') (take (length cs) cs') = filter (\<lambda>c. ownerOf c = t') cs"
    using assms by (intro filter_eq_nth) (auto simp: grows_def ownerOf_def)
  ultimately have "filter (\<lambda>c. ownerOf c = t') cs' = filter (\<lambda>c. ownerOf c = t') cs"
    using filter_append [of "\<lambda>c. ownerOf c = t'" "take (length cs) cs'" "drop (length cs) cs'"] by simp
  then show ?thesis by (simp add: threadLog_def)
qed

lemma grows_new: "ownerOf c = t \<Longrightarrow> snd c = [] \<Longrightarrow> grows t cs (cs @ [c]) []"
  by (auto simp: grows_def threadLog_def nth_append)

lemma threadLog_simps:
  "threadLog t (cs @ cs') = threadLog t cs @ threadLog t cs'"
  "threadLog t (c # cs) = (if ownerOf c = t then snd c else []) @ threadLog t cs"
  by (simp_all add: threadLog_def)

lemma ownerOf_update [simp]: "ownerOf (cs[i := (fst (cs ! i), rs)] ! j) = ownerOf (cs ! j)"
  by (cases "i = j"; cases "i < length cs") (simp_all add: ownerOf_def list_update_beyond)

lemma grows_append:
  assumes "lastOf t cs i"
  shows "grows t cs (cs[i := (fst (cs ! i), snd (cs ! i) @ rs)]) rs"
proof -
  let ?c = "(fst (cs ! i), snd (cs ! i) @ rs)" and ?l = "threadLog t (take i cs)"
  have i: "i < length cs" "ownerOf (cs ! i) = t" using assms by (simp_all add: lastOf_def)
  have "ownerOf c \<noteq> t" if "c \<in> set (drop (Suc i) cs)" for c
    using that assms by (auto simp: lastOf_def in_set_conv_nth)
  then have none: "threadLog t (drop (Suc i) cs) = []" by (simp add: threadLog_def filter_empty_conv)
  have "threadLog t cs = ?l @ snd (cs ! i)"
    by (subst (1) id_take_nth_drop [OF i(1)]) (simp only: threadLog_simps i(2) none simp_thms if_True append_Nil2)
  moreover have "threadLog t (cs[i := ?c]) = ?l @ snd (cs ! i) @ rs"
  proof -
    have "ownerOf ?c = t" using i by (simp add: ownerOf_def)
    then show ?thesis
      unfolding upd_conv_take_nth_drop [OF i(1)]
      by (simp only: threadLog_simps none simp_thms if_True append_Nil2 snd_conv)
  qed
  ultimately show ?thesis using i by (auto simp: grows_def nth_list_update)
qed

lemma lastOf_update: "lastOf t (cs[i := (fst (cs ! i), rs)]) j \<longleftrightarrow> lastOf t cs j"
  by (simp add: lastOf_def)

lemma lastOf_new: "ownerOf c = t \<Longrightarrow> lastOf t (cs @ [c]) (length cs)"
  by (simp add: lastOf_def)

lemma grows_lastOf:
  assumes "grows t cs cs' rs" and "t' \<noteq> t" and "lastOf t' cs i"
  shows "lastOf t' cs' i" and "cs' ! i = cs ! i"
proof -
  have "ownerOf (cs' ! j) = ownerOf (cs ! j)" if "j < length cs" for j
    using assms(1) that by (simp add: grows_def ownerOf_def)
  then show "lastOf t' cs' i"
    using assms by (auto simp: lastOf_def grows_def)
  show "cs' ! i = cs ! i" using assms by (auto simp: lastOf_def grows_def)
qed

section \<open>Whole chains\<close>

text \<open>
  A continuation follows exactly a record whose flag announces one; a log with no announced
  continuation missing at its end is closed.  Whole messages are appended, so every chunk's
  log is.
\<close>

definition continues :: "logrec \<Rightarrow> bool" where
  "continues r \<longleftrightarrow> rh_kind (fst r) \<in> {Message, Continuation} \<and> rh_flags (fst r) AND cFlagContinued \<noteq> 0"

fun closedFrom :: "bool \<Rightarrow> logrec list \<Rightarrow> bool" where
  "closedFrom expecting [] \<longleftrightarrow> \<not> expecting"
| "closedFrom expecting (r # rs) \<longleftrightarrow>
     (rh_kind (fst r) = Continuation \<longleftrightarrow> expecting) \<and> closedFrom (continues r) rs"

lemma closedFrom_append: "closedFrom b xs \<Longrightarrow> closedFrom b (xs @ ys) = closedFrom False ys"
  by (induction b xs rule: closedFrom.induct) auto

definition singleHead :: "RecordHead \<Rightarrow> bool" where
  "singleHead h \<longleftrightarrow> rh_kind h \<noteq> Continuation \<and> rh_flags h AND cFlagContinued = 0"

lemma flags_continued:
  "((if b then cFlagTruncated else 0) OR (if c then cFlagContinued else 0)) AND cFlagContinued \<noteq> 0 \<longleftrightarrow> c"
  "(if b then cFlagTruncated else 0) AND cFlagContinued = 0"
  "(if c then cFlagContinued else 0) AND cFlagContinued \<noteq> 0 \<longleftrightarrow> c"
  by (cases b; cases c; simp add: cFlagTruncated_def cFlagContinued_def)+

section \<open>The producer invariant\<close>

definition seg :: "Producer \<Rightarrow> Segment" where
  "seg P = lg_segment (pr_logger P)"

definition owns :: "Caller \<Rightarrow> Producer \<Rightarrow> bool" where
  "owns ca P \<longleftrightarrow> wc_owner (pr_cache P) = ca_self ca \<and> wc_generation (pr_cache P) = sg_generation (seg P)"

definition writer :: "Producer \<Rightarrow> ChunkWriter" where
  "writer P = wc_writer (pr_cache P)"

text \<open>
  A cache that belongs to this Logger and segment holds either no writer or the one that
  stands at the end of the thread's last chunk; the logs of all chunks are closed.
\<close>

definition prod_inv :: "Caller \<Rightarrow> nat \<Rightarrow> Producer \<Rightarrow> chunklog list \<Rightarrow> bool" where
  "prod_inv ca k P cs \<longleftrightarrow>
     seg_inv (ca_split ca) k (seg P) cs \<and> (\<forall>c \<in> set cs. closedFrom False (snd c))
     \<and> (owns ca P \<longrightarrow> cw_valid (writer P) \<longrightarrow>
          (\<exists>i. lastOf (ca_thread ca) cs i \<and> writer P = writerAt (seg P) i (snd (cs ! i))))"

lemma seg_inv_mono:
  assumes "seg_inv split k s cs" and "k' \<le> k"
  shows "seg_inv split k' s cs"
  using assms by (auto simp: seg_inv_def cursorRoom_def roomSplit_def roomWide_def)

lemma prod_inv_mono: "prod_inv ca k P cs \<Longrightarrow> k' \<le> k \<Longrightarrow> prod_inv ca k' P cs"
  by (auto simp: prod_inv_def intro: seg_inv_mono)

lemma writerAt_update [simp]: "writerAt (s\<lparr>sg_bytes := bs\<rparr>) i rs = writerAt s i rs"
  by (simp add: writerAt_def)

lemma writerAt_valid: "seg_inv split k s cs \<Longrightarrow> cw_valid (writerAt s i rs)"
  by (auto simp: cw_valid_def writerAt_def seg_inv_def seg_geometry_def)

lemma not_valid_noWriter [simp]: "\<not> cw_valid noWriter"
  by (simp add: cw_valid_def noWriter_def)

text \<open>The counters, thresholds and root correlation: what claiming and writing leave alone.\<close>

definition same_rest :: "Producer \<Rightarrow> Producer \<Rightarrow> bool" where
  "same_rest P P' \<longleftrightarrow> pr_logger P' = (pr_logger P)\<lparr>lg_segment := seg P'\<rparr> \<and> (\<exists>bs. seg P' = (seg P)\<lparr>sg_bytes := bs\<rparr>)"

lemma same_rest_refl [simp]: "same_rest P P"
  by (auto simp: same_rest_def seg_def intro: exI [of _ "sg_bytes (lg_segment (pr_logger P))"])

lemma same_rest_trans: "same_rest P P' \<Longrightarrow> same_rest P' P'' \<Longrightarrow> same_rest P P''"
  by (auto simp: same_rest_def)

lemma claimInto_inv:
  assumes inv: "prod_inv ca (Suc k) P cs"
  obtains cs' where "prod_inv ca k (claimInto ca now P) cs'" "grows (ca_thread ca) cs cs' []"
    "same_rest P (claimInto ca now P)" "owns ca (claimInto ca now P)"
    "cw_valid (writer (claimInto ca now P)) \<longleftrightarrow> length cs < unat (sg_chunkCount (seg P))"
    "cw_valid (writer (claimInto ca now P)) \<Longrightarrow> remaining (writer (claimInto ca now P)) = unat (sg_chunkBytes (seg P)) - 32"
proof -
  let ?P = "claimInto ca now P" and ?t = "ca_thread ca"
  have s: "seg_inv (ca_split ca) (Suc k) (seg P) cs" and closed: "\<forall>c \<in> set cs. closedFrom False (snd c)"
    using inv by (simp_all add: prod_inv_def)
  obtain w s' where c: "claimChunk (ca_split ca) ?t now (seg P) = (w, s')" by (metis surj_pair)
  have P': "?P = \<lparr>pr_logger = (pr_logger P)\<lparr>lg_segment := s'\<rparr>,
      pr_cache = \<lparr>wc_owner = ca_self ca, wc_generation = sg_generation s', wc_writer = w\<rparr>\<rparr>"
    using c by (simp add: claimInto_def seg_def)
  then have f: "seg ?P = s'" "writer ?P = w" "owns ca ?P" by (simp_all add: seg_def writer_def owns_def)
  show thesis
  proof (cases "length cs < unat (sg_chunkCount (seg P))")
    case True
    let ?c = "(stampedHeader (seg P) ?t now, [])"
    note cc = claimChunk_ok [OF s True c]
    obtain bs where s': "s' = (seg P)\<lparr>sg_bytes := bs\<rparr>" using cc(2) by blast
    have o: "ownerOf ?c = ?t" by (simp add: ownerOf_def stampedHeader_def)
    have w: "cw_valid w" using cc(1) writerAt_valid [OF s] by simp
    have "remaining w = unat (sg_chunkBytes (seg P)) - 32"
      using w cc(1) by (simp add: remaining_def writerAt_def)
    moreover have "prod_inv ca k ?P (cs @ [?c])"
      using cc(1,3) lastOf_new [OF o, of cs] closed by (auto simp: prod_inv_def f s')
    moreover have "same_rest P ?P" by (auto simp: same_rest_def f(1) s') (simp add: P' s')
    ultimately show thesis using that [of "cs @ [?c]"] True w f grows_new [OF o] by simp
  next
    case False
    then have full: "length cs = unat (sg_chunkCount (seg P))" using s by (simp add: seg_inv_def)
    note cc = claimChunk_full [OF s full c]
    obtain bs where s': "s' = (seg P)\<lparr>sg_bytes := bs\<rparr>" using cc(2) by blast
    have "prod_inv ca k ?P cs" using cc closed by (simp add: prod_inv_def f)
    moreover have "same_rest P ?P" by (auto simp: same_rest_def f(1) s') (simp add: P' s')
    ultimately show thesis using that [of cs] False f cc(1) by simp
  qed
qed

section \<open>Appending through the cache\<close>

text \<open>A producer after a group was written and committed through its cached writer.\<close>

definition withGroup :: "Producer \<Rightarrow> bytes \<Rightarrow> ChunkWriter \<Rightarrow> Producer" where
  "withGroup P bs w = updateBytes (\<lambda>_. bs) (P\<lparr>pr_cache := (pr_cache P)\<lparr>wc_writer := w\<rparr>\<rparr>)"

lemma withGroup_simps [simp]:
  "seg (withGroup P bs w) = (seg P)\<lparr>sg_bytes := bs\<rparr>" "writer (withGroup P bs w) = w"
  "owns ca (withGroup P bs w) = owns ca P" "same_rest P (withGroup P bs w)"
  by (auto simp: withGroup_def updateBytes_def seg_def writer_def owns_def same_rest_def)

lemma append_group:
  assumes inv: "prod_inv ca k P cs" and own: "owns ca P" and valid: "cw_valid (writer P)"
    and room: "groupSize (map length ps) \<le> remaining (writer P)"
    and js: "distinct js" "set js = {0 ..< length ps}"
    and ok: "length hs = length ps"
      "\<forall>j < length ps. unat (rh_payloadBytes (hs ! j)) = length (ps ! j) \<and> kindCanonical (rh_kind (hs ! j))"
    and closed: "closedFrom False (groupRecords (writer P) hs ps)"
  defines "slots \<equiv> slotsFor (writer P) (map length ps)"
  obtains cs' where
    "prod_inv ca k (withGroup P (commitAll (ca_split ca) (storeAll (sg_bytes (seg P)) slots ps) slots hs js)
        (advanceAll (writer P) (map length ps))) cs'"
    "grows (ca_thread ca) cs cs' (groupRecords (writer P) hs ps)"
proof -
  let ?s = "seg P" and ?w = "writer P"
  obtain i where i: "lastOf (ca_thread ca) cs i" and w: "?w = writerAt ?s i (snd (cs ! i))"
    using inv own valid by (auto simp: prod_inv_def)
  have sinv: "seg_inv (ca_split ca) k ?s cs" and il: "i < length cs"
    using inv i by (simp_all add: prod_inv_def lastOf_def)
  define bs' where "bs' = commitAll (ca_split ca) (storeAll (sg_bytes ?s) slots ps) slots hs js"
  let ?rs = "snd (cs ! i) @ groupRecords ?w hs ps" and ?w' = "advanceAll ?w (map length ps)"
  have wr: "writes ?w (sg_bytes ?s) (snd (cs ! i))" unfolding w by (rule seg_writes [OF sinv il])
  note gc = group_committed [OF wr room js ok bs'_def [unfolded slots_def]]
  have w': "?w' = writerAt ?s i ?rs"
  proof -
    have "cw_offset ?w' = length (frames ?rs)" "cw_sequence ?w' = word_of_nat (length ?rs)"
      using gc(1) by (simp_all add: writes_def)
    moreover have "cw_base ?w' = cw_base ?w" "cw_size ?w' = cw_size ?w" by (simp_all add: advanceAll_fields)
    ultimately show ?thesis by (simp add: w writerAt_def)
  qed
  have "seg_inv (ca_split ca) k (?s\<lparr>sg_bytes := bs'\<rparr>) (cs[i := (fst (cs ! i), ?rs)])"
  proof (rule seg_update [OF sinv il gc(2)])
    show "writes (writerAt ?s i ?rs) bs' ?rs" using gc(1) w' by simp
    have "cw_base (writerAt ?s i ?rs) = cw_base ?w" "cw_size (writerAt ?s i ?rs) = cw_size ?w"
      by (simp_all add: w writerAt_def)
    then show "take (cw_base (writerAt ?s i ?rs)) bs' = take (cw_base (writerAt ?s i ?rs)) (sg_bytes ?s)"
      "drop (cw_base (writerAt ?s i ?rs) + cw_size (writerAt ?s i ?rs)) bs' =
       drop (cw_base (writerAt ?s i ?rs) + cw_size (writerAt ?s i ?rs)) (sg_bytes ?s)"
      using gc(3,4) by simp_all
  qed
  then have "prod_inv ca k (withGroup P bs' ?w') (cs[i := (fst (cs ! i), ?rs)])"
    using i il w' inv closed
    by (auto simp: prod_inv_def lastOf_update closedFrom_append intro!: exI [of _ i]
        dest!: subsetD [OF set_update_subset_insert])
  then show thesis using that [of "cs[i := (fst (cs ! i), ?rs)]"] grows_append [OF i] by (simp add: bs'_def)
qed

text \<open>One record: reserve, write the payload, commit.\<close>

lemma append_one:
  assumes inv: "prod_inv ca k P cs" and own: "owns ca P" and valid: "cw_valid (writer P)"
    and fits: "footprint (length p) \<le> remaining (writer P)" and n: "length p \<le> 0xFFFF"
    and h: "unat (rh_payloadBytes h) = length p" "kindCanonical (rh_kind h)" "singleHead h"
  obtains slot P' cs' where "reserveIn (length p) P = (Some slot, P')"
    "prod_inv ca k (commitIn ca slot h (storePayload slot p P')) cs'"
    "grows (ca_thread ca) cs cs' [(headFor h (writer P) 0, p)]"
    "same_rest P (commitIn ca slot h (storePayload slot p P'))"
    "owns ca (commitIn ca slot h (storePayload slot p P'))"
proof -
  let ?w = "writer P" and ?slots = "slotsFor (writer P) (map length [p])"
  have g: "groupSize (map length [p]) \<le> remaining ?w" using fits by simp
  obtain cs' where cs': "prod_inv ca k (withGroup P (commitAll (ca_split ca)
        (storeAll (sg_bytes (seg P)) ?slots [p]) ?slots [h] [0]) (advanceAll ?w (map length [p]))) cs'"
    "grows (ca_thread ca) cs cs' (groupRecords ?w [h] [p])"
    by (rule append_group [OF inv own valid g, of "[0]" "[h]"])
      (use h in \<open>auto simp: groupRecords_def headFor_def continues_def singleHead_def\<close>)
  let ?P' = "P\<lparr>pr_cache := (pr_cache P)\<lparr>wc_writer := advance ?w (length p)\<rparr>\<rparr>"
  have r: "reserveIn (length p) P = (Some (nextSlot ?w), ?P')"
    using reserve_next [OF n valid fits] by (simp add: reserveIn_def writer_def)
  have e: "commitIn ca (nextSlot ?w) h (storePayload (nextSlot ?w) p ?P') =
      withGroup P (commitAll (ca_split ca) (storeAll (sg_bytes (seg P)) ?slots [p]) ?slots [h] [0])
        (advanceAll ?w (map length [p]))"
    by (simp add: commitIn_def storePayload_def withGroup_def updateBytes_def seg_def)
  have "groupRecords ?w [h] [p] = [(headFor h ?w 0, p)]" by (simp add: groupRecords_def)
  then show thesis using that [OF r] cs' own by (simp add: e)
qed

section \<open>Reserving a record\<close>

definition dropped :: "Producer \<Rightarrow> u64" where
  "dropped P = lg_dropped (pr_logger P)"

definition truncations :: "Producer \<Rightarrow> u64" where
  "truncations P = lg_truncated (pr_logger P)"

lemma same_rest_counters: "same_rest P P' \<Longrightarrow> dropped P' = dropped P \<and> truncations P' = truncations P"
  by (auto simp: same_rest_def dropped_def truncations_def)

text \<open>The largest record payload an empty chunk of the segment takes.\<close>

definition fitsEmpty :: "Producer \<Rightarrow> nat \<Rightarrow> bool" where
  "fitsEmpty P n \<longleftrightarrow> n \<le> 0xFFFF \<and> footprint n \<le> unat (sg_chunkBytes (seg P)) - 32"

lemma reserveIn_refused:
  "reserveIn n P = (None, P') \<Longrightarrow> P' = P"
  by (auto simp: reserveIn_def dest!: reserve_None split: prod.splits)

lemma reserveIn_SomeD:
  assumes "reserveIn n P = (Some s, P')"
  shows "n \<le> 0xFFFF" "cw_valid (writer P)" "footprint n \<le> remaining (writer P)"
proof -
  obtain w where "reserve (writer P) n = (Some s, w)"
    using assms by (auto simp: reserveIn_def writer_def split: prod.splits)
  note rD = reserve_SomeD [OF this]
  show "n \<le> 0xFFFF" "cw_valid (writer P)" "footprint n \<le> remaining (writer P)" by (fact rD)+
qed

lemma currentWriter_inv:
  assumes inv: "prod_inv ca (Suc k) P cs" and c: "currentWriter ca now P = (ok, P')"
  obtains cs' where "prod_inv ca k P' cs'" "grows (ca_thread ca) cs cs' []" "same_rest P P'" "owns ca P'"
    "ok = cw_valid (writer P')" "length cs \<le> length cs'"
proof (cases "owns ca P")
  case True
  then have "P' = P" "ok = cw_valid (writer P)"
    using c by (auto simp: currentWriter_def owns_def seg_def writer_def)
  then show thesis using that [of cs] True prod_inv_mono [OF inv, of k] by simp
next
  case False
  then have e: "P' = claimInto ca now P" "ok = cw_valid (writer P')"
    using c by (auto simp: currentWriter_def owns_def seg_def writer_def Let_def split: if_splits)
  obtain cs' where "prod_inv ca k P' cs'" "grows (ca_thread ca) cs cs' []" "same_rest P P'" "owns ca P'"
    unfolding e(1) by (rule claimInto_inv [OF inv])
  then show thesis using that e(2) by (simp add: grows_def)
qed

lemma refillWriter_inv:
  assumes inv: "prod_inv ca (Suc k) P cs" and c: "refillWriter ca now P = (ok, P')"
  obtains cs' where "prod_inv ca k P' cs'" "grows (ca_thread ca) cs cs' []" "same_rest P P'" "owns ca P'"
    "ok = cw_valid (writer P')" "ok = (length cs < unat (sg_chunkCount (seg P)))"
    "ok \<longrightarrow> remaining (writer P') = unat (sg_chunkBytes (seg P)) - 32"
proof -
  have e: "P' = claimInto ca now P" "ok = cw_valid (writer P')"
    using c by (auto simp: refillWriter_def Let_def writer_def)
  show thesis
    using claimInto_inv [OF inv, of now] that unfolding e(1) by (metis e)
qed

section \<open>What a producer call does\<close>

definition same_config :: "Producer \<Rightarrow> Producer \<Rightarrow> bool" where
  "same_config P P' \<longleftrightarrow>
     (\<exists>bs. seg P' = (seg P)\<lparr>sg_bytes := bs\<rparr>)
     \<and> lg_rootCorrelation (pr_logger P') = lg_rootCorrelation (pr_logger P)
     \<and> lg_threshold (pr_logger P') = lg_threshold (pr_logger P)
     \<and> lg_subsystemThreshold (pr_logger P') = lg_subsystemThreshold (pr_logger P)"

text \<open>
  \<open>outcome ca k P cs P' cs' rs d t\<close>: the call took \<open>P\<close> to \<open>P'\<close>, appended the records \<open>rs\<close> to
  the calling thread's log and nothing else, and counted \<open>d\<close> drops and \<open>t\<close> truncations.
\<close>

definition outcome ::
  "Caller \<Rightarrow> nat \<Rightarrow> Producer \<Rightarrow> chunklog list \<Rightarrow> Producer \<Rightarrow> chunklog list \<Rightarrow> logrec list \<Rightarrow> nat \<Rightarrow> nat \<Rightarrow> bool" where
  "outcome ca k P cs P' cs' rs d t \<longleftrightarrow>
     prod_inv ca k P' cs' \<and> grows (ca_thread ca) cs cs' rs \<and> same_config P P'
     \<and> dropped P' = (counterIncrement (ca_split ca) ^^ d) (dropped P)
     \<and> truncations P' = (counterIncrement (ca_split ca) ^^ t) (truncations P)"

lemma outcome_trans:
  assumes "outcome ca k P cs P' cs' rs d t" and "outcome ca k' P' cs' P'' cs'' rs' d' t'"
  shows "outcome ca k' P cs P'' cs'' (rs @ rs') (d + d') (t + t')"
proof -
  have fp: "(f ^^ b) ((f ^^ a) x) = (f ^^ (a + b)) x" for f :: "u64 \<Rightarrow> u64" and a b x
    by (simp add: funpow_add add.commute [of a])
  have "same_config P P''" using assms by (auto simp: outcome_def same_config_def)
  then show ?thesis using assms by (auto simp: outcome_def fp intro: grows_trans)
qed

lemma outcome_same_rest:
  "prod_inv ca k P' cs' \<Longrightarrow> grows (ca_thread ca) cs cs' rs \<Longrightarrow> same_rest P P' \<Longrightarrow> outcome ca k P cs P' cs' rs 0 0"
  by (auto simp: outcome_def same_rest_def same_config_def dropped_def truncations_def)

lemma outcome_refl: "prod_inv ca k P cs \<Longrightarrow> outcome ca k P cs P cs [] 0 0"
  by (rule outcome_same_rest) simp_all

lemma same_bytes [simp]: "\<exists>bs. s = s\<lparr>sg_bytes := bs\<rparr>"
  by (rule exI [of _ "sg_bytes s"]) simp

lemma outcome_drop:
  assumes "prod_inv ca k P cs"
  shows "outcome ca k P cs (dropRecord ca P) cs [] 1 0"
  using assms
  by (simp add: outcome_def dropRecord_def countDrop_def same_config_def dropped_def truncations_def
      seg_def prod_inv_def owns_def writer_def)

lemma outcome_note:
  assumes "prod_inv ca k P cs"
  shows "outcome ca k P cs (noteTruncation ca b P) cs [] 0 (if b then 1 else 0)"
  using assms
  by (simp add: outcome_def noteTruncation_def countTruncation_def same_config_def dropped_def truncations_def
      seg_def prod_inv_def owns_def writer_def)

text \<open>
  Reserving with retry: on success the reservation is the next slot of a writer that
  stands at the end of the thread's log; on failure one drop has been counted, because
  the segment was full or the record too large for any chunk of it.
\<close>

lemma reserveRecord_cases:
  assumes inv: "prod_inv ca (Suc (Suc k)) P cs" and r: "reserveRecord ca now now' n P = (res, P')"
  obtains (got) P0 cs' slot where "res = Some slot" "reserveIn n P0 = (Some slot, P')"
      "outcome ca k P cs P0 cs' [] 0 0" "owns ca P0"
    | (dropped) cs' where "res = None" "outcome ca k P cs P' cs' [] 1 0"
        "length cs' = unat (sg_chunkCount (seg P)) \<or> \<not> fitsEmpty P n"
proof -
  obtain ok1 P1 where c1: "currentWriter ca now P = (ok1, P1)" by (metis surj_pair)
  obtain cs1 where i1: "prod_inv ca (Suc k) P1 cs1" "grows (ca_thread ca) cs cs1 []" "same_rest P P1" "owns ca P1"
      "ok1 = cw_valid (writer P1)"
    by (rule currentWriter_inv [OF inv c1])
  define try1 where "try1 = (if ok1 then reserveIn n P1 else (None, P1))"
  obtain s1 P2 where t1: "try1 = (s1, P2)" by (metis surj_pair)
  show thesis
  proof (cases s1)
    case (Some s)
    then have "reserveIn n P1 = (Some s, P2)" using t1 by (auto simp: try1_def split: if_splits)
    moreover have "res = Some s" "P' = P2"
      using r c1 t1 Some by (simp_all add: reserveRecord_def try1_def [symmetric])
    moreover have "outcome ca k P cs P1 cs1 [] 0 0"
      using i1 prod_inv_mono [OF i1(1), of k] by (intro outcome_same_rest) simp_all
    ultimately show thesis using got i1(4) by simp
  next
    case None
    then have P2: "P2 = P1" using t1 by (auto simp: try1_def dest: reserveIn_refused split: if_splits)
    obtain ok2 P3 where c2: "refillWriter ca now' P1 = (ok2, P3)" by (metis surj_pair)
    obtain cs3 where i3: "prod_inv ca k P3 cs3" "grows (ca_thread ca) cs1 cs3 []" "same_rest P1 P3" "owns ca P3"
        "ok2 = cw_valid (writer P3)" "ok2 = (length cs1 < unat (sg_chunkCount (seg P1)))"
        "ok2 \<longrightarrow> remaining (writer P3) = unat (sg_chunkBytes (seg P1)) - 32"
      by (rule refillWriter_inv [OF i1(1) c2])
    have o3: "outcome ca k P cs P3 cs3 [] 0 0"
      using i1 i3 grows_trans [OF i1(2) i3(2)] same_rest_trans [OF i1(3) i3(3)]
      by (intro outcome_same_rest) simp_all
    have sP: "sg_chunkCount (seg P1) = sg_chunkCount (seg P)" "sg_chunkBytes (seg P1) = sg_chunkBytes (seg P)"
      using i1(3) by (auto simp: same_rest_def)
    define try2 where "try2 = (if ok2 then reserveIn n P3 else (None, P3))"
    obtain s2 P4 where t2: "try2 = (s2, P4)" by (metis surj_pair)
    show thesis
    proof (cases s2)
      case (Some s)
      then have "reserveIn n P3 = (Some s, P4)" using t2 by (auto simp: try2_def split: if_splits)
      moreover have "res = Some s" "P' = P4"
        using r c1 t1 None P2 c2 t2 Some by (simp_all add: reserveRecord_def try1_def [symmetric] try2_def [symmetric])
      ultimately show thesis using got o3 i3(4) by simp
    next
      case n2: None
      then have P4: "P4 = P3" using t2 by (auto simp: try2_def dest: reserveIn_refused split: if_splits)
      have res: "res = None" "P' = dropRecord ca P3"
        using r c1 t1 None P2 c2 t2 n2 P4
        by (simp_all add: reserveRecord_def try1_def [symmetric] try2_def [symmetric])
      have "length cs3 = unat (sg_chunkCount (seg P)) \<or> \<not> fitsEmpty P n"
      proof (cases ok2)
        case False
        then have "unat (sg_chunkCount (seg P1)) \<le> length cs3"
          using i3(2,6) by (simp add: grows_def)
        moreover have "length cs3 \<le> unat (sg_chunkCount (seg P3))" using i3(1) by (simp add: prod_inv_def seg_inv_def)
        moreover have "sg_chunkCount (seg P3) = sg_chunkCount (seg P1)" using i3(3) by (auto simp: same_rest_def)
        ultimately show ?thesis using sP by simp
      next
        case True
        then have "reserveIn n P3 = (None, P3)" using t2 n2 P4 by (simp add: try2_def)
        then have "\<not> (n \<le> 0xFFFF \<and> footprint n \<le> remaining (writer P3))"
          using reserve_next [of n "writer P3"] True i3(5) by (auto simp: reserveIn_def writer_def)
        then show ?thesis using i3(7) True sP by (auto simp: fitsEmpty_def)
      qed
      moreover have "outcome ca k P cs (dropRecord ca P3) cs3 ([] @ []) (0 + 1) (0 + 0)"
        by (rule outcome_trans [OF o3 outcome_drop]) (rule i3(1))
      ultimately show thesis using dropped res by simp
    qed
  qed
qed

text \<open>A record written through \<open>reserveRecord\<close>: appended, or one drop.\<close>

lemma reserved_append:
  assumes o0: "outcome ca k P cs P0 cs0 rs d t" and own: "owns ca P0" and r: "reserveIn (length p) P0 = (Some slot, P1)"
    and h: "unat (rh_payloadBytes h) = length p" "kindCanonical (rh_kind h)" "singleHead h"
  obtains cs' where "outcome ca k P cs (commitIn ca slot h (storePayload slot p P1)) cs' (rs @ [(headFor h (writer P0) 0, p)]) d t"
proof -
  have inv: "prod_inv ca k P0 cs0" using o0 by (simp add: outcome_def)
  note rD = reserveIn_SomeD [OF r]
  obtain slot' P' cs' where a: "reserveIn (length p) P0 = (Some slot', P')"
    "prod_inv ca k (commitIn ca slot' h (storePayload slot' p P')) cs'"
    "grows (ca_thread ca) cs0 cs' [(headFor h (writer P0) 0, p)]"
    "same_rest P0 (commitIn ca slot' h (storePayload slot' p P'))"
    by (rule append_one [OF inv own rD(2,3,1) h])
  then have "slot' = slot" "P' = P1" using r by simp_all
  then have "outcome ca k P0 cs0 (commitIn ca slot h (storePayload slot p P1)) cs' [(headFor h (writer P0) 0, p)] 0 0"
    using a by (intro outcome_same_rest) simp_all
  from that outcome_trans [OF o0 this] show thesis by simp
qed

lemma writeSubsystemDefinition_outcome:
  assumes inv: "prod_inv ca (Suc (Suc k)) P cs"
    and w: "writeSubsystemDefinition ca now now' ident name P = (ok, P')"
  defines "p \<equiv> subsystemPayload ident (take cInlineBytesCap name)"
  shows "if ok
    then \<exists>cs' h. outcome ca k P cs P' cs' [(h, p)] 0 (if cInlineBytesCap < length name then 1 else 0)
           \<and> rh_kind h = SubsystemDefinition
    else \<exists>cs'. outcome ca k P cs P' cs' [] 1 0"
proof -
  let ?trunc = "cInlineBytesCap < length name"
  have nm: "(if ?trunc then take cInlineBytesCap name else name) = take cInlineBytesCap name" by simp
  have lp: "cSubsystemDefinitionPayloadSize + length (take cInlineBytesCap name) = length p"
    by (simp add: p_def subsystemPayload_def struct_sizes)
  define h where "h = \<lparr>rh_payloadBytes = word_of_nat (length p), rh_kind = SubsystemDefinition,
    rh_flags = (if ?trunc then cFlagTruncated else 0), rh_sequence = (0 :: u16)\<rparr>"
  have "length p \<le> 520" by (simp add: p_def subsystemPayload_def cInlineBytesCap_def)
  then have h: "unat (rh_payloadBytes h) = length p" "kindCanonical (rh_kind h)" "singleHead h"
    by (simp_all add: h_def unat_of_nat singleHead_def flags_continued)
  obtain res P1 where r: "reserveRecord ca now now' (length p) P = (res, P1)" by (metis surj_pair)
  have w': "(ok, P') = (case res of None \<Rightarrow> (False, P1)
      | Some s \<Rightarrow> (True, noteTruncation ca ?trunc (commitIn ca s h (storePayload s p P1))))"
    using w unfolding writeSubsystemDefinition_def Let_def nm lp p_def [symmetric] r prod.case h_def [symmetric]
    by simp
  show ?thesis
    using inv r
  proof (cases rule: reserveRecord_cases)
    case (got P0 cs0 slot)
    obtain cs' where o: "outcome ca k P cs (commitIn ca slot h (storePayload slot p P1)) cs' ([] @ [(headFor h (writer P0) 0, p)]) 0 0"
      by (rule reserved_append [OF got(3,4,2) h])
    then have "prod_inv ca k (commitIn ca slot h (storePayload slot p P1)) cs'" by (simp add: outcome_def)
    from outcome_trans [OF o outcome_note [OF this, of ?trunc]] show ?thesis
      using w' got(1) by (auto simp: headFor_def h_def intro!: exI)
  next
    case (dropped cs')
    then show ?thesis using w' by auto
  qed
qed

definition exampleCaller :: "bool \<Rightarrow> Caller" where
  "exampleCaller split = \<lparr>ca_split = split, ca_self = 1, ca_thread = 3\<rparr>"

definition exampleProducer :: "bool \<Rightarrow> nat \<Rightarrow> Producer" where
  "exampleProducer split len = \<lparr>pr_logger = emptyLogger\<lparr>lg_segment := exampleSegment split len\<rparr>, pr_cache = emptyCache\<rparr>"

lemma exampleProducer_inv:
  assumes "320 \<le> len" and "len < 2 ^ 64" and "k \<le> Suc (2 ^ 64 - 2)"
  shows "prod_inv (exampleCaller split) k (exampleProducer split len) []"
  using seg_inv_mono [OF exampleSegment_inv assms(3)] assms(1,2)
  by (simp add: prod_inv_def seg_def exampleProducer_def exampleCaller_def owns_def emptyCache_def)

section \<open>Properties\<close>

datatype thresholdOp = SetAll Severity | SetOne u32 Severity

fun applyThreshold :: "Logger \<Rightarrow> thresholdOp \<Rightarrow> Logger" where
  "applyThreshold lg (SetAll v) = setThreshold v lg"
| "applyThreshold lg (SetOne s v) = setSubsystemThreshold s v lg"

text \<open>The threshold in force, from the history of settings, newest first.\<close>

fun inForce :: "thresholdOp list \<Rightarrow> u32 \<Rightarrow> Severity" where
  "inForce [] s = Trace"
| "inForce (SetAll v # ops) s = v"
| "inForce (SetOne s' v # ops) s = (if s' = s \<and> unat s < 64 then v else inForce ops s)"

lemma thresholds_table:
  "length (lg_subsystemThreshold (foldl applyThreshold emptyLogger ops)) = 64
    \<and> subsystemThreshold (foldl applyThreshold emptyLogger ops) s = inForce (rev ops) s"
proof (induction ops rule: rev_induct)
  case Nil
  show ?case by (simp add: emptyLogger_def subsystemThreshold_def cSubsystemLevels_def)
next
  case (snoc op ops)
  show ?case
  proof (cases op)
    case (SetAll v)
    then show ?thesis
      using snoc by (simp add: setThreshold_def subsystemThreshold_def cSubsystemLevels_def)
  next
    case (SetOne s' v)
    then show ?thesis
      using snoc
      by (auto simp: setSubsystemThreshold_def subsystemThreshold_def cSubsystemLevels_def nth_list_update
          word_unat_eq_iff)
  qed
qed

text \<open>
  Thresholds: after any sequence of process-wide and per-subsystem settings, the one
  load a call site makes yields the newest setting that applies to its subsystem; the
  table keeps its 64 slots, ids from 64 on follow the process-wide threshold only, and a
  process-wide setting overrides every individual one before it.
\<close>

theorem threshold_in_force:
  "subsystemThreshold (foldl applyThreshold emptyLogger ops) s = inForce (rev ops) s
    \<and> length (lg_subsystemThreshold (foldl applyThreshold emptyLogger ops)) = cSubsystemLevels"
  using thresholds_table by (simp add: cSubsystemLevels_def)

text \<open>
  Emits that find no bound Logger are counted exactly up to the cap, and the count
  stays there: it neither wraps nor stops early, on either atomics path.
\<close>

theorem unbound_emits_saturate:
  "unboundEmits (((\<lambda>p. snd (countUnboundEmit split p)) ^^ n)
      \<lparr>pc_active = 0, pc_detachedByFork = d, pc_unboundEmits = 0\<rparr>) = of_nat (min n 1024)"
proof -
  let ?p = "\<lambda>n. ((\<lambda>p. snd (countUnboundEmit split p)) ^^ n) \<lparr>pc_active = 0, pc_detachedByFork = d, pc_unboundEmits = 0\<rparr>"
  have u: "unat (of_nat (min n 1024) :: u64) = min n 1024" for n by (simp add: unat_of_nat)
  have "pc_unboundEmits (?p n) = of_nat (min n 1024)" for n
  proof (induction n)
    case (Suc n)
    show ?case
    proof (cases "n < 1024")
      case True
      then have "pc_unboundEmits (?p n) < cUnboundEmitCap" "pc_unboundEmits (?p n) = of_nat n"
        using Suc u [of n] by (simp_all add: word_less_nat_alt cUnboundEmitCap_def min_def)
      moreover have "counterIncrement split (of_nat n :: u64) = of_nat (Suc n)"
      proof -
        have "(ucast (of_nat n :: u64) + 1 :: u32) = of_nat (Suc n)"
          using True by (simp add: unsigned_of_nat take_bit_nat_eq_self)
        moreover have "ucast (of_nat (Suc n) :: u32) = (of_nat (Suc n) :: u64)"
          using True by (simp add: unsigned_of_nat take_bit_nat_eq_self del: of_nat_Suc)
        ultimately show ?thesis by (simp add: counterIncrement_def add.commute)
      qed
      ultimately show ?thesis using True by (simp add: countUnboundEmit_def)
    next
      case False
      then have "\<not> pc_unboundEmits (?p n) < cUnboundEmitCap" "pc_unboundEmits (?p n) = 1024"
        using Suc by (simp_all add: cUnboundEmitCap_def min_def)
      with False show ?thesis by (simp add: countUnboundEmit_def min_def)
    qed
  qed simp
  then show ?thesis by (simp add: unboundEmits_def)
qed

end
