(* ===== verification/Emit.thy ===== *)
theory Emit
  imports Instance Encode
begin

text \<open>
  \<^verbatim>\<open>include/sub0log/detail/emit.hpp\<close>: the enabled check, definition on first use,
  continuation chains and the message record.  A payload is assembled and stored with
  one \<open>store\<close> where the source copies its parts to consecutive addresses; what a reader
  sees of a half-written payload is covered by \<open>crash_keeps_committed\<close>.  \<open>clk i\<close> is the
  clock reading at the \<open>i\<close>-th point of a call that may take one: the definition's claim
  and refill (0, 1), the message's claim and refill (2, 3) and its time stamp (4).
\<close>

section \<open>The enabled check\<close>

text \<open>\<open>lg\<close> is the Logger at the bound address.\<close>

definition enabled :: "bool \<Rightarrow> Severity \<Rightarrow> u32 \<Rightarrow> Logger \<Rightarrow> Process \<Rightarrow> bool \<times> Process" where
  "enabled split severity subsystem lg p =
     (if pc_active p = 0 then countUnboundEmit split p
      else (atLeast severity (subsystemThreshold lg subsystem), p))"

section \<open>Site definitions\<close>

definition definitionPayloadBytes :: "nat \<Rightarrow> nat \<Rightarrow> nat \<Rightarrow> nat" where
  "definitionPayloadBytes argCount formatLen fileLen =
     unat (word_of_nat cSiteDefinitionPayloadSize + word_of_nat argCount
           + 2 + word_of_nat formatLen + 2 + word_of_nat fileLen :: u32)"

definition definitionPayload ::
  "u64 \<Rightarrow> u32 \<Rightarrow> Severity \<Rightarrow> bytes \<Rightarrow> bytes \<Rightarrow> u32 \<Rightarrow> u8 list \<Rightarrow> bytes" where
  "definitionPayload sid subsystem severity fmt file line typeCodes =
     SiteDefinitionPayload_bytes
       \<lparr>sdp_siteId = sid, sdp_subsystemId = subsystem, sdp_line = line, sdp_severity = sevCode severity,
        sdp_argCount = word_of_nat (length typeCodes), sdp_reserved0 = 0, sdp_reserved1 = 0\<rparr>
     @ typeCodes
     @ wordBytes (word_of_nat (length fmt) :: u16) @ fmt
     @ wordBytes (word_of_nat (length file) :: u16) @ file"

text \<open>Everything behind a successful reservation: payload, commit, truncation count.\<close>

definition finishDefinition ::
  "Caller \<Rightarrow> u64 \<Rightarrow> u32 \<Rightarrow> Severity \<Rightarrow> bytes \<Rightarrow> bytes \<Rightarrow> u32 \<Rightarrow> u8 list \<Rightarrow> bool \<Rightarrow> Reservation \<Rightarrow> Producer
    \<Rightarrow> bool \<times> Producer" where
  "finishDefinition ca sid subsystem severity fmt file line typeCodes truncated slot P =
     (let payload = definitionPayload sid subsystem severity fmt file line typeCodes;
          P1 = storePayload slot payload P;
          P2 = commitIn ca slot \<lparr>rh_payloadBytes = word_of_nat (length payload), rh_kind = SiteDefinition,
                 rh_flags = (if truncated then cFlagTruncated else 0), rh_sequence = 0\<rparr> P1
      in (True, noteTruncation ca truncated P2))"

text \<open>The lengths the two strings are cut to when not even an empty chunk takes them whole.\<close>

definition cutLengths :: "nat \<Rightarrow> nat \<Rightarrow> nat \<Rightarrow> nat \<Rightarrow> nat \<times> nat" where
  "cutLengths space argCount formatLen fileLen =
     (let emptyCapacity = min space 0xFFFF;
          fixedBytes = cSiteDefinitionPayloadSize + argCount + 4 + 8;
          available = (if fixedBytes < emptyCapacity then emptyCapacity - fixedBytes else 0);
          formatCap = available div 2;
          fileCap = available - formatCap
      in (min formatLen formatCap, min fileLen fileCap))"

definition writeSiteDefinitionCore ::
  "Caller \<Rightarrow> (nat \<Rightarrow> u64) \<Rightarrow> u64 \<Rightarrow> u32 \<Rightarrow> Severity \<Rightarrow> bytes \<Rightarrow> bytes \<Rightarrow> u32 \<Rightarrow> u8 list \<Rightarrow> Producer
    \<Rightarrow> bool \<times> Producer" where
  "writeSiteDefinitionCore ca clk sid subsystem severity fmt file line typeCodes P0 =
     (let argCount = length typeCodes;
          need = definitionPayloadBytes argCount (length fmt) (length file);
          (ok, P1) = currentWriter ca (clk 0) P0;
          (slot, P2) = (if ok then reserveIn need P1 else (None, P1))
      in case slot of
           Some s \<Rightarrow> finishDefinition ca sid subsystem severity fmt file line typeCodes False s P2
         | None \<Rightarrow>
           let (ok, P3) = refillWriter ca (clk 1) P2
           in if \<not> ok then (False, dropRecord ca P3)
              else
                let (slot, P4) = reserveIn need P3
                in case slot of
                     Some s \<Rightarrow> finishDefinition ca sid subsystem severity fmt file line typeCodes False s P4
                   | None \<Rightarrow>
                     let (formatLen, fileLen) =
                           cutLengths (remaining (wc_writer (pr_cache P4))) argCount (length fmt) (length file);
                         truncated = (formatLen < length fmt \<or> fileLen < length file);
                         (slot, P5) = reserveIn (definitionPayloadBytes argCount formatLen fileLen) P4
                     in case slot of
                          None \<Rightarrow> (False, dropRecord ca P5)
                        | Some s \<Rightarrow> finishDefinition ca sid subsystem severity (take formatLen fmt)
                                       (take fileLen file) line typeCodes truncated s P5)"

definition writeSiteDefinition ::
  "Caller \<Rightarrow> (nat \<Rightarrow> u64) \<Rightarrow> SiteDescriptor \<Rightarrow> arg list \<Rightarrow> Producer \<Rightarrow> bool \<times> Producer" where
  "writeSiteDefinition ca clk site args P =
     writeSiteDefinitionCore ca clk (siteId site) (sd_subsystem site) (sd_severity site) (sd_format site)
       (sd_file site) (sd_line site) (map (typeCodeByte \<circ> typeCodeFor) args) P"

section \<open>Continuation chains\<close>

record ArgOverflow =
  ao_tail :: bytes
  ao_length :: nat
  ao_argIndex :: u8

record ContinuationSlot =
  ct_reservation :: Reservation
  ct_source :: bytes
  ct_length :: nat
  ct_argIndex :: u8

definition recordFootprint :: "nat \<Rightarrow> nat" where
  "recordFootprint payloadBytes = 8 + unat (paddedPayload (word_of_nat payloadBytes))"

text \<open>The sizing loop over one argument's overflow.\<close>

function sliceNeeded :: "nat \<Rightarrow> nat" where
  "sliceNeeded left =
     (if left = 0 then 0
      else let sliceLen = min left cInlineBytesCap
           in recordFootprint (cContinuationPayloadSize + sliceLen) + sliceNeeded (left - sliceLen))"
  by auto
termination by (relation "measure id") (auto simp: cInlineBytesCap_def)

declare sliceNeeded.simps [simp del]

definition chainNeeded :: "nat \<Rightarrow> ArgOverflow list \<Rightarrow> nat" where
  "chainNeeded messagePayloadBytes overflows =
     foldl (\<lambda>needed overflow. needed + sliceNeeded (ao_length overflow))
       (recordFootprint messagePayloadBytes) overflows"

text \<open>
  The reserving loop over one overflow: the slots so far (\<open>slotCount\<close> is their number),
  the rest of the source and how much of it is left.  \<open>False\<close> is the early return.
\<close>

function reserveSlices ::
  "nat \<Rightarrow> u8 \<Rightarrow> ChunkWriter \<Rightarrow> ContinuationSlot list \<Rightarrow> bytes \<Rightarrow> nat
    \<Rightarrow> bool \<times> ContinuationSlot list \<times> ChunkWriter" where
  "reserveSlices maxSlots argIndex w contSlots source left =
     (if left = 0 then (True, contSlots, w)
      else
        let sliceLen = min left cInlineBytesCap;
            payloadBytes = cContinuationPayloadSize + sliceLen;
            (slot, w') = reserve w payloadBytes
        in case slot of
             None \<Rightarrow> (False, contSlots, w')
           | Some s \<Rightarrow>
             if maxSlots \<le> length contSlots then (False, contSlots, w')
             else reserveSlices maxSlots argIndex w'
                    (contSlots @ [\<lparr>ct_reservation = s, ct_source = source, ct_length = sliceLen,
                                   ct_argIndex = argIndex\<rparr>])
                    (drop sliceLen source) (left - sliceLen))"
  by pat_completeness auto
termination
  by (relation "measure (\<lambda>(maxSlots, argIndex, w, contSlots, source, left). left)")
    (auto simp: cInlineBytesCap_def)

declare reserveSlices.simps [simp del]

fun reserveOverflows ::
  "nat \<Rightarrow> ChunkWriter \<Rightarrow> ContinuationSlot list \<Rightarrow> ArgOverflow list \<Rightarrow> bool \<times> ContinuationSlot list \<times> ChunkWriter" where
  "reserveOverflows maxSlots w contSlots [] = (True, contSlots, w)"
| "reserveOverflows maxSlots w contSlots (overflow # overflows) =
     (let (ok, contSlots', w') =
            reserveSlices maxSlots (ao_argIndex overflow) w contSlots (ao_tail overflow) (ao_length overflow)
      in if \<not> ok then (False, contSlots', w') else reserveOverflows maxSlots w' contSlots' overflows)"

definition reserveChain ::
  "nat \<Rightarrow> ChunkWriter \<Rightarrow> nat \<Rightarrow> ArgOverflow list
    \<Rightarrow> (Reservation \<times> ContinuationSlot list) option \<times> ChunkWriter" where
  "reserveChain maxSlots w messagePayloadBytes overflows =
     (if remaining w < chainNeeded messagePayloadBytes overflows then (None, w)
      else
        let (messageSlot, w1) = reserve w messagePayloadBytes
        in case messageSlot of
             None \<Rightarrow> (None, w1)
           | Some m \<Rightarrow>
             let (ok, contSlots, w2) = reserveOverflows maxSlots w1 [] overflows
             in if ok then (Some (m, contSlots), w2) else (None, w2))"

definition reserveChainIn ::
  "nat \<Rightarrow> nat \<Rightarrow> ArgOverflow list \<Rightarrow> Producer \<Rightarrow> (Reservation \<times> ContinuationSlot list) option \<times> Producer" where
  "reserveChainIn maxSlots messagePayloadBytes overflows P =
     (let (res, w) = reserveChain maxSlots (wc_writer (pr_cache P)) messagePayloadBytes overflows
      in (res, P\<lparr>pr_cache := (pr_cache P)\<lparr>wc_writer := w\<rparr>\<rparr>))"

section \<open>Sizing the arguments\<close>

definition clampedLen :: "arg \<Rightarrow> nat" where
  "clampedLen a = min (snd (rawBytesOf a)) cArgCeiling"

definition pastCeiling :: "arg \<Rightarrow> bool" where
  "pastCeiling a \<longleftrightarrow> isByteArg a \<and> cArgCeiling < snd (rawBytesOf a)"

definition inlineLen :: "arg \<Rightarrow> nat" where
  "inlineLen a = (if isByteArg a then min (clampedLen a) cInlineBytesCap else 0)"

definition overflowLen :: "arg \<Rightarrow> nat" where
  "overflowLen a = (if isByteArg a then clampedLen a - inlineLen a else 0)"

definition argWireBytes :: "arg \<Rightarrow> nat" where
  "argWireBytes a = (if isByteArg a then 2 + inlineLen a else fixedWireSize a)"

definition overflowsOf :: "arg list \<Rightarrow> ArgOverflow list" where
  "overflowsOf args =
     map (\<lambda>(i, a). \<lparr>ao_tail = drop (inlineLen a) (fst (rawBytesOf a)), ao_length = overflowLen a,
                    ao_argIndex = word_of_nat i\<rparr>)
       (filter (\<lambda>(i, a). 0 < overflowLen a) (enumerate 0 args))"

definition chainedArgBytes :: "arg \<Rightarrow> bytes" where
  "chainedArgBytes a =
     (if isByteArg a
      then wordBytes (word_of_nat (inlineLen a) :: u16) @ take (inlineLen a) (fst (rawBytesOf a))
      else encodeFixedOne a)"

definition messageBytes :: "u64 \<Rightarrow> u64 \<Rightarrow> u64 \<Rightarrow> bytes \<Rightarrow> bytes" where
  "messageBytes sid now correlation args =
     MessagePayload_bytes \<lparr>mp_siteId = sid, mp_monoNs = now, mp_correlationId = correlation\<rparr> @ args"

definition continuationBytes :: "u64 \<Rightarrow> ContinuationSlot \<Rightarrow> bytes" where
  "continuationBytes sid cont =
     ContinuationPayload_bytes \<lparr>cp_siteId = sid, cp_argIndex = ct_argIndex cont, cp_reserved0 = 0,
       cp_reserved1 = 0, cp_reserved2 = 0\<rparr> @ take (ct_length cont) (ct_source cont)"

definition stampCorrelation :: "u64 \<Rightarrow> Logger \<Rightarrow> u64" where
  "stampCorrelation scoped lg = (if scoped \<noteq> 0 then scoped else lg_rootCorrelation lg)"

section \<open>Emitting\<close>

text \<open>The two loops over the chain's slots: payloads first, then the commits, last-promising.\<close>

definition writeContinuations :: "u64 \<Rightarrow> ContinuationSlot list \<Rightarrow> Producer \<Rightarrow> Producer" where
  "writeContinuations sid conts P =
     foldl (\<lambda>P cont. storePayload (ct_reservation cont) (continuationBytes sid cont) P) P conts"

definition continuationHead :: "ContinuationSlot list \<Rightarrow> nat \<Rightarrow> RecordHead" where
  "continuationHead conts s =
     \<lparr>rh_payloadBytes = word_of_nat (cContinuationPayloadSize + ct_length (conts ! s)),
      rh_kind = Continuation, rh_flags = (if s + 1 < length conts then cFlagContinued else 0),
      rh_sequence = 0\<rparr>"

definition commitContinuations :: "Caller \<Rightarrow> ContinuationSlot list \<Rightarrow> Producer \<Rightarrow> Producer" where
  "commitContinuations ca conts P =
     foldl (\<lambda>P s. commitIn ca (ct_reservation (conts ! s)) (continuationHead conts s) P) P [0 ..< length conts]"

definition messageHead :: "nat \<Rightarrow> bool \<Rightarrow> bool \<Rightarrow> RecordHead" where
  "messageHead payloadBytes truncated continued =
     \<lparr>rh_payloadBytes = word_of_nat payloadBytes, rh_kind = Message,
      rh_flags = (if truncated then cFlagTruncated else 0) OR (if continued then cFlagContinued else 0),
      rh_sequence = 0\<rparr>"

definition publishChain ::
  "Caller \<Rightarrow> u64 \<Rightarrow> u64 \<Rightarrow> u64 \<Rightarrow> arg list \<Rightarrow> nat \<Rightarrow> bool \<Rightarrow> Reservation \<Rightarrow> ContinuationSlot list \<Rightarrow> Producer
    \<Rightarrow> Producer" where
  "publishChain ca sid now scoped args messagePayloadBytes anyTruncated msgSlot conts P0 =
     (let correlation = stampCorrelation scoped (pr_logger P0);
          P1 = storePayload msgSlot (messageBytes sid now correlation (concat (map chainedArgBytes args))) P0;
          P2 = writeContinuations sid conts P1;
          P3 = commitContinuations ca conts P2;
          P4 = commitIn ca msgSlot (messageHead messagePayloadBytes anyTruncated (conts \<noteq> [])) P3
      in noteTruncation ca anyTruncated P4)"

definition emitChained ::
  "Caller \<Rightarrow> (nat \<Rightarrow> u64) \<Rightarrow> u64 \<Rightarrow> u64 \<Rightarrow> arg list \<Rightarrow> Producer \<Rightarrow> Producer" where
  "emitChained ca clk scoped sid args P0 =
     (let maxSlots = length args * cMaxContinuations;
          overflows = overflowsOf args;
          anyTruncated = list_ex pastCeiling args;
          messagePayloadBytes = cMessagePayloadSize + sum_list (map argWireBytes args);
          (ok, P1) = currentWriter ca (clk 2) P0;
          (res, P2) = (if ok then reserveChainIn maxSlots messagePayloadBytes overflows P1 else (None, P1))
      in case res of
           Some (m, conts) \<Rightarrow>
             publishChain ca sid (clk 4) scoped args messagePayloadBytes anyTruncated m conts P2
         | None \<Rightarrow>
           let (ok, P3) = refillWriter ca (clk 3) P2;
               (res, P4) = (if ok then reserveChainIn maxSlots messagePayloadBytes overflows P3 else (None, P3))
           in case res of
                Some (m, conts) \<Rightarrow>
                  publishChain ca sid (clk 4) scoped args messagePayloadBytes anyTruncated m conts P4
              | None \<Rightarrow>
                if \<not> ok then dropRecord ca P4
                else
                  let (slot, P5) = reserveIn messagePayloadBytes P4
                  in case slot of
                       None \<Rightarrow> dropRecord ca P5
                     | Some m \<Rightarrow> publishChain ca sid (clk 4) scoped args messagePayloadBytes True m [] P5)"

text \<open>The body for a pack without byte arguments.\<close>

definition emitPlain ::
  "Caller \<Rightarrow> (nat \<Rightarrow> u64) \<Rightarrow> u64 \<Rightarrow> u64 \<Rightarrow> arg list \<Rightarrow> Producer \<Rightarrow> Producer" where
  "emitPlain ca clk scoped sid args P0 =
     (let argsBytes = upperBoundSize args;
          payloadBytes = cMessagePayloadSize + argsBytes;
          (slot, P1) = reserveRecord ca (clk 2) (clk 3) payloadBytes P0
      in case slot of
           None \<Rightarrow> P1
         | Some s \<Rightarrow>
           let correlation = stampCorrelation scoped (pr_logger P1);
               (out, encoded) = encodeArgs (payloadBytes - cMessagePayloadSize) args;
               P2 = storePayload s (messageBytes sid (clk 4) correlation out) P1;
               P3 = commitIn ca s (messageHead (cMessagePayloadSize + er_bytes encoded)
                                     (er_truncated encoded) False) P2
           in noteTruncation ca (er_truncated encoded) P3)"

text \<open>
  The whole emit.  \<open>bound\<close> says whether an instance is active; the descriptor comes back
  with its announced key.
\<close>

definition emitRecord ::
  "Caller \<Rightarrow> (nat \<Rightarrow> u64) \<Rightarrow> u64 \<Rightarrow> bool \<Rightarrow> SiteDescriptor \<Rightarrow> arg list \<Rightarrow> Producer
    \<Rightarrow> SiteDescriptor \<times> Producer" where
  "emitRecord ca clk scoped bound site args P0 =
     (if \<not> bound then (site, P0)
      else
        let key = announceKey (ca_split ca) (lg_segment (pr_logger P0));
            (ok, P1) = (if sd_announcedKey site \<noteq> key then writeSiteDefinition ca clk site args P0
                        else (True, P0))
        in if \<not> ok then (site, P1)
           else
             let site' = (if sd_announcedKey site \<noteq> key then site\<lparr>sd_announcedKey := key\<rparr> else site)
             in (site', if hasByteArg args then emitChained ca clk scoped (siteId site) args P1
                        else emitPlain ca clk scoped (siteId site) args P1))"

section \<open>Arguments of a message\<close>

lemma inlineLen_eq: "isByteArg a \<Longrightarrow> inlineLen a = min (snd (rawBytesOf a)) cInlineBytesCap"
  by (auto simp: inlineLen_def clampedLen_def cArgCeiling_def cInlineBytesCap_def cMaxContinuations_def min_def)

lemma rawBytesOf_CString:
  "rawBytesOf (ACString p) = (case p of None \<Rightarrow> ([], 0) | Some cs \<Rightarrow> (cs, scanLength (cArgCeiling + 1) cs))"
  by (cases p) simp_all

lemma chainedArgBytes_encoded: "chainedArgBytes a = encodedArg a"
proof (cases "isByteArg a")
  case True
  have "cInlineBytesCap \<le> cArgCeiling + 1" by (simp add: cArgCeiling_def cInlineBytesCap_def)
  then have "min (scanLength (cArgCeiling + 1) cs) cInlineBytesCap = scanLength cInlineBytesCap cs" for cs
    using scanLength_min [of cInlineBytesCap "cArgCeiling + 1" cs] by (simp add: min.commute)
  with True show ?thesis
    by (cases a) (auto simp: chainedArgBytes_def inlineLen_eq rawBytesOf_CString boundedLength_def split: option.splits)
next
  case False
  then show ?thesis by (cases a) (simp_all add: chainedArgBytes_def)
qed

lemma rawBytesOf_length: "snd (rawBytesOf a) \<le> length (fst (rawBytesOf a))"
  by (cases a rule: rawBytesOf.cases) (simp_all add: scanLength_le)

lemma argWireBytes_length: "argWireBytes a = length (chainedArgBytes a)"
proof (cases "isByteArg a")
  case True
  have "inlineLen a \<le> length (fst (rawBytesOf a))"
    using rawBytesOf_length [of a] by (simp add: inlineLen_eq True)
  with True show ?thesis by (simp add: argWireBytes_def chainedArgBytes_def)
next
  case False
  then show ?thesis by (simp add: argWireBytes_def chainedArgBytes_def length_encodeFixedOne)
qed

lemma argWireBytes_sum: "sum_list (map argWireBytes args) = length (concat (map encodedArg args))"
  by (induction args) (simp_all add: argWireBytes_length chainedArgBytes_encoded)

text \<open>The bytes of an argument that do not fit inline, and the slices they travel in.\<close>

definition overflowBytes :: "arg \<Rightarrow> bytes" where
  "overflowBytes a = take (overflowLen a) (drop (inlineLen a) (fst (rawBytesOf a)))"

function slices :: "bytes \<Rightarrow> bytes list" where
  "slices xs = (if xs = [] then [] else take cInlineBytesCap xs # slices (drop cInlineBytesCap xs))"
  by auto
termination by (relation "measure length") (auto simp: cInlineBytesCap_def)

declare slices.simps [simp del]

lemma slices_Nil [simp]: "slices [] = []"
  by (simp add: slices.simps)

lemma concat_slices: "concat (slices xs) = xs"
  by (induction xs rule: slices.induct) (subst slices.simps, simp)

lemma slices_length: "x \<in> set (slices xs) \<Longrightarrow> length x \<le> cInlineBytesCap"
  by (induction xs rule: slices.induct) (subst (asm) (2) slices.simps, auto split: if_splits)

lemma length_slices: "length xs \<le> n * cInlineBytesCap \<Longrightarrow> length (slices xs) \<le> n"
proof (induction xs arbitrary: n rule: slices.induct)
  case (1 xs)
  show ?case
  proof (cases "xs = []")
    case False
    then obtain m where n: "n = Suc m" using 1(2) by (cases n) auto
    have "length (drop cInlineBytesCap xs) \<le> m * cInlineBytesCap" using 1(2) by (simp add: n)
    from 1(1) [OF False this] False show ?thesis by (subst slices.simps) (simp add: n)
  qed simp
qed

lemma overflowBytes_length: "length (overflowBytes a) = overflowLen a"
  using rawBytesOf_length [of a]
  by (auto simp: overflowBytes_def overflowLen_def clampedLen_def)

lemma overflow_slices: "length (slices (overflowBytes a)) \<le> cMaxContinuations"
proof (rule length_slices)
  show "length (overflowBytes a) \<le> cMaxContinuations * cInlineBytesCap"
    unfolding overflowBytes_length
    by (auto simp: overflowLen_def inlineLen_def clampedLen_def cArgCeiling_def cInlineBytesCap_def
        cMaxContinuations_def)
qed

text \<open>All of a message's slices with the index of the argument each extends, in wire order.\<close>

definition slicesOf :: "arg list \<Rightarrow> (nat \<times> bytes) list" where
  "slicesOf args = concat (map (\<lambda>(i, a). map (Pair i) (slices (overflowBytes a))) (enumerate 0 args))"

section \<open>Reserving a chain\<close>

lemma recordFootprint_small: "n \<le> 0xFFFF \<Longrightarrow> recordFootprint n = footprint n"
  by (simp add: recordFootprint_def footprint_def unat_padded_small)

definition contBytes :: "bytes \<Rightarrow> nat" where
  "contBytes x = cContinuationPayloadSize + length x"

lemma contBytes_le: "x \<in> set (slices xs) \<Longrightarrow> contBytes x \<le> 0xFFFF"
  using slices_length [of x xs] by (simp add: contBytes_def struct_sizes cInlineBytesCap_def)

lemma sliceNeeded_eq: "sliceNeeded (length xs) = groupSize (map contBytes (slices xs))"
proof (induction xs rule: slices.induct)
  case (1 xs)
  show ?case
  proof (cases "xs = []")
    case False
    have "contBytes (take cInlineBytesCap xs) \<le> 0xFFFF"
      by (simp add: contBytes_def struct_sizes cInlineBytesCap_def)
    then have "recordFootprint (cContinuationPayloadSize + min (length xs) cInlineBytesCap)
        = footprint (contBytes (take cInlineBytesCap xs))"
      by (simp add: recordFootprint_small contBytes_def)
    moreover have "length xs - min (length xs) cInlineBytesCap = length (drop cInlineBytesCap xs)" by simp
    ultimately show ?thesis
      using 1(1) [OF False] False by (subst sliceNeeded.simps, subst slices.simps) (simp add: Let_def)
  qed (simp add: sliceNeeded.simps)
qed

lemma slotsFor_append: "slotsFor w (ns @ ms) = slotsFor w ns @ slotsFor (advanceAll w ns) ms"
  by (induction w ns rule: slotsFor.induct) simp_all

lemma advanceAll_append: "advanceAll w (ns @ ms) = advanceAll (advanceAll w ns) ms"
  by (induction w ns rule: advanceAll.induct) simp_all

lemma groupSize_append: "groupSize (ns @ ms) = groupSize ns + groupSize ms"
  by (simp add: groupSize_def)

lemma advanceAll_valid [simp]: "cw_valid (advanceAll w ns) = cw_valid w"
  by (induction w ns rule: advanceAll.induct) simp_all

lemma remaining_advanceAll:
  "cw_valid w \<Longrightarrow> groupSize ns \<le> remaining w \<Longrightarrow> remaining (advanceAll w ns) = remaining w - groupSize ns"
  by (induction w ns rule: advanceAll.induct) (simp_all add: remaining_advance)

text \<open>Slots that stand for the slices \<open>ss\<close>, at the reservations \<open>rs\<close>.\<close>

definition carries :: "ContinuationSlot list \<Rightarrow> Reservation list \<Rightarrow> (nat \<times> bytes) list \<Rightarrow> bool" where
  "carries conts rs ss \<longleftrightarrow>
     map ct_reservation conts = rs
     \<and> map (\<lambda>c. (ct_argIndex c, take (ct_length c) (ct_source c))) conts = map (\<lambda>(i, x). (word_of_nat i, x)) ss
     \<and> map ct_length conts = map (length \<circ> snd) ss"

lemma carries_simps [simp]:
  "carries [] [] []"
  "carries (c # conts) (r # rs) (s # ss) \<longleftrightarrow>
     ct_reservation c = r \<and> ct_argIndex c = word_of_nat (fst s) \<and> take (ct_length c) (ct_source c) = snd s
     \<and> ct_length c = length (snd s) \<and> carries conts rs ss"
  by (auto simp: carries_def split: prod.splits)

lemma carries_append: "carries conts rs ss \<Longrightarrow> carries conts' rs' ss' \<Longrightarrow> carries (conts @ conts') (rs @ rs') (ss @ ss')"
  by (simp add: carries_def)

lemma reserveSlices_ok:
  assumes "cw_valid w" and "groupSize (map contBytes (slices xs)) \<le> remaining w"
    and "length acc + length (slices xs) \<le> maxSlots" and "take (length xs) source = xs"
  shows "\<exists>conts. reserveSlices maxSlots (word_of_nat i) w acc source (length xs)
       = (True, acc @ conts, advanceAll w (map contBytes (slices xs)))
     \<and> carries conts (slotsFor w (map contBytes (slices xs))) (map (Pair i) (slices xs))"
  using assms
proof (induction xs arbitrary: w acc source rule: slices.induct)
  case (1 xs)
  show ?case
  proof (cases "xs = []")
    case True
    then show ?thesis by (simp add: reserveSlices.simps)
  next
    case False
    let ?x = "take cInlineBytesCap xs" and ?xs = "drop cInlineBytesCap xs"
    let ?n = "contBytes ?x" and ?src = "drop (length ?x) source"
    have sl: "slices xs = ?x # slices ?xs" using False by (subst slices.simps) simp
    have n: "?n \<le> 0xFFFF" by (simp add: contBytes_def struct_sizes cInlineBytesCap_def)
    have room: "footprint ?n \<le> remaining w" "groupSize (map contBytes (slices ?xs)) \<le> remaining (advance w ?n)"
      using 1(2,3) by (simp_all add: sl remaining_advance)
    have r: "reserve w ?n = (Some (nextSlot w), advance w ?n)" using reserve_next [OF n 1(2) room(1)] .
    let ?c = "\<lparr>ct_reservation = nextSlot w, ct_source = source, ct_length = length ?x, ct_argIndex = word_of_nat i :: u8\<rparr>"
    have src: "take (length ?x) source = ?x"
      using arg_cong [OF 1(5), of "take (length ?x)"] by (simp add: min_def split: if_splits)
    have "take (length ?xs) ?src = ?xs"
    proof -
      have "?xs = drop (length ?x) (take (length xs) source)" unfolding 1(5) by (simp add: min_def)
      also have "\<dots> = take (length ?xs) ?src" by (simp add: drop_take min_def)
      finally show ?thesis by (simp add: min_def split: if_splits)
    qed
    then obtain conts where c: "reserveSlices maxSlots (word_of_nat i) (advance w ?n) (acc @ [?c]) ?src (length ?xs)
        = (True, (acc @ [?c]) @ conts, advanceAll (advance w ?n) (map contBytes (slices ?xs)))"
      "carries conts (slotsFor (advance w ?n) (map contBytes (slices ?xs))) (map (Pair i) (slices ?xs))"
      using 1(1) [OF False, of "advance w ?n" "acc @ [?c]" ?src] 1(2,4) room(2) by (auto simp: sl)
    have l: "min (length xs) cInlineBytesCap = length ?x" "length xs - length ?x = length ?xs" by simp_all
    have "reserveSlices maxSlots (word_of_nat i) w acc source (length xs)
        = reserveSlices maxSlots (word_of_nat i) (advance w ?n) (acc @ [?c]) ?src (length ?xs)"
      using False 1(4) r unfolding contBytes_def
      by (subst reserveSlices.simps) (simp add: Let_def l sl del: length_take length_drop)
    then show ?thesis using c src by (intro exI [of _ "?c # conts"]) (simp add: sl)
  qed
qed

definition contSizes :: "(nat \<times> bytes) list \<Rightarrow> nat list" where
  "contSizes ss = map (contBytes \<circ> snd) ss"

text \<open>The overflow list against the slices it gives rise to.\<close>

definition overflowFor :: "nat \<times> arg \<Rightarrow> ArgOverflow" where
  "overflowFor = (\<lambda>(i, a). \<lparr>ao_tail = drop (inlineLen a) (fst (rawBytesOf a)), ao_length = overflowLen a,
     ao_argIndex = word_of_nat i\<rparr>)"

definition sliceList :: "(nat \<times> arg) list \<Rightarrow> (nat \<times> bytes) list" where
  "sliceList ias = concat (map (\<lambda>(i, a). map (Pair i) (slices (overflowBytes a))) ias)"

lemma sliceList_simps [simp]:
  "sliceList [] = []"
  "sliceList ((i, a) # ias) = map (Pair i) (slices (overflowBytes a)) @ sliceList ias"
  by (simp_all add: sliceList_def)

lemma contSizes_simps [simp]:
  "contSizes [] = []" "contSizes (ss @ ss') = contSizes ss @ contSizes ss'"
  "contSizes (map (Pair i) xs) = map contBytes xs"
  by (simp_all add: contSizes_def comp_def)

lemma overflowsOf_eq: "overflowsOf args = map overflowFor (filter (\<lambda>(i, a). 0 < overflowLen a) (enumerate 0 args))"
  by (simp add: overflowsOf_def overflowFor_def)

lemma slicesOf_filter: "slicesOf args = sliceList (filter (\<lambda>(i, a). 0 < overflowLen a) (enumerate 0 args))"
proof -
  have "sliceList ias = sliceList (filter (\<lambda>(i, a). 0 < overflowLen a) ias)" for ias
  proof (induction ias)
    case (Cons ia ias)
    obtain i a where ia: "ia = (i, a)" by (cases ia)
    have "overflowBytes a = []" if "overflowLen a = 0" using that by (simp add: overflowBytes_def)
    with Cons show ?case by (auto simp: ia)
  qed simp
  then show ?thesis by (simp add: slicesOf_def sliceList_def)
qed

lemma chainNeeded_eq:
  "chainNeeded n (map overflowFor ias) = recordFootprint n + groupSize (contSizes (sliceList ias))"
proof -
  have "foldl (\<lambda>needed overflow. needed + sliceNeeded (ao_length overflow)) m (map overflowFor ias)
      = m + groupSize (contSizes (sliceList ias))" for m
  proof (induction ias arbitrary: m)
    case (Cons ia ias)
    obtain i a where ia: "ia = (i, a)" by (cases ia)
    have "sliceNeeded (overflowLen a) = groupSize (map contBytes (slices (overflowBytes a)))"
      using sliceNeeded_eq [of "overflowBytes a"] by (simp add: overflowBytes_length)
    with Cons show ?case by (simp add: ia overflowFor_def groupSize_append)
  qed simp
  then show ?thesis by (simp add: chainNeeded_def)
qed

lemma reserveOverflows_ok:
  assumes "cw_valid w" and "groupSize (contSizes (sliceList ias)) \<le> remaining w"
    and "length acc + length (sliceList ias) \<le> maxSlots"
  shows "\<exists>conts. reserveOverflows maxSlots w acc (map overflowFor ias)
       = (True, acc @ conts, advanceAll w (contSizes (sliceList ias)))
     \<and> carries conts (slotsFor w (contSizes (sliceList ias))) (sliceList ias)"
  using assms
proof (induction ias arbitrary: w acc)
  case Nil
  then show ?case by simp
next
  case (Cons ia ias)
  obtain i a where ia: "ia = (i, a)" by (cases ia)
  let ?xs = "overflowBytes a" and ?w = "advanceAll w (map contBytes (slices (overflowBytes a)))"
  have room: "groupSize (map contBytes (slices ?xs)) \<le> remaining w"
    "groupSize (contSizes (sliceList ias)) \<le> remaining ?w"
    using Cons.prems by (simp_all add: ia groupSize_append remaining_advanceAll)
  have "take (length ?xs) (drop (inlineLen a) (fst (rawBytesOf a))) = ?xs"
    by (simp add: overflowBytes_length) (simp add: overflowBytes_def)
  then obtain c1 where c1: "reserveSlices maxSlots (word_of_nat i) w acc (drop (inlineLen a) (fst (rawBytesOf a)))
      (length ?xs) = (True, acc @ c1, ?w)"
    "carries c1 (slotsFor w (map contBytes (slices ?xs))) (map (Pair i) (slices ?xs))"
    using reserveSlices_ok [OF Cons.prems(1) room(1), of acc maxSlots _ i] Cons.prems(3) by (auto simp: ia)
  have lc: "length c1 = length (slices ?xs)" using c1(2) by (auto simp: carries_def dest: map_eq_imp_length_eq)
  obtain c2 where c2: "reserveOverflows maxSlots ?w (acc @ c1) (map overflowFor ias)
       = (True, (acc @ c1) @ c2, advanceAll ?w (contSizes (sliceList ias)))"
     "carries c2 (slotsFor ?w (contSizes (sliceList ias))) (sliceList ias)"
    using Cons.IH [of ?w "acc @ c1"] Cons.prems room(2) lc by (auto simp: ia)
  have "reserveOverflows maxSlots w acc (map overflowFor (ia # ias))
      = (True, acc @ c1 @ c2, advanceAll w (contSizes (sliceList (ia # ias))))"
    using c1(1) c2(1) by (simp add: ia overflowFor_def overflowBytes_length advanceAll_append)
  moreover have "carries (c1 @ c2) (slotsFor w (contSizes (sliceList (ia # ias)))) (sliceList (ia # ias))"
    using carries_append [OF c1(2) c2(2)] by (simp add: ia slotsFor_append)
  ultimately show ?case by blast
qed

text \<open>There is always an array element for a slice.\<close>

lemma length_slicesOf: "length (slicesOf args) \<le> length args * cMaxContinuations"
proof -
  have "length (sliceList ias) \<le> length ias * cMaxContinuations" for ias
  proof (induction ias)
    case (Cons ia ias)
    then show ?case using overflow_slices [of "snd ia"] by (cases ia) simp
  qed simp
  from this [of "enumerate 0 args"] show ?thesis by (simp add: slicesOf_def sliceList_def)
qed

text \<open>
  The chain's reservation is all or nothing: the sizes add up to what the sizing loop
  computed, so the early return inside the reserving loops is never taken.
\<close>

lemma reserveChain_cases:
  assumes "cw_valid w" and "n \<le> 0xFFFF" and sizes_def: "sizes = n # contSizes (slicesOf args)"
  shows "if groupSize sizes \<le> remaining w
    then \<exists>conts. reserveChain (length args * cMaxContinuations) w n (overflowsOf args)
             = (Some (nextSlot w, conts), advanceAll w sizes)
           \<and> carries conts (slotsFor (advance w n) (contSizes (slicesOf args))) (slicesOf args)
    else reserveChain (length args * cMaxContinuations) w n (overflowsOf args) = (None, w)"
proof -
  let ?ias = "filter (\<lambda>(i, a). 0 < overflowLen a) (enumerate 0 args)"
  have need: "chainNeeded n (overflowsOf args) = groupSize sizes"
    using assms(2) by (simp add: overflowsOf_eq chainNeeded_eq recordFootprint_small sizes_def slicesOf_filter)
  show ?thesis
  proof (cases "groupSize sizes \<le> remaining w")
    case True
    have r: "reserve w n = (Some (nextSlot w), advance w n)"
      using True assms by (intro reserve_next) (simp_all add: sizes_def)
    have "groupSize (contSizes (sliceList ?ias)) \<le> remaining (advance w n)"
      using True assms(1) by (simp add: sizes_def remaining_advance slicesOf_filter)
    then obtain conts where "reserveOverflows (length args * cMaxContinuations) (advance w n) [] (overflowsOf args)
        = (True, conts, advanceAll (advance w n) (contSizes (slicesOf args)))"
      "carries conts (slotsFor (advance w n) (contSizes (slicesOf args))) (slicesOf args)"
      using reserveOverflows_ok [of "advance w n" ?ias "[]" "length args * cMaxContinuations"]
        length_slicesOf [of args] assms(1) by (auto simp: overflowsOf_eq slicesOf_filter)
    with True need r show ?thesis by (simp add: reserveChain_def sizes_def)
  next
    case False
    then show ?thesis using need by (simp add: reserveChain_def)
  qed
qed

section \<open>Publishing a chain\<close>

lemma continuationBytes_carries:
  assumes "carries conts rs ss"
  shows "map (continuationBytes sid) conts = map (slicePayload sid) ss"
    and "length conts = length ss" and "map ct_reservation conts = rs"
    and "j < length ss \<Longrightarrow> ct_length (conts ! j) = length (snd (ss ! j))"
proof -
  show l: "length conts = length ss" and "map ct_reservation conts = rs"
    using assms by (auto simp: carries_def dest: map_eq_imp_length_eq)
  have n: "ct_argIndex (conts ! j) = word_of_nat (fst (ss ! j))"
    "take (ct_length (conts ! j)) (ct_source (conts ! j)) = snd (ss ! j)"
    "ct_length (conts ! j) = length (snd (ss ! j))" if "j < length ss" for j
  proof -
    let ?f = "\<lambda>c. (ct_argIndex c, take (ct_length c) (ct_source c))" and ?g = "\<lambda>(i, x). (word_of_nat i, x)"
    have "map ?f conts ! j = map ?g ss ! j" "map ct_length conts ! j = map (length \<circ> snd) ss ! j"
      using assms by (simp_all only: carries_def)
    then show "ct_argIndex (conts ! j) = word_of_nat (fst (ss ! j))"
      "take (ct_length (conts ! j)) (ct_source (conts ! j)) = snd (ss ! j)"
      "ct_length (conts ! j) = length (snd (ss ! j))"
      using that l by (auto simp: case_prod_beta)
  qed
  show "map (continuationBytes sid) conts = map (slicePayload sid) ss"
    using l n by (intro nth_equalityI) (simp_all add: continuationBytes_def slicePayload_def)
  show "j < length ss \<Longrightarrow> ct_length (conts ! j) = length (snd (ss ! j))" by (rule n)
qed

definition chainHeads :: "RecordHead \<Rightarrow> (nat \<times> bytes) list \<Rightarrow> RecordHead list" where
  "chainHeads h ss = h # map (\<lambda>j. \<lparr>rh_payloadBytes = word_of_nat (contBytes (snd (ss ! j))), rh_kind = Continuation,
     rh_flags = (if j + 1 < length ss then cFlagContinued else 0), rh_sequence = 0\<rparr>) [0 ..< length ss]"

lemma updateBytes_updateBytes: "updateBytes g (updateBytes f P) = updateBytes (g \<circ> f) P"
  by (simp add: updateBytes_def)

lemma updateBytes_id: "updateBytes (\<lambda>bs. bs) P = P"
  by (simp add: updateBytes_def)

lemma writeContinuations_eq:
  "writeContinuations sid conts P
    = updateBytes (\<lambda>bs. storeAll bs (map ct_reservation conts) (map (continuationBytes sid) conts)) P"
proof (induction conts arbitrary: P)
  case (Cons c conts)
  show ?case
    using Cons [of "storePayload (ct_reservation c) (continuationBytes sid c) P"]
    by (simp add: writeContinuations_def storePayload_def updateBytes_updateBytes comp_def)
qed (simp add: writeContinuations_def updateBytes_id)

lemma commitAll_append:
  "commitAll split bs slots hs (js @ js') = commitAll split (commitAll split bs slots hs js) slots hs js'"
  by (induction js arbitrary: bs) simp_all

lemma commitContinuations_eq:
  assumes "carries conts rs ss"
  shows "commitContinuations ca conts P
    = updateBytes (\<lambda>bs. commitAll (ca_split ca) bs (m # rs) (chainHeads h ss) [1 ..< Suc (length ss)]) P"
proof -
  have "foldl (\<lambda>P s. commitIn ca (ct_reservation (conts ! s)) (continuationHead conts s) P) P [0 ..< n]
      = updateBytes (\<lambda>bs. commitAll (ca_split ca) bs (m # rs) (chainHeads h ss) [1 ..< Suc n]) P"
    if "n \<le> length ss" for n
    using that
  proof (induction n)
    case (Suc n)
    have "ct_reservation (conts ! n) = (m # rs) ! Suc n" "continuationHead conts n = chainHeads h ss ! Suc n"
      using Suc.prems continuationBytes_carries(2,3,4) [OF assms]
      by (auto simp: continuationHead_def chainHeads_def contBytes_def)
    with Suc show ?case
      by (simp add: commitIn_def updateBytes_updateBytes commitAll_append comp_def)
  qed (simp add: updateBytes_id)
  from this [of "length ss"] show ?thesis
    using continuationBytes_carries(2) [OF assms] by (simp add: commitContinuations_def)
qed

lemma publishChain_eq:
  assumes c: "carries conts (slotsFor (advance w n) (contSizes ss)) ss"
    and p: "p = messageBytes sid now (stampCorrelation scoped (pr_logger P)) (concat (map encodedArg args))"
    and n: "length p = n"
  defines "ps \<equiv> p # map (slicePayload sid) ss"
  defines "slots \<equiv> slotsFor w (map length ps)"
  shows "publishChain ca sid now scoped args n trunc (nextSlot w) conts
      (P\<lparr>pr_cache := (pr_cache P)\<lparr>wc_writer := w'\<rparr>\<rparr>)
    = noteTruncation ca trunc (withGroup P
        (commitAll (ca_split ca) (storeAll (sg_bytes (seg P)) slots ps) slots
          (chainHeads (messageHead n trunc (ss \<noteq> [])) ss) ([1 ..< Suc (length ss)] @ [0])) w')"
proof -
  have sizes: "map length (map (slicePayload sid) ss) = contSizes ss"
    by (simp add: slicePayload_def contSizes_def contBytes_def struct_sizes comp_def)
  then have slots: "slots = nextSlot w # slotsFor (advance w n) (contSizes ss)"
    by (simp add: slots_def ps_def n)
  have ne: "(conts \<noteq> []) = (ss \<noteq> [])" using continuationBytes_carries(2) [OF c] by auto
  note cc = continuationBytes_carries(1,3) [OF c]
  have ch: "map chainedArgBytes args = map encodedArg args" by (simp add: chainedArgBytes_encoded)
  show ?thesis
    unfolding publishChain_def Let_def ch commitContinuations_eq [OF c, of _ _ "nextSlot w" "messageHead n trunc (ss \<noteq> [])"]
      writeContinuations_eq cc ne slots [symmetric]
    by (simp add: p [symmetric] storePayload_def commitIn_def updateBytes_updateBytes commitAll_append slots ps_def
        chainHeads_def withGroup_def comp_def) (simp add: updateBytes_def seg_def)
qed

section \<open>What an emit leaves behind\<close>

text \<open>
  The records of one message: the Message, flagged, then a Continuation per slice of
  \<open>ss\<close>, numbered on from wherever the writer stood.
\<close>

definition messageChain ::
  "u64 \<Rightarrow> u64 \<Rightarrow> u64 \<Rightarrow> arg list \<Rightarrow> bool \<Rightarrow> (nat \<times> bytes) list \<Rightarrow> logrec list \<Rightarrow> bool" where
  "messageChain sid now correlation args trunc ss rs \<longleftrightarrow>
     (let p = messageBytes sid now correlation (concat (map encodedArg args))
      in \<exists>w. rs = groupRecords w (chainHeads (messageHead (length p) trunc (ss \<noteq> [])) ss)
                    (p # map (slicePayload sid) ss))"

definition messageSize :: "arg list \<Rightarrow> nat" where
  "messageSize args = cMessagePayloadSize + length (concat (map encodedArg args))"

lemma length_messageBytes: "length (messageBytes sid now c (concat (map encodedArg args))) = messageSize args"
  by (simp add: messageBytes_def messageSize_def struct_sizes)

lemma stampCorrelation_same: "same_config P P' \<Longrightarrow> stampCorrelation s (pr_logger P') = stampCorrelation s (pr_logger P)"
  by (simp add: same_config_def stampCorrelation_def)

lemma outcome_stamp: "outcome ca k P cs P' cs' rs d t \<Longrightarrow> stampCorrelation s (pr_logger P') = stampCorrelation s (pr_logger P)"
  by (simp add: outcome_def stampCorrelation_same)

lemma messageChain_shape:
  assumes "messageChain sid now c args trunc ss rs"
  obtains h conts where "rs = (h, messageBytes sid now c (concat (map encodedArg args))) # conts"
    "rh_kind h = Message"
    "rh_flags h = (if trunc then cFlagTruncated else 0) OR (if ss \<noteq> [] then cFlagContinued else 0)"
    "length conts = length ss"
    "\<forall>j < length ss. rh_kind (fst (conts ! j)) = Continuation \<and> snd (conts ! j) = slicePayload sid (ss ! j)
       \<and> rh_flags (fst (conts ! j)) = (if j + 1 < length ss then cFlagContinued else 0)"
proof -
  define p where "p = messageBytes sid now c (concat (map encodedArg args))"
  define h where "h = messageHead (length p) trunc (ss \<noteq> [])"
  obtain w where rs: "rs = groupRecords w (chainHeads h ss) (p # map (slicePayload sid) ss)"
    using assms unfolding messageChain_def Let_def p_def [symmetric] h_def [symmetric] by blast
  let ?conts = "map (\<lambda>j. (headFor (chainHeads h ss ! Suc j) w (Suc j), slicePayload sid (ss ! j))) [0 ..< length ss]"
  have rs': "rs = (headFor h w 0, p) # ?conts"
    unfolding rs groupRecords_def by (simp add: upt_conv_Cons map_Suc_upt [symmetric] chainHeads_def del: upt_Suc)
  show thesis
    by (rule that [OF rs' [unfolded p_def]]) (simp_all add: headFor_def h_def messageHead_def chainHeads_def)
qed

lemma continuations_closed:
  "\<forall>j < length rs. rh_kind (fst (rs ! j)) = Continuation \<and> (continues (rs ! j) \<longleftrightarrow> j + 1 < length rs) \<Longrightarrow>
    closedFrom (rs \<noteq> []) rs"
proof (induction rs)
  case (Cons r rs)
  from Cons.prems [rule_format, of 0] have "rh_kind (fst r) = Continuation" "continues r \<longleftrightarrow> rs \<noteq> []" by auto
  moreover from Cons.prems have "\<forall>j < length rs. rh_kind (fst (rs ! j)) = Continuation
      \<and> (continues (rs ! j) \<longleftrightarrow> j + 1 < length rs)" by (metis Suc_eq_plus1 Suc_less_eq length_Cons nth_Cons_Suc)
  ultimately show ?case using Cons.IH by simp
qed simp

lemma messageChain_flags:
  assumes "messageChain sid now c args trunc ss rs"
  obtains r conts where "rs = r # conts" "rh_kind (fst r) = Message" "continues r \<longleftrightarrow> conts \<noteq> []"
    "\<forall>j < length conts. rh_kind (fst (conts ! j)) = Continuation \<and> (continues (conts ! j) \<longleftrightarrow> j + 1 < length conts)"
proof -
  obtain h conts where s: "rs = (h, messageBytes sid now c (concat (map encodedArg args))) # conts" "rh_kind h = Message"
      "rh_flags h = (if trunc then cFlagTruncated else 0) OR (if ss \<noteq> [] then cFlagContinued else 0)"
      "length conts = length ss"
      "\<forall>j < length ss. rh_kind (fst (conts ! j)) = Continuation
         \<and> rh_flags (fst (conts ! j)) = (if j + 1 < length ss then cFlagContinued else 0)"
    using messageChain_shape [OF assms] by metis
  show thesis
  proof (rule that [OF s(1)])
    show "continues (h, messageBytes sid now c (concat (map encodedArg args))) \<longleftrightarrow> conts \<noteq> []"
      using s(4) by (auto simp: continues_def s(2,3) flags_continued(1))
    show "\<forall>j < length conts. rh_kind (fst (conts ! j)) = Continuation \<and> (continues (conts ! j) \<longleftrightarrow> j + 1 < length conts)"
      using s(4,5) flags_continued(3) by (simp add: continues_def)
  qed (use s(2) in simp)
qed

lemma messageChain_closed: "messageChain sid now c args trunc ss rs \<Longrightarrow> closedFrom False rs"
  by (erule messageChain_flags) (simp add: continuations_closed)

lemma publish_outcome:
  assumes o0: "outcome ca k P cs P0 cs0 [] 0 0" and own: "owns ca P0" and valid: "cw_valid (writer P0)"
    and n: "messageSize args \<le> 0xFFFF" and ss: "\<forall>s \<in> set ss. contBytes (snd s) \<le> 0xFFFF"
    and room: "groupSize (messageSize args # contSizes ss) \<le> remaining (writer P0)"
    and c: "carries conts (slotsFor (advance (writer P0) (messageSize args)) (contSizes ss)) ss"
    and w': "w' = advanceAll (writer P0) (messageSize args # contSizes ss)"
    and P': "P' = publishChain ca sid now scoped args (messageSize args) trunc (nextSlot (writer P0)) conts
         (P0\<lparr>pr_cache := (pr_cache P0)\<lparr>wc_writer := w'\<rparr>\<rparr>)"
  shows "\<exists>cs' rs. outcome ca k P cs P' cs' rs 0 (if trunc then 1 else 0)
    \<and> messageChain sid now (stampCorrelation scoped (pr_logger P)) args trunc ss rs"
proof -
  let ?p = "messageBytes sid now (stampCorrelation scoped (pr_logger P0)) (concat (map encodedArg args))"
  let ?ps = "?p # map (slicePayload sid) ss" and ?hs = "chainHeads (messageHead (messageSize args) trunc (ss \<noteq> [])) ss"
  let ?js = "[1 ..< Suc (length ss)] @ [0]" and ?slots = "slotsFor (writer P0) (map length ?ps)"
  have sizes: "map length ?ps = messageSize args # contSizes ss"
    by (simp add: length_messageBytes slicePayload_def contSizes_def contBytes_def struct_sizes comp_def)
  have inv: "prod_inv ca k P0 cs0" using o0 by (simp add: outcome_def)
  have js: "distinct ?js" "set ?js = {0 ..< length ?ps}" by auto
  have ok: "length ?hs = length ?ps" by (simp add: chainHeads_def)
  have hs: "\<forall>j < length ?ps. unat (rh_payloadBytes (?hs ! j)) = length (?ps ! j) \<and> kindCanonical (rh_kind (?hs ! j))"
  proof (intro allI impI)
    fix j assume j: "j < length ?ps"
    show "unat (rh_payloadBytes (?hs ! j)) = length (?ps ! j) \<and> kindCanonical (rh_kind (?hs ! j))"
    proof (cases j)
      case 0
      then show ?thesis using n by (simp add: chainHeads_def messageHead_def unat_of_nat length_messageBytes)
    next
      case (Suc i)
      then have "contBytes (snd (ss ! i)) \<le> 0xFFFF" using j ss by simp
      then have "unat (word_of_nat (contBytes (snd (ss ! i))) :: u16) = contBytes (snd (ss ! i))"
        by (simp add: unat_of_nat)
      then show ?thesis
        using j Suc by (simp add: chainHeads_def slicePayload_def contBytes_def struct_sizes)
    qed
  qed
  have chain: "messageChain sid now (stampCorrelation scoped (pr_logger P0)) args trunc ss (groupRecords (writer P0) ?hs ?ps)"
    by (auto simp: messageChain_def Let_def length_messageBytes)
  note chain_closed = messageChain_closed [OF chain]
  obtain cs1 where g: "prod_inv ca k (withGroup P0 (commitAll (ca_split ca) (storeAll (sg_bytes (seg P0)) ?slots ?ps)
        ?slots ?hs ?js) (advanceAll (writer P0) (map length ?ps))) cs1"
      "grows (ca_thread ca) cs0 cs1 (groupRecords (writer P0) ?hs ?ps)"
    using append_group [OF inv own valid, of ?ps ?js ?hs] room js ok hs chain_closed unfolding sizes by metis
  let ?G = "withGroup P0 (commitAll (ca_split ca) (storeAll (sg_bytes (seg P0)) ?slots ?ps) ?slots ?hs ?js) w'"
  have P': "P' = noteTruncation ca trunc ?G"
    unfolding P' by (rule publishChain_eq [OF c refl]) (rule length_messageBytes)
  have w': "w' = advanceAll (writer P0) (map length ?ps)" by (simp only: sizes w')
  have "outcome ca k P0 cs0 ?G cs1 (groupRecords (writer P0) ?hs ?ps) 0 0"
    using g unfolding w' by (rule outcome_same_rest) (rule withGroup_simps)
  from outcome_trans [OF o0 this] outcome_note [OF g(1) [folded w'], of trunc]
  have "outcome ca k P cs P' cs1 (groupRecords (writer P0) ?hs ?ps) 0 (if trunc then 1 else 0)"
    unfolding P' using outcome_trans by fastforce
  moreover have "messageChain sid now (stampCorrelation scoped (pr_logger P)) args trunc ss (groupRecords (writer P0) ?hs ?ps)"
    using chain outcome_stamp [OF o0, of scoped] by simp
  ultimately show ?thesis by blast
qed

text \<open>One attempt at the whole chain in the cached writer.\<close>

lemma reserveChain_too_long:
  assumes "0xFFFF < n"
  shows "reserveChain m w n ovs = (None, w)"
proof -
  have "reserve w n = (None, w)" using assms by (simp add: reserve_def)
  then show ?thesis by (simp add: reserveChain_def)
qed

lemma slices_small: "s \<in> set (slicesOf args) \<Longrightarrow> contBytes (snd s) \<le> 0xFFFF"
  by (auto simp: slicesOf_def intro: contBytes_le)

lemma reserveChainIn_cases:
  assumes valid: "cw_valid (writer P0)"
    and r: "reserveChainIn (length args * cMaxContinuations) (messageSize args) (overflowsOf args) P0 = (res, P1)"
  obtains (got) conts where "res = Some (nextSlot (writer P0), conts)" "messageSize args \<le> 0xFFFF"
      "groupSize (messageSize args # contSizes (slicesOf args)) \<le> remaining (writer P0)"
      "carries conts (slotsFor (advance (writer P0) (messageSize args)) (contSizes (slicesOf args))) (slicesOf args)"
      "P1 = P0\<lparr>pr_cache := (pr_cache P0)\<lparr>wc_writer := advanceAll (writer P0) (messageSize args # contSizes (slicesOf args))\<rparr>\<rparr>"
    | (refused) "res = None" "P1 = P0"
        "\<not> (messageSize args \<le> 0xFFFF \<and> groupSize (messageSize args # contSizes (slicesOf args)) \<le> remaining (writer P0))"
proof (cases "messageSize args \<le> 0xFFFF")
  case n: True
  note rc = reserveChain_cases [OF valid n refl, of args]
  show thesis
  proof (cases "groupSize (messageSize args # contSizes (slicesOf args)) \<le> remaining (writer P0)")
    case True
    then show thesis using rc r n got by (auto simp: reserveChainIn_def writer_def)
  next
    case False
    then show thesis using rc r n refused by (auto simp: reserveChainIn_def writer_def)
  qed
next
  case False
  then show thesis using r refused by (auto simp: reserveChainIn_def writer_def reserveChain_too_long)
qed

text \<open>
  The result of emitting a message.  \<open>Written\<close>: all slices, or, when not even an empty
  chunk takes the chain, the message alone with its loss flagged.  \<open>Dropped\<close>: one drop,
  because no chunk was left or the message itself fits none.
\<close>

definition chainFits :: "Producer \<Rightarrow> arg list \<Rightarrow> bool" where
  "chainFits P args \<longleftrightarrow>
     groupSize (messageSize args # contSizes (slicesOf args)) \<le> unat (sg_chunkBytes (seg P)) - 32"

definition writtenSlices :: "Producer \<Rightarrow> arg list \<Rightarrow> bool \<Rightarrow> (nat \<times> bytes) list \<Rightarrow> bool" where
  "writtenSlices P args trunc ss \<longleftrightarrow>
     (ss = slicesOf args \<and> trunc = list_ex pastCeiling args)
     \<or> (ss = [] \<and> slicesOf args \<noteq> [] \<and> trunc \<and> \<not> chainFits P args)"

definition message_outcome ::
  "Caller \<Rightarrow> nat \<Rightarrow> u64 \<Rightarrow> u64 \<Rightarrow> u64 \<Rightarrow> arg list \<Rightarrow> Producer \<Rightarrow> chunklog list \<Rightarrow> Producer \<Rightarrow> chunklog list \<Rightarrow> bool" where
  "message_outcome ca k sid now scoped args P cs P' cs' \<longleftrightarrow>
     (\<exists>ss trunc rs. outcome ca k P cs P' cs' rs 0 (if trunc then 1 else 0)
        \<and> messageChain sid now (stampCorrelation scoped (pr_logger P)) args trunc ss rs
        \<and> writtenSlices P args trunc ss)
     \<or> (outcome ca k P cs P' cs' [] 1 0
        \<and> (length cs' = unat (sg_chunkCount (seg P)) \<or> \<not> fitsEmpty P (messageSize args)))"

lemma message_written:
  "outcome ca k P cs P' cs' rs 0 (if trunc then 1 else 0) \<Longrightarrow>
    messageChain sid now (stampCorrelation scoped (pr_logger P)) args trunc ss rs \<Longrightarrow>
    writtenSlices P args trunc ss \<Longrightarrow> message_outcome ca k sid now scoped args P cs P' cs'"
  unfolding message_outcome_def by blast

lemma carries_Nil: "carries [] (slotsFor w (contSizes [])) []"
  by simp

lemma chained_got:
  assumes o0: "outcome ca k P cs P0 cs0 [] 0 0" and own: "owns ca P0" and valid: "cw_valid (writer P0)"
    and r: "reserveChainIn (length args * cMaxContinuations) (messageSize args) (overflowsOf args) P0 = (Some (m, conts), P1)"
    and P': "P' = publishChain ca sid now scoped args (messageSize args) (list_ex pastCeiling args) m conts P1"
  shows "\<exists>cs'. message_outcome ca k sid now scoped args P cs P' cs'"
  using valid r
proof (cases rule: reserveChainIn_cases)
  case (got conts')
  then have "m = nextSlot (writer P0)" "conts' = conts" by simp_all
  then obtain cs' rs where "outcome ca k P cs P' cs' rs 0 (if list_ex pastCeiling args then 1 else 0)"
    "messageChain sid now (stampCorrelation scoped (pr_logger P)) args (list_ex pastCeiling args) (slicesOf args) rs"
    using publish_outcome [OF o0 own valid got(2) _ got(3,4) refl, of P' sid now scoped "list_ex pastCeiling args"]
      slices_small P' got(5) by blast
  then show ?thesis using message_written by (metis writtenSlices_def)
qed simp

lemma chained_fallback:
  assumes o0: "outcome ca k P cs P0 cs0 [] 0 0" and own: "owns ca P0" and valid: "cw_valid (writer P0)"
    and rem: "remaining (writer P0) = unat (sg_chunkBytes (seg P)) - 32"
    and r: "reserveChainIn (length args * cMaxContinuations) (messageSize args) (overflowsOf args) P0 = (None, P1)"
    and s: "reserveIn (messageSize args) P0 = (Some m, P2)"
    and P': "P' = publishChain ca sid now scoped args (messageSize args) True m [] P2"
  shows "\<exists>cs'. message_outcome ca k sid now scoped args P cs P' cs'"
proof -
  let ?n = "messageSize args" and ?w = "writer P0"
  note rD = reserveIn_SomeD [OF s]
  have e: "m = nextSlot ?w" "P2 = P0\<lparr>pr_cache := (pr_cache P0)\<lparr>wc_writer := advanceAll ?w (?n # contSizes [])\<rparr>\<rparr>"
    using s reserve_next [OF rD(1) valid rD(3)] by (auto simp: reserveIn_def writer_def)
  have nofit: "\<not> groupSize (?n # contSizes (slicesOf args)) \<le> remaining ?w"
    using valid r by (cases rule: reserveChainIn_cases) (use rD(1) in auto)
  then have "slicesOf args \<noteq> []" using rD(3) by auto
  moreover have "groupSize (?n # contSizes []) \<le> remaining ?w" using rD(3) by simp
  moreover from this obtain cs' rs where "outcome ca k P cs P' cs' rs 0 (if True then 1 else 0)"
    "messageChain sid now (stampCorrelation scoped (pr_logger P)) args True [] rs"
    using publish_outcome [OF o0 own valid rD(1) _ _ carries_Nil refl, of P' sid now scoped True] e P' by auto
  moreover have "\<not> chainFits P args" using nofit rem by (simp add: chainFits_def)
  ultimately show ?thesis using message_written [where trunc = True and ss = "[]"] by (metis writtenSlices_def)
qed

lemma emitChained_outcome:
  assumes inv: "prod_inv ca (Suc (Suc k)) P cs"
  shows "\<exists>cs'. message_outcome ca k sid (clk 4) scoped args P cs (emitChained ca clk scoped sid args P) cs'"
proof -
  let ?n = "messageSize args" and ?m = "length args * cMaxContinuations" and ?ovs = "overflowsOf args"
  let ?pub = "publishChain ca sid (clk 4) scoped args ?n"
  have n: "cMessagePayloadSize + sum_list (map argWireBytes args) = ?n" by (simp add: messageSize_def argWireBytes_sum)
  obtain ok1 P1 where c1: "currentWriter ca (clk 2) P = (ok1, P1)" by (metis surj_pair)
  obtain cs1 where i1: "prod_inv ca (Suc k) P1 cs1" "grows (ca_thread ca) cs cs1 []" "same_rest P P1" "owns ca P1"
      "ok1 = cw_valid (writer P1)"
    by (rule currentWriter_inv [OF inv c1])
  have o1: "outcome ca k P cs P1 cs1 [] 0 0"
    using i1 prod_inv_mono [OF i1(1), of k] by (intro outcome_same_rest) simp_all
  define try1 where "try1 = (if ok1 then reserveChainIn ?m ?n ?ovs P1 else (None, P1))"
  obtain res1 P2 where t1: "try1 = (res1, P2)" by (metis surj_pair)
  show ?thesis
  proof (cases res1)
    case (Some mc)
    obtain m conts where mc: "mc = (m, conts)" by (cases mc)
    have v: "ok1" "reserveChainIn ?m ?n ?ovs P1 = (Some (m, conts), P2)"
      using t1 Some mc by (auto simp: try1_def split: if_splits)
    have "emitChained ca clk scoped sid args P = ?pub (list_ex pastCeiling args) m conts P2"
      using c1 t1 Some mc by (simp add: emitChained_def Let_def n try1_def [symmetric])
    with v i1(4,5) show ?thesis by (intro chained_got [OF o1]) simp_all
  next
    case n1: None
    have P2: "P2 = P1"
    proof (cases ok1)
      case True
      then have v: "cw_valid (writer P1)" and r: "reserveChainIn ?m ?n ?ovs P1 = (None, P2)"
        using t1 n1 i1(5) by (simp_all add: try1_def)
      then show ?thesis by (cases rule: reserveChainIn_cases) simp_all
    qed (use t1 in \<open>simp add: try1_def\<close>)
    obtain ok2 P3 where c2: "refillWriter ca (clk 3) P1 = (ok2, P3)" by (metis surj_pair)
    obtain cs3 where i3: "prod_inv ca k P3 cs3" "grows (ca_thread ca) cs1 cs3 []" "same_rest P1 P3" "owns ca P3"
        "ok2 = cw_valid (writer P3)" "ok2 = (length cs1 < unat (sg_chunkCount (seg P1)))"
        "ok2 \<longrightarrow> remaining (writer P3) = unat (sg_chunkBytes (seg P1)) - 32"
      by (rule refillWriter_inv [OF i1(1) c2])
    have o3: "outcome ca k P cs P3 cs3 [] 0 0"
      using i1 i3 grows_trans [OF i1(2) i3(2)] same_rest_trans [OF i1(3) i3(3)]
      by (intro outcome_same_rest) simp_all
    have sP: "sg_chunkCount (seg P1) = sg_chunkCount (seg P)" "sg_chunkBytes (seg P1) = sg_chunkBytes (seg P)"
      "sg_chunkCount (seg P3) = sg_chunkCount (seg P)"
      using i1(3) i3(3) by (auto simp: same_rest_def)
    define try2 where "try2 = (if ok2 then reserveChainIn ?m ?n ?ovs P3 else (None, P3))"
    obtain res2 P4 where t2: "try2 = (res2, P4)" by (metis surj_pair)
    have drop: ?thesis
      if "emitChained ca clk scoped sid args P = dropRecord ca P3"
        and "length cs3 = unat (sg_chunkCount (seg P)) \<or> \<not> fitsEmpty P ?n"
      using outcome_trans [OF o3 outcome_drop [OF i3(1)]] that by (auto simp: message_outcome_def)
    show ?thesis
    proof (cases ok2)
      case False
      then have "length cs3 = unat (sg_chunkCount (seg P))"
        using i3(1,2,6) sP by (simp add: grows_def prod_inv_def seg_inv_def)
      moreover have "emitChained ca clk scoped sid args P = dropRecord ca P3"
        using c1 t1 n1 P2 c2 False by (simp add: emitChained_def Let_def n try1_def [symmetric])
      ultimately show ?thesis using drop by simp
    next
      case ok2: True
      then have v3: "cw_valid (writer P3)" and rem: "remaining (writer P3) = unat (sg_chunkBytes (seg P)) - 32"
        using i3(5,7) sP by simp_all
      have r2: "reserveChainIn ?m ?n ?ovs P3 = (res2, P4)" using t2 ok2 by (simp add: try2_def)
      show ?thesis
      proof (cases res2)
        case (Some mc)
        obtain m conts where mc: "mc = (m, conts)" by (cases mc)
        have "emitChained ca clk scoped sid args P = ?pub (list_ex pastCeiling args) m conts P4"
          using c1 t1 n1 P2 c2 ok2 r2 Some mc
          by (simp add: emitChained_def Let_def n try1_def [symmetric])
        with r2 Some mc i3(4) v3 show ?thesis by (intro chained_got [OF o3]) simp_all
      next
        case n2: None
        have P4: "P4 = P3" using v3 r2 n2 by (cases rule: reserveChainIn_cases) simp_all
        obtain slot P5 where s: "reserveIn ?n P3 = (slot, P5)" by (metis surj_pair)
        have e: "emitChained ca clk scoped sid args P
            = (case slot of None \<Rightarrow> dropRecord ca P5 | Some m \<Rightarrow> ?pub True m [] P5)"
          using c1 t1 n1 P2 c2 ok2 r2 n2 P4 s
          by (simp add: emitChained_def Let_def n try1_def [symmetric])
        show ?thesis
        proof (cases slot)
          case (Some m)
          with e s r2 n2 i3(4) v3 rem show ?thesis
            by (intro chained_fallback [OF o3]) simp_all
        next
          case None
          then have P5: "P5 = P3" using s by (auto dest: reserveIn_refused)
          have "\<not> fitsEmpty P ?n"
            using s None reserve_next [OF _ v3, of ?n] rem by (auto simp: fitsEmpty_def reserveIn_def writer_def)
          with e None P5 show ?thesis by (intro drop) simp_all
        qed
      qed
    qed
  qed
qed

lemma slicesOf_fixed: "\<not> hasByteArg args \<Longrightarrow> slicesOf args = [] \<and> \<not> list_ex pastCeiling args \<and> \<not> list_ex cutArg args"
proof -
  assume "\<not> hasByteArg args"
  then have a: "\<not> isByteArg a" if "a \<in> set args" for a using that by (auto simp: hasByteArg_def list_ex_iff)
  then have "overflowBytes a = []" "\<not> pastCeiling a" "\<not> cutArg a" if "a \<in> set args" for a
    using a [OF that] by (cases a; simp add: overflowBytes_def overflowLen_def pastCeiling_def cutArg_def)+
  then show ?thesis
    by (auto simp: slicesOf_def list_ex_iff in_set_enumerate_eq)
qed

lemma upperBoundSize_messageSize: "cMessagePayloadSize + upperBoundSize args = messageSize args"
proof -
  have "upperBoundSize args = length (concat (map encodedArg args))"
    by (induction args) (simp_all add: length_encodedArg)
  then show ?thesis by (simp add: messageSize_def)
qed

lemma chain_single: "groupRecords w (chainHeads h []) [p] = [(headFor h w 0, p)]"
  by (simp add: groupRecords_def chainHeads_def)

lemma emitPlain_outcome:
  assumes inv: "prod_inv ca (Suc (Suc k)) P cs" and fixed: "\<not> hasByteArg args"
  shows "\<exists>cs'. message_outcome ca k sid (clk 4) scoped args P cs (emitPlain ca clk scoped sid args P) cs'"
proof -
  let ?n = "messageSize args" and ?out = "concat (map encodedArg args)"
  note f = slicesOf_fixed [OF fixed]
  obtain res P1 where r: "reserveRecord ca (clk 2) (clk 3) ?n P = (res, P1)" by (metis surj_pair)
  define p where "p = messageBytes sid (clk 4) (stampCorrelation scoped (pr_logger P1)) ?out"
  let ?h = "messageHead ?n False False"
  have lp: "length p = ?n" by (simp add: p_def length_messageBytes)
  have "encodeArgs (?n - cMessagePayloadSize) args = (?out, \<lparr>er_bytes = upperBoundSize args, er_truncated = False\<rparr>)"
    using f encodeArgs_fits [of args "?n - cMessagePayloadSize"] by (simp add: upperBoundSize_messageSize [symmetric])
  then have e: "emitPlain ca clk scoped sid args P
      = (case res of None \<Rightarrow> P1 | Some s \<Rightarrow> commitIn ca s ?h (storePayload s p P1))"
    by (simp add: emitPlain_def Let_def upperBoundSize_messageSize r p_def noteTruncation_def split: option.split)
  show ?thesis
    using inv r
  proof (cases rule: reserveRecord_cases)
    case (got P0 cs0 slot)
    note rD = reserveIn_SomeD [OF got(2)]
    have h: "unat (rh_payloadBytes ?h) = length p" "kindCanonical (rh_kind ?h)" "singleHead ?h"
      using rD(1) by (simp_all add: messageHead_def lp unat_of_nat singleHead_def)
    obtain cs' where o: "outcome ca k P cs (commitIn ca slot ?h (storePayload slot p P1)) cs' ([] @ [(headFor ?h (writer P0) 0, p)]) 0 0"
      using reserved_append [OF got(3,4) _ h] got(2) lp by auto
    have "pr_logger P1 = pr_logger P0" using got(2) by (auto simp: reserveIn_def split: prod.splits)
    then have p: "p = messageBytes sid (clk 4) (stampCorrelation scoped (pr_logger P)) ?out"
      using outcome_stamp [OF got(3), of scoped] by (simp add: p_def)
    have "messageChain sid (clk 4) (stampCorrelation scoped (pr_logger P)) args False [] [(headFor ?h (writer P0) 0, p)]"
      unfolding messageChain_def Let_def p [symmetric] by (rule exI [of _ "writer P0"]) (simp add: chain_single lp)
    moreover have "writtenSlices P args False []" using f by (simp add: writtenSlices_def)
    ultimately have "message_outcome ca k sid (clk 4) scoped args P cs (emitPlain ca clk scoped sid args P) cs'"
      using o e got(1) message_written [where trunc = False and ss = "[]"] by simp
    then show ?thesis by blast
  next
    case (dropped cs')
    then show ?thesis using e by (auto simp: message_outcome_def)
  qed
qed

section \<open>Definitions\<close>

lemma length_definitionPayload:
  "length (definitionPayload sid sub sev fmt file line codes)
    = cSiteDefinitionPayloadSize + length codes + 2 + length fmt + 2 + length file"
  by (simp add: definitionPayload_def struct_sizes)

lemma definitionPayloadBytes_eq:
  assumes "argCount + formatLen + fileLen < 2 ^ 32 - 28"
  shows "definitionPayloadBytes argCount formatLen fileLen
    = cSiteDefinitionPayloadSize + argCount + 2 + formatLen + 2 + fileLen"
proof -
  have "(word_of_nat cSiteDefinitionPayloadSize + word_of_nat argCount + 2 + word_of_nat formatLen + 2
      + word_of_nat fileLen :: u32) = word_of_nat (cSiteDefinitionPayloadSize + argCount + 2 + formatLen + 2 + fileLen)"
    by simp
  moreover have "unat (word_of_nat m :: u32) = m" if "m < 2 ^ 32" for m using that by (simp add: unat_of_nat)
  ultimately show ?thesis
    using assms by (simp only: definitionPayloadBytes_def) (simp only: struct_sizes)
qed

text \<open>The cut strings always leave a record that fits, unless the fixed part alone does not.\<close>

lemma cutLengths_fit:
  assumes "8 dvd space" and "cutLengths space argCount formatLen fileLen = (fm, fi)"
    and "footprint (cSiteDefinitionPayloadSize + argCount + 4) \<le> space"
    and "cSiteDefinitionPayloadSize + argCount + 4 \<le> 0xFFFF"
  shows "footprint (cSiteDefinitionPayloadSize + argCount + 2 + fm + 2 + fi) \<le> space"
    and "cSiteDefinitionPayloadSize + argCount + 2 + fm + 2 + fi \<le> 0xFFFF"
    and "fm \<le> formatLen" and "fi \<le> fileLen"
proof -
  let ?f = "cSiteDefinitionPayloadSize + argCount + 4" and ?e = "min space 0xFFFF"
  define av where "av = (if ?f + 8 < ?e then ?e - (?f + 8) else 0)"
  have c: "fm = min formatLen (av div 2)" "fi = min fileLen (av - av div 2)"
    using assms(2) unfolding cutLengths_def Let_def av_def [symmetric] by simp_all
  have "fm + fi \<le> av div 2 + (av - av div 2)" unfolding c by (intro add_mono) simp_all
  moreover have "av \<le> ?e - (?f + 8)" unfolding av_def by simp
  ultimately have fm: "fm \<le> formatLen" "fi \<le> fileLen" "fm + fi \<le> ?e - (?f + 8)"
    unfolding c by simp_all
  show "fm \<le> formatLen" "fi \<le> fileLen" by (fact fm)+
  have t: "cSiteDefinitionPayloadSize + argCount + 2 + fm + 2 + fi = ?f + (fm + fi)" by simp
  show "cSiteDefinitionPayloadSize + argCount + 2 + fm + 2 + fi \<le> 0xFFFF"
    unfolding t using fm(3) assms(4) by linarith
  show "footprint (cSiteDefinitionPayloadSize + argCount + 2 + fm + 2 + fi) \<le> space"
  proof (cases "?f + 8 < ?e")
    case True
    then have "8 + (?f + (fm + fi)) \<le> space" using fm(3) by linarith
    then have "align8 (?f + (fm + fi)) \<le> space - 8"
      using assms(1) by (intro align8_least) (auto simp: dvd_diff_nat)
    then show ?thesis unfolding t footprint_def using True by linarith
  next
    case False
    then have "fm + fi = 0" using fm(3) by linarith
    then show ?thesis unfolding t using assms(3) by simp
  qed
qed

definition isDefinition :: "u64 \<Rightarrow> u32 \<Rightarrow> Severity \<Rightarrow> bytes \<Rightarrow> bytes \<Rightarrow> u32 \<Rightarrow> u8 list \<Rightarrow> logrec \<Rightarrow> bool" where
  "isDefinition sid sub sev fmt file line codes r \<longleftrightarrow>
     rh_kind (fst r) = SiteDefinition \<and> snd r = definitionPayload sid sub sev fmt file line codes"

lemma finishDefinition_outcome:
  assumes o0: "outcome ca k P cs P0 cs0 [] 0 0" and own: "owns ca P0"
    and r: "reserveIn (length (definitionPayload sid sub sev fmt file line codes)) P0 = (Some s, P1)"
  shows "\<exists>P' cs' rec. finishDefinition ca sid sub sev fmt file line codes trunc s P1 = (True, P')
    \<and> outcome ca k P cs P' cs' [rec] 0 (if trunc then 1 else 0)
    \<and> isDefinition sid sub sev fmt file line codes rec"
proof -
  let ?p = "definitionPayload sid sub sev fmt file line codes"
  define h where "h = \<lparr>rh_payloadBytes = word_of_nat (length ?p), rh_kind = SiteDefinition,
    rh_flags = (if trunc then cFlagTruncated else 0), rh_sequence = (0 :: u16)\<rparr>"
  note rD = reserveIn_SomeD [OF r]
  have h: "unat (rh_payloadBytes h) = length ?p" "kindCanonical (rh_kind h)" "singleHead h"
    using rD(1) by (simp_all add: h_def unat_of_nat singleHead_def flags_continued)
  let ?Q = "commitIn ca s h (storePayload s ?p P1)"
  obtain cs' where o: "outcome ca k P cs ?Q cs' ([] @ [(headFor h (writer P0) 0, ?p)]) 0 0"
    by (rule reserved_append [OF o0 own r h])
  then have "prod_inv ca k ?Q cs'" by (simp add: outcome_def)
  from outcome_trans [OF o outcome_note [OF this, of trunc]]
  have "outcome ca k P cs (noteTruncation ca trunc ?Q) cs' [(headFor h (writer P0) 0, ?p)] 0 (if trunc then 1 else 0)"
    by simp
  moreover have "finishDefinition ca sid sub sev fmt file line codes trunc s P1 = (True, noteTruncation ca trunc ?Q)"
    by (simp add: finishDefinition_def Let_def h_def)
  moreover have "isDefinition sid sub sev fmt file line codes (headFor h (writer P0) 0, ?p)"
    by (simp add: isDefinition_def headFor_def h_def)
  ultimately show ?thesis by blast
qed

text \<open>
  Either the definition was written, with its strings cut only when no chunk takes them
  whole and the cut counted; or one drop, because no chunk was left or even the definition
  without strings fits none.
\<close>

definition definition_outcome ::
  "Caller \<Rightarrow> nat \<Rightarrow> u64 \<Rightarrow> u32 \<Rightarrow> Severity \<Rightarrow> bytes \<Rightarrow> bytes \<Rightarrow> u32 \<Rightarrow> u8 list \<Rightarrow> Producer \<Rightarrow> chunklog list
    \<Rightarrow> bool \<Rightarrow> Producer \<Rightarrow> bool" where
  "definition_outcome ca k sid sub sev fmt file line codes P cs ok P' \<longleftrightarrow>
     (if ok
      then \<exists>cs' r fmt' file'. isDefinition sid sub sev fmt' file' line codes r
             \<and> prefix fmt' fmt \<and> prefix file' file \<and> length (snd r) \<le> 0xFFFF
             \<and> outcome ca k P cs P' cs' [r] 0 (if fmt' = fmt \<and> file' = file then 0 else 1)
             \<and> (fmt' = fmt \<and> file' = file \<or> \<not> fitsEmpty P (28 + length codes + length fmt + length file))
      else \<exists>cs'. outcome ca k P cs P' cs' [] 1 0
             \<and> (length cs' = unat (sg_chunkCount (seg P)) \<or> \<not> fitsEmpty P (28 + length codes)))"

lemma definition_whole:
  assumes o0: "outcome ca k P cs P0 cs0 [] 0 0" and own: "owns ca P0"
    and r: "reserveIn (28 + length codes + length fmt + length file) P0 = (Some s, P1)"
    and f: "finishDefinition ca sid sub sev fmt file line codes False s P1 = (ok, P')"
  shows "definition_outcome ca k sid sub sev fmt file line codes P cs ok P'"
proof -
  have "28 + length codes + length fmt + length file = length (definitionPayload sid sub sev fmt file line codes)"
    by (simp add: length_definitionPayload struct_sizes)
  note r' = r [unfolded this]
  show ?thesis
    using finishDefinition_outcome [OF o0 own r', of False] reserveIn_SomeD(1) [OF r'] f
    by (auto simp: definition_outcome_def isDefinition_def)
qed

lemma definition_cut:
  assumes o0: "outcome ca k P cs P0 cs0 [] 0 0" and own: "owns ca P0" and valid: "cw_valid (writer P0)"
    and rem: "remaining (writer P0) = unat (sg_chunkBytes (seg P)) - 32" and dvd: "8 dvd unat (sg_chunkBytes (seg P))"
    and small: "length codes + length fmt + length file < 2 ^ 32 - 28"
    and no: "reserveIn (28 + length codes + length fmt + length file) P0 = (None, P1)"
    and c: "cutLengths (remaining (writer P0)) (length codes) (length fmt) (length file) = (fm, fi)"
    and r: "reserveIn (definitionPayloadBytes (length codes) fm fi) P0 = (slot, P2)"
    and f: "(ok, P') = (case slot of None \<Rightarrow> (False, dropRecord ca P2)
       | Some s \<Rightarrow> finishDefinition ca sid sub sev (take fm fmt) (take fi file) line codes
                     (fm < length fmt \<or> fi < length file) s P2)"
  shows "definition_outcome ca k sid sub sev fmt file line codes P cs ok P'"
proof -
  let ?n = "28 + length codes + fm + fi"
  have le: "fm \<le> length fmt" "fi \<le> length file" using c by (auto simp: cutLengths_def Let_def)
  then have n: "definitionPayloadBytes (length codes) fm fi = ?n"
    using small by (subst definitionPayloadBytes_eq) (simp_all add: struct_sizes)
  have nofit: "\<not> fitsEmpty P (28 + length codes + length fmt + length file)"
    using no reserve_next [OF _ valid, of "28 + length codes + length fmt + length file"] rem
    by (auto simp: fitsEmpty_def reserveIn_def writer_def)
  show ?thesis
  proof (cases slot)
    case None
    then have P2: "P2 = P0" using r by (auto dest: reserveIn_refused)
    have "\<not> fitsEmpty P (28 + length codes)"
    proof
      assume "fitsEmpty P (28 + length codes)"
      then have "footprint (cSiteDefinitionPayloadSize + length codes + 4) \<le> remaining (writer P0)"
        "cSiteDefinitionPayloadSize + length codes + 4 \<le> 0xFFFF"
        using rem by (simp_all add: fitsEmpty_def struct_sizes add.commute)
      moreover have "8 dvd remaining (writer P0)" using dvd rem by (simp add: dvd_diff_nat)
      ultimately have "?n \<le> 0xFFFF" "footprint ?n \<le> remaining (writer P0)"
        using cutLengths_fit(1,2) [OF _ c] by (simp_all add: struct_sizes add.commute add.left_commute)
      then show False using r None n reserve_next [OF _ valid, of ?n] by (auto simp: reserveIn_def writer_def)
    qed
    moreover have "outcome ca k P cs (dropRecord ca P0) cs0 [] 1 0"
      using outcome_trans [OF o0 outcome_drop [of ca k P0 cs0]] o0 by (simp add: outcome_def)
    ultimately show ?thesis using f None P2 by (auto simp: definition_outcome_def)
  next
    case (Some s)
    let ?fmt = "take fm fmt" and ?file = "take fi file"
    have "?n = length (definitionPayload sid sub sev ?fmt ?file line codes)"
      using le by (simp add: length_definitionPayload struct_sizes)
    then have r': "reserveIn (length (definitionPayload sid sub sev ?fmt ?file line codes)) P0 = (Some s, P2)"
      using r Some n by simp
    let ?cut = "fm < length fmt \<or> fi < length file"
    have cut: "?cut = (\<not> (?fmt = fmt \<and> ?file = file))" using le by auto
    obtain P'' cs' rec where o: "finishDefinition ca sid sub sev ?fmt ?file line codes ?cut s P2 = (True, P'')"
      "outcome ca k P cs P'' cs' [rec] 0 (if ?cut then 1 else 0)"
      "isDefinition sid sub sev ?fmt ?file line codes rec"
      using finishDefinition_outcome [OF o0 own r', of ?cut] by blast
    have "length (snd rec) \<le> 0xFFFF" using reserveIn_SomeD(1) [OF r'] o(3) by (simp add: isDefinition_def)
    moreover have "outcome ca k P cs P'' cs' [rec] 0 (if ?fmt = fmt \<and> ?file = file then 0 else 1)"
      using o(2) unfolding cut by (cases "?fmt = fmt \<and> ?file = file") (simp_all only: simp_thms if_True if_False)
    moreover have "ok" "P' = P''" using f Some o(1) by simp_all
    ultimately show ?thesis
      using o(3) nofit take_is_prefix [of fm fmt] take_is_prefix [of fi "file"]
      unfolding definition_outcome_def by (metis (no_types))
  qed
qed

lemma writeSiteDefinitionCore_outcome:
  assumes inv: "prod_inv ca (Suc (Suc k)) P cs" and small: "length codes + length fmt + length file < 2 ^ 32 - 28"
    and w: "writeSiteDefinitionCore ca clk sid sub sev fmt file line codes P = (ok, P')"
  shows "definition_outcome ca k sid sub sev fmt file line codes P cs ok P'"
proof -
  let ?n = "28 + length codes + length fmt + length file"
  have n: "definitionPayloadBytes (length codes) (length fmt) (length file) = ?n"
    using definitionPayloadBytes_eq [OF small] by (simp add: struct_sizes)
  let ?fin = "finishDefinition ca sid sub sev fmt file line codes False"
  obtain ok1 P1 where c1: "currentWriter ca (clk 0) P = (ok1, P1)" by (metis surj_pair)
  obtain cs1 where i1: "prod_inv ca (Suc k) P1 cs1" "grows (ca_thread ca) cs cs1 []" "same_rest P P1" "owns ca P1"
      "ok1 = cw_valid (writer P1)"
    by (rule currentWriter_inv [OF inv c1])
  have o1: "outcome ca k P cs P1 cs1 [] 0 0"
    using i1 prod_inv_mono [OF i1(1), of k] by (intro outcome_same_rest) simp_all
  define try1 where "try1 = (if ok1 then reserveIn ?n P1 else (None, P1))"
  obtain s1 P2 where t1: "try1 = (s1, P2)" by (metis surj_pair)
  show ?thesis
  proof (cases s1)
    case (Some s)
    then have "reserveIn ?n P1 = (Some s, P2)" using t1 by (auto simp: try1_def split: if_splits)
    moreover have "?fin s P2 = (ok, P')"
      using w c1 t1 Some unfolding writeSiteDefinitionCore_def Let_def n c1 prod.case try1_def [symmetric] by simp
    ultimately show ?thesis by (rule definition_whole [OF o1 i1(4)])
  next
    case n1: None
    then have P2: "P2 = P1" using t1 by (auto simp: try1_def dest: reserveIn_refused split: if_splits)
    obtain ok2 P3 where c2: "refillWriter ca (clk 1) P1 = (ok2, P3)" by (metis surj_pair)
    obtain cs3 where i3: "prod_inv ca k P3 cs3" "grows (ca_thread ca) cs1 cs3 []" "same_rest P1 P3" "owns ca P3"
        "ok2 = cw_valid (writer P3)" "ok2 = (length cs1 < unat (sg_chunkCount (seg P1)))"
        "ok2 \<longrightarrow> remaining (writer P3) = unat (sg_chunkBytes (seg P1)) - 32"
      by (rule refillWriter_inv [OF i1(1) c2])
    have o3: "outcome ca k P cs P3 cs3 [] 0 0"
      using i1 i3 grows_trans [OF i1(2) i3(2)] same_rest_trans [OF i1(3) i3(3)]
      by (intro outcome_same_rest) simp_all
    have sP: "sg_chunkCount (seg P1) = sg_chunkCount (seg P)" "sg_chunkBytes (seg P1) = sg_chunkBytes (seg P)"
      "sg_chunkCount (seg P3) = sg_chunkCount (seg P)"
      using i1(3) i3(3) by (auto simp: same_rest_def)
    have dvd: "8 dvd unat (sg_chunkBytes (seg P))" using inv by (simp add: prod_inv_def seg_inv_def seg_geometry_def)
    show ?thesis
    proof (cases ok2)
      case False
      then have "length cs3 = unat (sg_chunkCount (seg P))"
        using i3(1,2,6) sP by (simp add: grows_def prod_inv_def seg_inv_def)
      moreover have "(ok, P') = (False, dropRecord ca P3)"
        using w c1 t1 n1 P2 c2 False
        unfolding writeSiteDefinitionCore_def Let_def n c1 prod.case try1_def [symmetric] by simp
      moreover have "outcome ca k P cs (dropRecord ca P3) cs3 [] 1 0"
        using outcome_trans [OF o3 outcome_drop [OF i3(1)]] by simp
      ultimately show ?thesis by (auto simp: definition_outcome_def)
    next
      case True
      then have v3: "cw_valid (writer P3)" and rem: "remaining (writer P3) = unat (sg_chunkBytes (seg P)) - 32"
        using i3(5,7) sP by simp_all
      obtain s2 P4 where r2: "reserveIn ?n P3 = (s2, P4)" by (metis surj_pair)
      show ?thesis
      proof (cases s2)
        case (Some s)
        then have "?fin s P4 = (ok, P')"
          using w c1 t1 n1 P2 c2 True r2
          unfolding writeSiteDefinitionCore_def Let_def n c1 prod.case try1_def [symmetric] by simp
        with r2 Some show ?thesis by (intro definition_whole [OF o3 i3(4)]) simp_all
      next
        case n2: None
        then have P4: "P4 = P3" using r2 by (auto dest: reserveIn_refused)
        obtain fm fi where c: "cutLengths (remaining (writer P3)) (length codes) (length fmt) (length file) = (fm, fi)"
          by (metis surj_pair)
        obtain slot P5 where r5: "reserveIn (definitionPayloadBytes (length codes) fm fi) P3 = (slot, P5)"
          by (metis surj_pair)
        have "(ok, P') = (case slot of None \<Rightarrow> (False, dropRecord ca P5)
            | Some s \<Rightarrow> finishDefinition ca sid sub sev (take fm fmt) (take fi file) line codes
                     (fm < length fmt \<or> fi < length file) s P5)"
          using w c1 t1 n1 P2 c2 True r2 n2 P4 c r5
          unfolding writeSiteDefinitionCore_def Let_def n c1 prod.case try1_def [symmetric] writer_def by simp
        then show ?thesis
          using definition_cut [OF o3 i3(4) v3 rem dvd small _ c r5] r2 n2 by simp
      qed
    qed
  qed
qed

section \<open>One emit\<close>

text \<open>
  \<open>defs\<close> and \<open>msgs\<close> are the records one call appended: at most a definition, then the
  message chain.  A call without a message counted exactly one drop.
\<close>

definition emit_outcome ::
  "Caller \<Rightarrow> nat \<Rightarrow> u64 \<Rightarrow> u64 \<Rightarrow> SiteDescriptor \<Rightarrow> arg list \<Rightarrow> Producer \<Rightarrow> chunklog list
    \<Rightarrow> SiteDescriptor \<Rightarrow> Producer \<Rightarrow> chunklog list \<Rightarrow> logrec list \<Rightarrow> logrec list \<Rightarrow> bool" where
  "emit_outcome ca k now scoped site args P cs site' P' cs' defs msgs \<longleftrightarrow>
     (let key = announceKey (ca_split ca) (seg P); codes = map (typeCodeByte \<circ> typeCodeFor) args
      in (\<exists>t. outcome ca k P cs P' cs' (defs @ msgs) (if msgs = [] then 1 else 0) t)
         \<and> site' = (if defs = [] then site else site\<lparr>sd_announcedKey := key\<rparr>)
         \<and> (defs = [] \<or> sd_announcedKey site \<noteq> key
              \<and> (\<exists>r fmt' file'. defs = [r] \<and> prefix fmt' (sd_format site) \<and> prefix file' (sd_file site)
                   \<and> length (snd r) \<le> 0xFFFF
                   \<and> isDefinition (siteId site) (sd_subsystem site) (sd_severity site) fmt' file' (sd_line site) codes r))
         \<and> (msgs = [] \<or> (defs = [] \<longrightarrow> sd_announcedKey site = key)
              \<and> (\<exists>ss trunc. messageChain (siteId site) now (stampCorrelation scoped (pr_logger P)) args trunc ss msgs
                   \<and> writtenSlices P args trunc ss))
         \<and> (msgs \<noteq> [] \<or> length cs' = unat (sg_chunkCount (seg P))
              \<or> \<not> (fitsEmpty P (messageSize args) \<and> fitsEmpty P (28 + length args))))"

lemma messageChain_nonempty: "messageChain sid now c args trunc ss rs \<Longrightarrow> rs \<noteq> []"
  by (auto simp: messageChain_def Let_def groupRecords_def)

lemma writtenSlices_same: "same_config P P' \<Longrightarrow> writtenSlices P' args trunc ss = writtenSlices P args trunc ss"
  by (auto simp: writtenSlices_def chainFits_def same_config_def)

lemma fitsEmpty_same: "same_config P P' \<Longrightarrow> fitsEmpty P' n = fitsEmpty P n"
  by (auto simp: fitsEmpty_def same_config_def)

lemma same_config_count: "same_config P P' \<Longrightarrow> sg_chunkCount (seg P') = sg_chunkCount (seg P)"
  by (auto simp: same_config_def)

lemma outcome_same_config: "outcome ca k P cs P' cs' rs d t \<Longrightarrow> same_config P P'"
  by (simp add: outcome_def)

lemma message_after:
  assumes o: "outcome ca k' P cs P1 cs1 defs 0 t" and m: "message_outcome ca k (siteId site) now scoped args P1 cs1 P' cs'"
    and site': "site' = (if defs = [] then site else site\<lparr>sd_announcedKey := announceKey (ca_split ca) (seg P)\<rparr>)"
    and defs: "defs = [] \<and> sd_announcedKey site = announceKey (ca_split ca) (seg P)
      \<or> (\<exists>r fmt' file'. sd_announcedKey site \<noteq> announceKey (ca_split ca) (seg P)
           \<and> defs = [r] \<and> prefix fmt' (sd_format site) \<and> prefix file' (sd_file site) \<and> length (snd r) \<le> 0xFFFF
           \<and> isDefinition (siteId site) (sd_subsystem site) (sd_severity site) fmt' file' (sd_line site)
               (map (typeCodeByte \<circ> typeCodeFor) args) r)"
  shows "\<exists>msgs. emit_outcome ca k now scoped site args P cs site' P' cs' defs msgs"
proof -
  note sc = outcome_same_config [OF o]
  from m consider ss trunc rs where "outcome ca k P1 cs1 P' cs' rs 0 (if trunc then 1 else 0)"
      "messageChain (siteId site) now (stampCorrelation scoped (pr_logger P)) args trunc ss rs" "writtenSlices P args trunc ss"
    | "outcome ca k P1 cs1 P' cs' [] 1 0" "length cs' = unat (sg_chunkCount (seg P)) \<or> \<not> fitsEmpty P (messageSize args)"
    unfolding message_outcome_def writtenSlices_same [OF sc] stampCorrelation_same [OF sc] fitsEmpty_same [OF sc]
      same_config_count [OF sc] by blast
  then show ?thesis
  proof cases
    case 1
    then have "emit_outcome ca k now scoped site args P cs site' P' cs' defs rs"
      using outcome_trans [OF o 1(1)] messageChain_nonempty [OF 1(2)] site' defs
      unfolding emit_outcome_def Let_def by (auto simp: exI)
    then show ?thesis by blast
  next
    case 2
    then have "emit_outcome ca k now scoped site args P cs site' P' cs' defs []"
      using outcome_trans [OF o 2(1)] 2(2) site' defs unfolding emit_outcome_def Let_def by (auto simp: exI)
    then show ?thesis by blast
  qed
qed

lemma emitBody_outcome:
  assumes "prod_inv ca (Suc (Suc k)) P cs"
  shows "\<exists>cs'. message_outcome ca k sid (clk 4) scoped args P cs
    (if hasByteArg args then emitChained ca clk scoped sid args P else emitPlain ca clk scoped sid args P) cs'"
  using emitChained_outcome [OF assms] emitPlain_outcome [OF assms] by auto

lemma emitRecord_outcome:
  assumes inv: "prod_inv ca (k + 4) P cs"
    and small: "length args + length (sd_format site) + length (sd_file site) < 2 ^ 32 - 28"
    and e: "emitRecord ca clk scoped True site args P = (site', P')"
  shows "\<exists>cs' defs msgs. emit_outcome ca k (clk 4) scoped site args P cs site' P' cs' defs msgs"
proof -
  let ?key = "announceKey (ca_split ca) (seg P)"
  have inv4: "prod_inv ca (Suc (Suc (Suc (Suc k)))) P cs" using inv by (simp add: eval_nat_numeral)
  have inv2: "prod_inv ca (Suc (Suc k)) P cs" using inv by (rule prod_inv_mono) simp
  show ?thesis
  proof (cases "sd_announcedKey site = ?key")
    case True
    then have "site' = site"
      "P' = (if hasByteArg args then emitChained ca clk scoped (siteId site) args P
             else emitPlain ca clk scoped (siteId site) args P)"
      using e by (auto simp: emitRecord_def Let_def seg_def)
    moreover obtain cs' where "message_outcome ca k (siteId site) (clk 4) scoped args P cs P' cs'"
      using emitBody_outcome [OF inv2, of "siteId site" clk scoped args] calculation(2) by auto
    ultimately obtain msgs where "emit_outcome ca k (clk 4) scoped site args P cs site' P' cs' [] msgs"
      using message_after [OF outcome_refl [OF inv], of k site "clk 4" scoped args P' cs' site'] True by auto
    then show ?thesis by blast
  next
    case False
    obtain ok P1 where d: "writeSiteDefinition ca clk site args P = (ok, P1)" by (metis surj_pair)
    have "definition_outcome ca (Suc (Suc k)) (siteId site) (sd_subsystem site) (sd_severity site) (sd_format site)
        (sd_file site) (sd_line site) (map (typeCodeByte \<circ> typeCodeFor) args) P cs ok P1"
      using d small by (intro writeSiteDefinitionCore_outcome [OF inv4]) (simp_all add: writeSiteDefinition_def)
    note o = this [unfolded definition_outcome_def]
    show ?thesis
    proof (cases ok)
      case ok: False
      then obtain cs' where o': "outcome ca (Suc (Suc k)) P cs P1 cs' [] 1 0"
        and full: "length cs' = unat (sg_chunkCount (seg P)) \<or> \<not> fitsEmpty P (28 + length args)" using o by auto
      from o' have "outcome ca k P cs P1 cs' [] 1 0" by (auto simp: outcome_def intro: prod_inv_mono)
      moreover have "site' = site" "P' = P1" using e d False ok by (simp_all add: emitRecord_def Let_def seg_def)
      ultimately have "emit_outcome ca k (clk 4) scoped site args P cs site' P' cs' [] []"
        using full unfolding emit_outcome_def Let_def by auto
      then show ?thesis by blast
    next
      case ok: True
      then obtain cs1 r fmt' file' where d1: "isDefinition (siteId site) (sd_subsystem site) (sd_severity site) fmt' file'
            (sd_line site) (map (typeCodeByte \<circ> typeCodeFor) args) r" "prefix fmt' (sd_format site)"
          "prefix file' (sd_file site)" "length (snd r) \<le> 0xFFFF"
          "\<exists>t. outcome ca (Suc (Suc k)) P cs P1 cs1 [r] 0 t" using o unfolding if_P [OF ok] by blast
      then obtain t where o1: "outcome ca (Suc (Suc k)) P cs P1 cs1 [r] 0 t" by blast
      then have inv1: "prod_inv ca (Suc (Suc k)) P1 cs1" by (simp add: outcome_def)
      have e': "site' = site\<lparr>sd_announcedKey := ?key\<rparr>"
        "P' = (if hasByteArg args then emitChained ca clk scoped (siteId site) args P1
               else emitPlain ca clk scoped (siteId site) args P1)"
        using e d False ok by (auto simp: emitRecord_def Let_def seg_def)
      obtain cs' where "message_outcome ca k (siteId site) (clk 4) scoped args P1 cs1 P' cs'"
        using emitBody_outcome [OF inv1, of "siteId site" clk scoped args] e'(2) by blast
      from message_after [OF o1 this, of site'] e'(1) d1(1-4) False
      have "\<exists>msgs. emit_outcome ca k (clk 4) scoped site args P cs site' P' cs' [r] msgs" by simp blast
      then show ?thesis by blast
    qed
  qed
qed

lemma messageChain_messages:
  assumes "messageChain sid now c args trunc ss rs"
  shows "length (filter (\<lambda>r. rh_kind (fst r) = Message) rs) = 1"
proof -
  obtain h conts where s: "rs = (h, messageBytes sid now c (concat (map encodedArg args))) # conts" "rh_kind h = Message"
      "length conts = length ss"
      "\<forall>j < length ss. rh_kind (fst (conts ! j)) = Continuation"
    using messageChain_shape [OF assms] by metis
  have "rh_kind (fst r) \<noteq> Message" if "r \<in> set conts" for r
    using that s(3,4) by (metis RecordKind.distinct(1) RecordKind.simps in_set_conv_nth)
  then show ?thesis using s(1,2) by (simp add: filter_empty_conv)
qed

section \<open>Properties\<close>

text \<open>
  C6. One emit through a bound Logger loses nothing silently: it appends to the calling
  thread's log at most one definition of the site and then one Message with its
  continuations, or it appends no message and counts exactly one drop, which happens only
  when every chunk of the segment is claimed or the record fits no chunk.  The logs of
  other threads are untouched, and no message is written for a site this segment has not
  been told about.
\<close>

theorem emit_ledger:
  assumes "prod_inv ca (k + 4) P cs"
    and "length args + length (sd_format site) + length (sd_file site) < 2 ^ 32 - 28"
    and "emitRecord ca clk scoped True site args P = (site', P')"
  shows "\<exists>cs' defs msgs. prod_inv ca k P' cs'
    \<and> threadLog (ca_thread ca) cs' = threadLog (ca_thread ca) cs @ defs @ msgs
    \<and> (\<forall>t. t \<noteq> ca_thread ca \<longrightarrow> threadLog t cs' = threadLog t cs)
    \<and> length (filter (\<lambda>r. rh_kind (fst r) = Message) (defs @ msgs)) = (if msgs = [] then 0 else 1)
    \<and> dropped P' = (if msgs = [] then counterIncrement (ca_split ca) (dropped P) else dropped P)
    \<and> (msgs = [] \<longrightarrow> length cs' = unat (sg_chunkCount (seg P))
         \<or> \<not> (fitsEmpty P (messageSize args) \<and> fitsEmpty P (28 + length args)))
    \<and> (msgs \<noteq> [] \<longrightarrow> sd_announcedKey site = announceKey (ca_split ca) (seg P) \<or> defs \<noteq> [])
    \<and> (defs \<noteq> [] \<longrightarrow> length defs = 1 \<and> rh_kind (fst (hd defs)) = SiteDefinition
         \<and> site' = site\<lparr>sd_announcedKey := announceKey (ca_split ca) (seg P)\<rparr>)"
proof -
  obtain cs' defs msgs where e: "emit_outcome ca k (clk 4) scoped site args P cs site' P' cs' defs msgs"
    using emitRecord_outcome [OF assms] by blast
  note e' = e [unfolded emit_outcome_def Let_def]
  obtain t where o: "outcome ca k P cs P' cs' (defs @ msgs) (if msgs = [] then 1 else 0) t" using e' by blast
  have m: "length (filter (\<lambda>r. rh_kind (fst r) = Message) msgs) = (if msgs = [] then 0 else 1)"
    using e' messageChain_messages by (cases "msgs = []") auto
  have d: "filter (\<lambda>r. rh_kind (fst r) = Message) defs = []"
    using e' by (auto simp: isDefinition_def)
  have g: "grows (ca_thread ca) cs cs' (defs @ msgs)" using o by (simp add: outcome_def)
  show ?thesis
  proof (intro exI conjI)
    show "prod_inv ca k P' cs'" using o by (simp add: outcome_def)
    show "threadLog (ca_thread ca) cs' = threadLog (ca_thread ca) cs @ defs @ msgs" using g by (simp add: grows_def)
    show "\<forall>t. t \<noteq> ca_thread ca \<longrightarrow> threadLog t cs' = threadLog t cs" using grows_other [OF g] by blast
    show "length (filter (\<lambda>r. rh_kind (fst r) = Message) (defs @ msgs)) = (if msgs = [] then 0 else 1)"
      using m d by simp
    show "dropped P' = (if msgs = [] then counterIncrement (ca_split ca) (dropped P) else dropped P)"
      using o by (simp add: outcome_def)
  qed (use e' in \<open>auto simp: isDefinition_def\<close>)
qed

definition exampleSite :: SiteDescriptor where
  "exampleSite = \<lparr>sd_address = 0x4000, sd_format = [104, 105, 123, 125], sd_file = [97], sd_line = 12, sd_subsystem = 1,
     sd_severity = Info, sd_announcedKey = 0\<rparr>"

theorem emit_ledger_witness:
  "\<exists>cs' defs msgs. prod_inv (exampleCaller True) 0
      (snd (emitRecord (exampleCaller True) (\<lambda>i. 9) 0 True exampleSite [AU32 7] (exampleProducer True 448))) cs'
    \<and> threadLog 3 cs' = defs @ msgs"
proof -
  have "length [AU32 7] + length (sd_format exampleSite) + length (sd_file exampleSite) < 2 ^ 32 - 28"
    by (simp add: exampleSite_def)
  from emit_ledger [OF exampleProducer_inv this prod.collapse [symmetric], of 448 0 True "\<lambda>i. 9" 0]
  obtain cs' defs msgs where "prod_inv (exampleCaller True) 0
      (snd (emitRecord (exampleCaller True) (\<lambda>i. 9) 0 True exampleSite [AU32 7] (exampleProducer True 448))) cs'"
    "threadLog (ca_thread (exampleCaller True)) cs' = threadLog (ca_thread (exampleCaller True)) [] @ defs @ msgs"
    by simp blast
  moreover have "threadLog (ca_thread (exampleCaller True)) [] = []" "ca_thread (exampleCaller True) = 3"
    by (simp_all add: threadLog_def exampleCaller_def)
  ultimately show ?thesis by (metis append_Nil)
qed

text \<open>
  C23. Reserving a continuation chain is all or nothing: when the message and all its slices
  fit behind the writer, every slot is handed out, consecutively and one per slice, and
  otherwise the writer is left exactly as it was; the early return inside the reserving
  loop never happens, however many arguments there are and however long.
\<close>

theorem reserve_chain_all_or_nothing:
  assumes "cw_valid w" and "n \<le> 0xFFFF"
  shows "\<exists>conts. reserveChain (length args * cMaxContinuations) w n (overflowsOf args)
    = (if groupSize (n # contSizes (slicesOf args)) \<le> remaining w
       then (Some (nextSlot w, conts), advanceAll w (n # contSizes (slicesOf args))) else (None, w))
    \<and> (groupSize (n # contSizes (slicesOf args)) \<le> remaining w \<longrightarrow>
         map ct_reservation conts = slotsFor (advance w n) (contSizes (slicesOf args))
         \<and> (\<forall>sid. map (continuationBytes sid) conts = map (slicePayload sid) (slicesOf args)))"
  using reserveChain_cases [OF assms refl, of args]
  by (auto simp: continuationBytes_carries split: if_splits)

theorem reserve_chain_all_or_nothing_witness:
  "snd (reserveChain cMaxContinuations \<lparr>cw_base = 224, cw_size = 96, cw_offset = 0, cw_sequence = 0\<rparr> 538
     (overflowsOf [ABytes (replicate 600 65)])) = \<lparr>cw_base = 224, cw_size = 96, cw_offset = 0, cw_sequence = 0\<rparr>"
proof -
  let ?w = "\<lparr>cw_base = 224, cw_size = 96, cw_offset = 0, cw_sequence = 0\<rparr>"
  have w: "cw_valid ?w" "remaining ?w = 96" by (simp_all add: cw_valid_def remaining_def)
  have "\<not> groupSize (538 # contSizes (slicesOf [ABytes (replicate 600 65)])) \<le> 96" by (simp add: footprint_def align8_def)
  with w reserve_chain_all_or_nothing [OF w(1), of 538 "[ABytes (replicate 600 65)]"] show ?thesis by auto
qed

text \<open>
  C24. A site's definition survives whenever it possibly can: the attempt fails, with one
  drop counted, only when no chunk is left or even the definition without its strings fits
  none; when it succeeds the strings in it are the source's, or prefixes of them whose cut
  is flagged and counted, and they are cut only when no chunk takes them whole.
\<close>

theorem definition_survives:
  assumes "prod_inv ca (Suc (Suc k)) P cs" and "length codes + length fmt + length file < 2 ^ 32 - 28"
    and "writeSiteDefinitionCore ca clk sid sub sev fmt file line codes P = (ok, P')"
  shows "\<exists>cs' rs t. outcome ca k P cs P' cs' rs (if ok then 0 else 1) t
    \<and> (\<not> ok \<longrightarrow> rs = [] \<and> (length cs' = unat (sg_chunkCount (seg P)) \<or> \<not> fitsEmpty P (28 + length codes)))
    \<and> (ok \<longrightarrow> (\<exists>h fmt' file'. rs = [(h, definitionPayload sid sub sev fmt' file' line codes)]
         \<and> rh_kind h = SiteDefinition \<and> prefix fmt' fmt \<and> prefix file' file
         \<and> (if fmt' = fmt \<and> file' = file then t = 0
            else t = 1 \<and> \<not> fitsEmpty P (28 + length codes + length fmt + length file))))"
proof -
  note o = writeSiteDefinitionCore_outcome [OF assms, unfolded definition_outcome_def]
  show ?thesis
  proof (cases ok)
    case True
    with o obtain cs' r fmt' file' where d: "isDefinition sid sub sev fmt' file' line codes r" "prefix fmt' fmt"
        "prefix file' file" "outcome ca k P cs P' cs' [r] 0 (if fmt' = fmt \<and> file' = file then 0 else 1)"
        "fmt' = fmt \<and> file' = file \<or> \<not> fitsEmpty P (28 + length codes + length fmt + length file)"
      unfolding if_P [OF True] by blast
    then show ?thesis
      using True by (intro exI [of _ cs'] exI [of _ "[r]"] exI [of _ "if fmt' = fmt \<and> file' = file then 0 else 1"])
        (cases r, auto simp: isDefinition_def)
  next
    case False
    with o show ?thesis by auto
  qed
qed

theorem definition_survives_witness:
  "\<exists>cs' rs t. outcome (exampleCaller True) 0 (exampleProducer True 448) []
      (snd (writeSiteDefinitionCore (exampleCaller True) (\<lambda>i. 9) 0x4000 1 Info [104] [97] 12 [] (exampleProducer True 448)))
      cs' rs (if fst (writeSiteDefinitionCore (exampleCaller True) (\<lambda>i. 9) 0x4000 1 Info [104] [97] 12 []
                (exampleProducer True 448)) then 0 else 1) t"
proof -
  have small: "length ([] :: u8 list) + length [104 :: u8] + length [97 :: u8] < 2 ^ 32 - 28" by simp
  have inv: "prod_inv (exampleCaller True) (Suc (Suc 0)) (exampleProducer True 448) []"
    by (rule exampleProducer_inv) simp_all
  show ?thesis
    using definition_survives [OF inv small prod.collapse [symmetric], of "\<lambda>i. 9" "0x4000" 1 Info 12] by blast
qed

end
