(* ===== verification/Trace.thy ===== *)
theory Trace
  imports Decoder Emit
begin

text \<open>
  The producer and the reader together.  A run of emits by one thread, each naming its
  call site, is described by items, definitions and messages, whose records make up what
  the run appended to the thread's log; the image of the segment, opened, visited and
  decoded, gives back one record per message that was not dropped.  The same for the
  subsystem names declared at creation.
\<close>

section \<open>Definitions read back\<close>

lemma typeCodeOfByte_of: "typeCodeOfByte (typeCodeByte (typeCodeFor a)) = typeCodeFor a"
  by (cases a) (simp_all add: typeCodeOfByte_def)

lemma parse_definitionPayload:
  assumes "length codes \<le> 255" and "length fmt \<le> 0xFFFF" and "length file \<le> 0xFFFF"
  shows "parseSiteDefinition (definitionPayload sid sub sev fmt file line codes) =
    Some \<lparr>ds_siteId = sid, ds_subsystem = sub, ds_severity = sev, ds_line = line, ds_format = fmt,
          ds_file = file, ds_argTypes = map typeCodeOfByte codes\<rparr>"
proof -
  define prefix where "prefix = \<lparr>sdp_siteId = sid, sdp_subsystemId = sub, sdp_line = line, sdp_severity = sevCode sev,
    sdp_argCount = word_of_nat (length codes), sdp_reserved0 = 0, sdp_reserved1 = 0\<rparr>"
  let ?h = "SiteDefinitionPayload_bytes prefix"
  let ?f = "wordBytes (word_of_nat (length fmt) :: u16)" and ?i = "wordBytes (word_of_nat (length file) :: u16)"
  define p where "p = definitionPayload sid sub sev fmt file line codes"
  have p: "p = ?h @ codes @ ?f @ fmt @ ?i @ file" by (simp add: p_def definitionPayload_def prefix_def)
  have load: "SiteDefinitionPayload_load p = prefix" by (simp add: p SiteDefinitionPayload_load_bytes)
  have n: "unat (sdp_argCount prefix) = length codes" using assms(1) by (simp add: prefix_def unat_of_nat)
  have l: "unat (loadWord (24 + length codes) p :: u16) = length fmt"
  proof -
    have "(loadWord (24 + length codes) ((?h @ codes) @ ?f @ fmt @ ?i @ file) :: u16) = word_of_nat (length fmt)"
      by (rule loadWord_at) simp_all
    then show ?thesis using assms(2) by (simp add: p unat_of_nat)
  qed
  have l2: "unat (loadWord (26 + length codes + length fmt) p :: u16) = length file"
  proof -
    have "(loadWord (26 + length codes + length fmt) ((?h @ codes @ ?f @ fmt) @ ?i @ file) :: u16) = word_of_nat (length file)"
      by (rule loadWord_at) simp_all
    then show ?thesis using assms(3) by (simp add: p unat_of_nat)
  qed
  have len: "length p = 28 + length codes + length fmt + length file" by (simp add: p)
  have t: "take (length codes) (drop 24 p) = codes" "take (length fmt) (drop (26 + length codes) p) = fmt"
    "take (length file) (drop (28 + length codes + length fmt) p) = file"
    by (simp_all add: p)
  show ?thesis
    unfolding p_def [symmetric] parseSiteDefinition_def Let_def load n struct_sizes len
    by (simp add: l l2 t add.assoc [symmetric] flip: numeral_eq_Suc)
      (simp add: l l2 t prefix_def add.commute add.left_commute)
qed

section \<open>Arguments rejoined\<close>

text \<open>What a decoded message holds for an argument when its chain was written whole.\<close>

fun loggedArg :: "arg \<Rightarrow> DecodedArg" where
  "loggedArg (ABytes bs) = DString (take cArgCeiling bs)"
| "loggedArg (ACString p) = DString (case p of None \<Rightarrow> [] | Some cs \<Rightarrow> takeWhile (\<lambda>c. c \<noteq> 0) (take cArgCeiling cs))"
| "loggedArg a = decodedArg a"

lemma take_scanLength: "take (scanLength n p) p = takeWhile (\<lambda>c. c \<noteq> 0) (take n p)"
proof -
  have "takeWhile (\<lambda>c. c \<noteq> 0) (take n p) = take (length (takeWhile (\<lambda>c. c \<noteq> 0) (take n p))) (take n p)"
    by (metis takeWhile_eq_take)
  also have "\<dots> = take (scanLength n p) (take n p)" by (simp only: scanLength_eq)
  also have "\<dots> = take (scanLength n p) p" using scanLength_le(1) [of n p] by (simp add: min_def)
  finally show ?thesis ..
qed

lemma clamped_raw: "isByteArg a \<Longrightarrow> loggedArg a = DString (take (clampedLen a) (fst (rawBytesOf a)))"
proof (cases a)
  case (ABytes bs)
  then show ?thesis by (simp add: clampedLen_def min_def)
next
  case (ACString p)
  have "min (scanLength (cArgCeiling + 1) cs) cArgCeiling = scanLength cArgCeiling cs" for cs
    using scanLength_min [of cArgCeiling "cArgCeiling + 1" cs] by (simp add: min.commute)
  then show ?thesis
    using ACString by (auto simp: clampedLen_def rawBytesOf_CString take_scanLength split: option.splits)
qed simp_all

lemma decodedArg_inline:
  assumes "isByteArg a"
  shows "decodedArg a = DString (take (inlineLen a) (fst (rawBytesOf a)))"
proof -
  have "cInlineBytesCap \<le> cArgCeiling + 1" by (simp add: cArgCeiling_def cInlineBytesCap_def)
  then have "min (scanLength (cArgCeiling + 1) cs) cInlineBytesCap = scanLength cInlineBytesCap cs" for cs
    using scanLength_min [of cInlineBytesCap "cArgCeiling + 1" cs] by (simp add: min.commute)
  with assms show ?thesis
    by (cases a) (auto simp: inlineLen_eq rawBytesOf_CString boundedLength_def min.commute split: option.splits)
qed

lemma inline_overflow:
  assumes "isByteArg a"
  shows "DString (take (inlineLen a) (fst (rawBytesOf a)) @ overflowBytes a) = loggedArg a"
proof -
  have "inlineLen a + overflowLen a = clampedLen a"
    using assms by (simp add: overflowLen_def inlineLen_def)
  then show ?thesis
    using assms by (simp add: clamped_raw overflowBytes_def flip: take_add)
qed

lemma joinAll_append: "joinAll as (ss @ ss') = joinAll (joinAll as ss) ss'"
  by (induction as ss rule: joinAll.induct) simp_all

lemma joinAll_one:
  "i < length as \<Longrightarrow> as ! i = DString b \<Longrightarrow> joinAll as (map (Pair i) xs) = as[i := DString (b @ concat xs)]"
proof (induction xs arbitrary: as b)
  case Nil
  then show ?case by (metis append_Nil2 concat.simps(1) joinAll.simps(1) list.map(1) list_update_id)
next
  case (Cons x xs)
  then show ?case by simp
qed

lemma joinAll_slices: "joinAll (map decodedArg args) (slicesOf args) = map loggedArg args"
proof -
  have "joinAll (pre @ map decodedArg args) (sliceList (enumerate (length pre) args)) = pre @ map loggedArg args" for pre
  proof (induction args arbitrary: pre)
    case (Cons a args)
    let ?as = "pre @ map decodedArg (a # args)"
    have "joinAll ?as (map (Pair (length pre)) (slices (overflowBytes a))) = (pre @ [loggedArg a]) @ map decodedArg args"
    proof (cases "isByteArg a")
      case True
      then have "?as ! length pre = DString (take (inlineLen a) (fst (rawBytesOf a)))"
        by (simp add: decodedArg_inline)
      then have "joinAll ?as (map (Pair (length pre)) (slices (overflowBytes a)))
          = ?as[length pre := DString (take (inlineLen a) (fst (rawBytesOf a)) @ concat (slices (overflowBytes a)))]"
        by (intro joinAll_one) simp_all
      then show ?thesis using inline_overflow [OF True] by (simp add: concat_slices)
    next
      case False
      then have "overflowBytes a = []" "loggedArg a = decodedArg a"
        by (cases a; simp add: overflowBytes_def overflowLen_def)+
      then show ?thesis by simp
    qed
    then show ?case
      using Cons [of "pre @ [loggedArg a]"] by (simp add: joinAll_append)
  qed simp
  from this [of "[]"] show ?thesis by (simp add: slicesOf_def sliceList_def)
qed

lemma slicesOf_targets:
  "(i, x) \<in> set (slicesOf args) \<Longrightarrow> i < length args \<and> typeCodeFor (args ! i) = TcBytes"
proof -
  assume "(i, x) \<in> set (slicesOf args)"
  then obtain a where a: "i < length args" "a = args ! i" "x \<in> set (slices (overflowBytes a))"
    by (auto simp: slicesOf_def in_set_enumerate_eq)
  then have "overflowBytes a \<noteq> []" by auto
  then have "overflowLen a \<noteq> 0" by (metis length_0_conv overflowBytes_length)
  then have "isByteArg a" by (auto simp: overflowLen_def split: if_splits)
  then have "typeCodeFor a = TcBytes" by (cases a) simp_all
  with a show ?thesis by simp
qed

section \<open>Groups decoded\<close>

definition shows_record :: "logrec \<Rightarrow> RecordView \<Rightarrow> bool" where
  "shows_record r v \<longleftrightarrow> rv_head v = fst r \<and> rv_payload v = snd r"

lemma views_show: "list_all2 shows_record rs (views idx owner off rs)"
  by (induction rs arbitrary: off) (simp_all add: shows_record_def viewOf_def)

lemma chunkViews_show: "list_all2 shows_record (concat (map snd cs)) (chunkViews cb idx pos cs)"
  by (induction cs arbitrary: idx pos) (simp_all add: list_all2_appendI views_show)

lemma views_owner: "v \<in> set (views idx owner off rs) \<Longrightarrow> rv_ownerThread v = owner"
  by (induction rs arbitrary: off) (auto simp: viewOf_def)

lemma chunkViews_owner:
  "v \<in> set (chunkViews cb idx pos cs) \<Longrightarrow> \<forall>c \<in> set cs. ownerOf c = t \<Longrightarrow> rv_ownerThread v = t"
  by (induction cs arbitrary: idx pos) (auto simp: ownerOf_def dest: views_owner)

definition idle :: "PassState \<Rightarrow> bool" where
  "idle st \<longleftrightarrow> \<not> ps_expecting st \<and> ps_pending st = None \<and> \<not> ps_damaged st"

definition messageRecord ::
  "DecodedSite \<Rightarrow> u64 \<Rightarrow> u64 \<Rightarrow> u64 \<Rightarrow> bool \<Rightarrow> DecodedArg list \<Rightarrow> u64 \<Rightarrow> nat \<Rightarrow> DecodedRecord" where
  "messageRecord site now correlation owner trunc args g off =
     \<lparr>dr_site = Some site, dr_monoNs = now, dr_correlationId = correlation, dr_ownerThread = owner,
      dr_truncated = trunc, dr_args = args, dr_segmentGeneration = g, dr_recordOffset = off\<rparr>"

lemma flags_read:
  "((if b then cFlagTruncated else 0) OR (if c then cFlagContinued else 0)) AND cFlagTruncated \<noteq> 0 \<longleftrightarrow> b"
  "((if b then cFlagTruncated else 0) OR (if c then cFlagContinued else 0)) AND cFlagContinued \<noteq> 0 \<longleftrightarrow> c"
  "(if c then cFlagContinued else 0) AND cFlagContinued \<noteq> 0 \<longleftrightarrow> c"
  by (cases b; cases c; simp add: cFlagTruncated_def cFlagContinued_def)+

lemma decodeMessage_of:
  assumes "rh_kind (rv_head v) = Message"
    and "rv_payload v = messageBytes sid now c (concat (map encodedArg args))"
    and "rh_flags (rv_head v) = (if trunc then cFlagTruncated else 0) OR (if mr then cFlagContinued else 0)"
    and "siteFor dec sid = Some site" and "ds_argTypes site = map typeCodeFor args"
  shows "decodeMessage dec g st v =
    (let rec = messageRecord site now c (rv_ownerThread v) trunc (map decodedArg args) g (rv_recordOffset v)
     in if mr then st\<lparr>ps_pending := Some rec, ps_expecting := True, ps_damaged := False\<rparr>
        else st\<lparr>ps_result := ps_result st @ [rec]\<rparr>)"
proof -
  let ?m = "MessagePayload_bytes \<lparr>mp_siteId = sid, mp_monoNs = now, mp_correlationId = c\<rparr>"
  have p: "rv_payload v = ?m @ concat (map encodedArg args) @ []" using assms(2) by (simp add: messageBytes_def)
  have "length ?m = cMessagePayloadSize" by (simp add: struct_sizes)
  then have "decodeArgs (ds_argTypes site) cMessagePayloadSize (rv_payload v) = Some (map decodedArg args)"
    unfolding assms(5) p by (metis decodeArgs_encoded)
  moreover have "MessagePayload_load (rv_payload v) = \<lparr>mp_siteId = sid, mp_monoNs = now, mp_correlationId = c\<rparr>"
    unfolding p by (rule MessagePayload_load_bytes)
  moreover have "\<not> length (rv_payload v) < cMessagePayloadSize" by (simp add: p struct_sizes)
  ultimately show ?thesis
    using assms(1,4) by (simp add: decodeMessage_def Let_def assms(3) flags_read messageRecord_def)
qed

lemma passTwo_message:
  assumes mc: "messageChain sid now c args trunc ss rs" and vs: "list_all2 shows_record rs vs"
    and site: "siteFor dec sid = Some site" "ds_argTypes site = map typeCodeFor args" and n: "length args \<le> 255"
    and ss: "ss = [] \<or> ss = slicesOf args" and st: "idle st"
  shows "foldl (passTwo dec g) st vs = st\<lparr>ps_result := ps_result st
    @ [messageRecord site now c (rv_ownerThread (hd vs)) trunc (joinAll (map decodedArg args) ss) g (rv_recordOffset (hd vs))]\<rparr>"
proof -
  obtain h conts where s: "rs = (h, messageBytes sid now c (concat (map encodedArg args))) # conts" "rh_kind h = Message"
      "rh_flags h = (if trunc then cFlagTruncated else 0) OR (if ss \<noteq> [] then cFlagContinued else 0)"
      "length conts = length ss"
      "\<forall>j < length ss. rh_kind (fst (conts ! j)) = Continuation \<and> snd (conts ! j) = slicePayload sid (ss ! j)
         \<and> rh_flags (fst (conts ! j)) = (if j + 1 < length ss then cFlagContinued else 0)"
    by (rule messageChain_shape [OF mc])
  obtain v vs' where v: "vs = v # vs'" "shows_record (hd rs) v" "list_all2 shows_record conts vs'"
    using vs s(1) by (auto simp: list_all2_Cons1)
  define rec where "rec = messageRecord site now c (rv_ownerThread v) trunc (map decodedArg args) g (rv_recordOffset v)"
  have d: "decodeMessage dec g st v = (if ss \<noteq> [] then st\<lparr>ps_pending := Some rec, ps_expecting := True, ps_damaged := False\<rparr>
      else st\<lparr>ps_result := ps_result st @ [rec]\<rparr>)"
    using decodeMessage_of [OF _ _ _ site, of v now c trunc "ss \<noteq> []"] v(2) s(1-3)
    by (simp add: shows_record_def rec_def)
  have p: "passTwo dec g st v = decodeMessage dec g st v" using st by (simp add: passTwo_def idle_def)
  show ?thesis
  proof (cases "ss = []")
    case True
    then have "vs' = []" using s(4) v(3) by simp
    with True p d v(1) show ?thesis by (simp add: rec_def)
  next
    case False
    let ?st = "st\<lparr>ps_pending := Some rec, ps_expecting := True, ps_damaged := False\<rparr>"
    have ch: "chainOf sid ss vs'"
      using v(3) s(4,5) flags_read(3)
      by (auto simp: chainOf_def list_all2_conv_all_nth shows_record_def)
    have "\<forall>(i, xs) \<in> set ss. i < length (ds_argTypes site) \<and> ds_argTypes site ! i = TcBytes \<and> i < 256"
      using False ss n site(2) by (auto dest!: slicesOf_targets)
    then have "foldl (passTwo dec g) ?st vs' =
        ?st\<lparr>ps_result := ps_result ?st @ [rec\<lparr>dr_args := joinAll (dr_args rec) ss\<rparr>],
         ps_pending := None, ps_expecting := False, ps_damaged := False\<rparr>"
      using site(2) by (intro passTwo_chain [OF ch False, where site = site]) (simp_all add: rec_def messageRecord_def)
    then show ?thesis
      using False p d v(1) st by (simp add: rec_def messageRecord_def idle_def)
  qed
qed

section \<open>Runs of emits\<close>

text \<open>
  A thread's run: each emission names the call site by its index in the list of the
  program's descriptors.  A C++ call site has one argument type list, \<open>types ! i\<close>.
\<close>

record Emission =
  em_clock :: "nat \<Rightarrow> u64"
  em_scoped :: u64
  em_site :: nat
  em_args :: "arg list"

fun emitAll :: "Caller \<Rightarrow> Emission list \<Rightarrow> SiteDescriptor list \<Rightarrow> Producer \<Rightarrow> SiteDescriptor list \<times> Producer" where
  "emitAll ca [] sites P = (sites, P)"
| "emitAll ca (e # es) sites P =
     (let (site', P') = emitRecord ca (em_clock e) (em_scoped e) True (sites ! em_site e) (em_args e) P
      in emitAll ca es (sites[em_site e := site']) P')"

definition em_ok :: "TypeCode list list \<Rightarrow> Emission \<Rightarrow> bool" where
  "em_ok types e \<longleftrightarrow> em_site e < length types \<and> map typeCodeFor (em_args e) = types ! em_site e"

definition sites_ok :: "SiteDescriptor list \<Rightarrow> TypeCode list list \<Rightarrow> bool" where
  "sites_ok sites types \<longleftrightarrow> length types = length sites \<and> distinct (map siteId sites)
     \<and> (\<forall>i < length sites. length (types ! i) \<le> 255 \<and> (\<exists>args. types ! i = map typeCodeFor args)
          \<and> length (sd_format (sites ! i)) + length (sd_file (sites ! i)) < 2 ^ 32 - 300)"

definition anonymous :: "SiteDescriptor \<Rightarrow> SiteDescriptor" where
  "anonymous site = site\<lparr>sd_announcedKey := 0\<rparr>"

datatype item = IDef nat bytes bytes | IMsg Emission bool "(nat \<times> bytes) list"

fun definedSite :: "item \<Rightarrow> nat set" where
  "definedSite (IDef i fmt file) = {i}"
| "definedSite (IMsg e trunc ss) = {}"

fun itemMessage :: "item \<Rightarrow> (Emission \<times> bool \<times> (nat \<times> bytes) list) list" where
  "itemMessage (IDef i fmt file) = []"
| "itemMessage (IMsg e trunc ss) = [(e, trunc, ss)]"

definition definedSites :: "item list \<Rightarrow> nat set" where
  "definedSites items = \<Union> (set (map definedSite items))"

definition messagesOf :: "item list \<Rightarrow> (Emission \<times> bool \<times> (nat \<times> bytes) list) list" where
  "messagesOf items = concat (map itemMessage items)"

lemma item_simps [simp]:
  "definedSites [] = {}" "definedSites (x # xs) = definedSite x \<union> definedSites xs"
  "messagesOf [] = []" "messagesOf (x # xs) = itemMessage x @ messagesOf xs"
  by (simp_all add: definedSites_def messagesOf_def)

fun realizes :: "SiteDescriptor list \<Rightarrow> TypeCode list list \<Rightarrow> Producer \<Rightarrow> item \<Rightarrow> logrec list \<Rightarrow> bool" where
  "realizes sites types P (IDef i fmt file) rs \<longleftrightarrow>
     i < length sites \<and> prefix fmt (sd_format (sites ! i)) \<and> prefix file (sd_file (sites ! i))
     \<and> (\<exists>r. rs = [r] \<and> length (snd r) \<le> 0xFFFF
          \<and> isDefinition (siteId (sites ! i)) (sd_subsystem (sites ! i)) (sd_severity (sites ! i)) fmt file
              (sd_line (sites ! i)) (map typeCodeByte (types ! i)) r)"
| "realizes sites types P (IMsg e trunc ss) rs \<longleftrightarrow>
     em_ok types e \<and> writtenSlices P (em_args e) trunc ss
     \<and> messageChain (siteId (sites ! em_site e)) (em_clock e 4) (stampCorrelation (em_scoped e) (pr_logger P))
         (em_args e) trunc ss rs"

lemma realizes_same: "same_config P P' \<Longrightarrow> realizes sites types P' = realizes sites types P"
proof (intro ext)
  fix it rs assume "same_config P P'"
  then show "realizes sites types P' it rs = realizes sites types P it rs"
    by (cases it) (simp_all add: writtenSlices_same stampCorrelation_same)
qed

lemma announceKey_same: "same_config P P' \<Longrightarrow> announceKey split (seg P') = announceKey split (seg P)"
  by (auto simp: same_config_def announceKey_def)

lemma anonymous_fields:
  assumes "anonymous s = anonymous s'"
  shows "siteId s = siteId s'" "sd_subsystem s = sd_subsystem s'" "sd_severity s = sd_severity s'"
    "sd_format s = sd_format s'" "sd_file s = sd_file s'" "sd_line s = sd_line s'"
  using assms by (cases s; cases s'; simp add: anonymous_def siteId_def)+

text \<open>One emit of the run, as items and their records.\<close>

lemma emit_items:
  assumes inv: "prod_inv ca (k + 4) P cs" and ok: "sites_ok sites types" "em_ok types e"
    and site: "anonymous site = anonymous (sites ! em_site e)"
    and em: "emitRecord ca (em_clock e) (em_scoped e) True site (em_args e) P = (site', P')"
  obtains cs' items groups d t where "outcome ca k P cs P' cs' (concat groups) d t"
    "list_all2 (realizes sites types P) items groups" "anonymous site' = anonymous site"
    "length (messagesOf items) + d = 1" "map fst (messagesOf items) = [] \<or> map fst (messagesOf items) = [e]"
    "messagesOf items \<noteq> [] \<longrightarrow> sd_announcedKey site = announceKey (ca_split ca) (seg P) \<or> em_site e \<in> definedSites items"
    "sd_announcedKey site' = announceKey (ca_split ca) (seg P) \<longrightarrow>
       sd_announcedKey site = announceKey (ca_split ca) (seg P) \<or> em_site e \<in> definedSites items"
proof -
  let ?key = "announceKey (ca_split ca) (seg P)"
  note f = anonymous_fields [OF site]
  have i: "em_site e < length sites" "map typeCodeFor (em_args e) = types ! em_site e"
    using ok by (simp_all add: sites_ok_def em_ok_def)
  have codes: "map (typeCodeByte \<circ> typeCodeFor) (em_args e) = map typeCodeByte (types ! em_site e)"
    using i(2) by (metis map_map)
  have "length (em_args e) \<le> 255" using i ok(1) by (metis length_map sites_ok_def)
  moreover have "length (sd_format site) + length (sd_file site) < 2 ^ 32 - 300"
    using ok(1) i(1) f by (simp add: sites_ok_def)
  ultimately have "length (em_args e) + length (sd_format site) + length (sd_file site) < 2 ^ 32 - 28" by simp
  from emitRecord_outcome [OF inv this em] obtain cs' defs msgs where
    e: "emit_outcome ca k (em_clock e 4) (em_scoped e) site (em_args e) P cs site' P' cs' defs msgs" by blast
  note e' = e [unfolded emit_outcome_def Let_def codes f]
  obtain t where o: "outcome ca k P cs P' cs' (defs @ msgs) (if msgs = [] then 1 else 0) t" using e' by blast
  obtain ditems where d: "list_all2 (realizes sites types P) ditems (if defs = [] then [] else [defs])"
    "messagesOf ditems = []" "defs = [] \<or> em_site e \<in> definedSites ditems"
  proof (cases "defs = []")
    case True
    then show ?thesis using that [of "[]"] by simp
  next
    case False
    then obtain r fmt' file' where "defs = [r]" "prefix fmt' (sd_format (sites ! em_site e))"
      "prefix file' (sd_file (sites ! em_site e))" "length (snd r) \<le> 0xFFFF"
      "isDefinition (siteId (sites ! em_site e)) (sd_subsystem (sites ! em_site e)) (sd_severity (sites ! em_site e))
         fmt' file' (sd_line (sites ! em_site e)) (map typeCodeByte (types ! em_site e)) r"
      using e' by blast
    then show ?thesis using that [of "[IDef (em_site e) fmt' file']"] i(1) by simp
  qed
  obtain mitems where m: "list_all2 (realizes sites types P) mitems (if msgs = [] then [] else [msgs])"
    "definedSites mitems = {}" "length (messagesOf mitems) = (if msgs = [] then 0 else 1)"
    "map fst (messagesOf mitems) = (if msgs = [] then [] else [e])"
  proof (cases "msgs = []")
    case True
    then show ?thesis using that [of "[]"] by simp
  next
    case False
    then obtain ss trunc where "messageChain (siteId (sites ! em_site e)) (em_clock e 4)
        (stampCorrelation (em_scoped e) (pr_logger P)) (em_args e) trunc ss msgs" "writtenSlices P (em_args e) trunc ss"
      using e' by blast
    then show ?thesis using that [of "[IMsg e trunc ss]"] ok(2) False by simp
  qed
  have app: "definedSites (ditems @ mitems) = definedSites ditems \<union> definedSites mitems"
    "messagesOf (ditems @ mitems) = messagesOf ditems @ messagesOf mitems"
    by (simp_all add: definedSites_def messagesOf_def)
  let ?groups = "(if defs = [] then [] else [defs]) @ (if msgs = [] then [] else [msgs])"
  show thesis
  proof (rule that [of cs' ?groups "if msgs = [] then 1 else 0" t "ditems @ mitems"])
    show "outcome ca k P cs P' cs' (concat ?groups) (if msgs = [] then 1 else 0) t" using o by auto
    show "list_all2 (realizes sites types P) (ditems @ mitems) ?groups"
      using d(1) m(1) by (rule list_all2_appendI)
    show "anonymous site' = anonymous site" using e' by (simp add: anonymous_def)
    show "length (messagesOf (ditems @ mitems)) + (if msgs = [] then 1 else 0) = 1" using d(2) m(3) app by simp
    show "map fst (messagesOf (ditems @ mitems)) = [] \<or> map fst (messagesOf (ditems @ mitems)) = [e]"
      using d(2) m(4) app by simp
    show "messagesOf (ditems @ mitems) \<noteq> [] \<longrightarrow>
        sd_announcedKey site = ?key \<or> em_site e \<in> definedSites (ditems @ mitems)"
      using d m app e' by (auto split: if_splits)
    show "sd_announcedKey site' = ?key \<longrightarrow> sd_announcedKey site = ?key \<or> em_site e \<in> definedSites (ditems @ mitems)"
      using d m app e' by (auto split: if_splits)
  qed
qed

lemma outcome_mono: "outcome ca k P cs P' cs' rs d t \<Longrightarrow> k' \<le> k \<Longrightarrow> outcome ca k' P cs P' cs' rs d t"
  by (auto simp: outcome_def intro: prod_inv_mono)

text \<open>
  \<open>known\<close>: the sites whose key says this segment has their definition.  A run writes items
  whose records make up what it appends; a message's site is known or defined in the run.
\<close>

definition knownSites :: "Caller \<Rightarrow> Producer \<Rightarrow> SiteDescriptor list \<Rightarrow> nat set" where
  "knownSites ca P sites = {i. i < length sites \<and> sd_announcedKey (sites ! i) = announceKey (ca_split ca) (seg P)}"

definition run_outcome ::
  "Caller \<Rightarrow> nat \<Rightarrow> SiteDescriptor list \<Rightarrow> TypeCode list list \<Rightarrow> Emission list \<Rightarrow> nat set \<Rightarrow> Producer \<Rightarrow> chunklog list
    \<Rightarrow> Producer \<Rightarrow> bool" where
  "run_outcome ca k sites types es known P cs P' \<longleftrightarrow>
     (\<exists>cs' items groups d t. outcome ca k P cs P' cs' (concat groups) d t
        \<and> list_all2 (realizes sites types P) items groups
        \<and> length (messagesOf items) + d = length es \<and> subseq (map fst (messagesOf items)) es
        \<and> (\<forall>(e, trunc, ss) \<in> set (messagesOf items). em_site e \<in> known \<union> definedSites items))"

lemma messagesOf_append: "messagesOf (xs @ ys) = messagesOf xs @ messagesOf ys"
  "definedSites (xs @ ys) = definedSites xs \<union> definedSites ys"
  by (simp_all add: messagesOf_def definedSites_def)

lemma emitAll_run:
  assumes "sites_ok sites types" and "\<forall>e \<in> set es. em_ok types e" and "prod_inv ca (k + 4 * length es) P cs"
    and "map anonymous cur = map anonymous sites" and "emitAll ca es cur P = (sites', P')"
  shows "run_outcome ca k sites types es (knownSites ca P cur) P cs P'"
  using assms(2-)
proof (induction es arbitrary: cur P cs)
  case Nil
  then have "outcome ca k P cs P' cs (concat []) 0 0" by (auto intro: outcome_refl)
  then show ?case unfolding run_outcome_def by (metis (no_types, lifting) add.right_neutral empty_iff item_simps(3)
        list.map(1) list.rel_intros(1) list.set(1) list.size(3) subseq_order.order_refl)
next
  case (Cons e es)
  let ?i = "em_site e" and ?key = "announceKey (ca_split ca) (seg P)"
  obtain site' P1 where em: "emitRecord ca (em_clock e) (em_scoped e) True (cur ! ?i) (em_args e) P = (site', P1)"
    by (metis surj_pair)
  have len: "length cur = length sites" using Cons.prems(3) by (rule map_eq_imp_length_eq)
  have eok: "em_ok types e" using Cons.prems(1) by simp
  then have i: "?i < length cur" using assms(1) len by (simp add: em_ok_def sites_ok_def)
  have an: "anonymous (cur ! ?i) = anonymous (sites ! ?i)"
    using Cons.prems(3) i len by (metis nth_map)
  have inv: "prod_inv ca ((k + 4 * length es) + 4) P cs" using Cons.prems(2) by (simp add: algebra_simps)
  obtain cs1 items1 groups1 d1 t1 where s1: "outcome ca (k + 4 * length es) P cs P1 cs1 (concat groups1) d1 t1"
    "list_all2 (realizes sites types P) items1 groups1" "anonymous site' = anonymous (cur ! ?i)"
    "length (messagesOf items1) + d1 = 1" "map fst (messagesOf items1) = [] \<or> map fst (messagesOf items1) = [e]"
    "messagesOf items1 \<noteq> [] \<longrightarrow> sd_announcedKey (cur ! ?i) = ?key \<or> ?i \<in> definedSites items1"
    "sd_announcedKey site' = ?key \<longrightarrow> sd_announcedKey (cur ! ?i) = ?key \<or> ?i \<in> definedSites items1"
    by (rule emit_items [OF inv assms(1) eok an em])
  note sc = outcome_same_config [OF s1(1)]
  let ?cur = "cur[?i := site']"
  have "map anonymous ?cur = map anonymous sites"
    using Cons.prems(3) s1(3) i by (simp add: map_update) (metis list_update_id nth_map)
  moreover have "prod_inv ca (k + 4 * length es) P1 cs1" using s1(1) by (simp add: outcome_def)
  moreover have "emitAll ca es ?cur P1 = (sites', P')" using Cons.prems(4) em by simp
  ultimately have "run_outcome ca k sites types es (knownSites ca P1 ?cur) P1 cs1 P'"
    using Cons.prems(1) by (intro Cons.IH) simp_all
  then obtain cs2 items2 groups2 d2 t2 where s2: "outcome ca k P1 cs1 P' cs2 (concat groups2) d2 t2"
    "list_all2 (realizes sites types P) items2 groups2" "length (messagesOf items2) + d2 = length es"
    "subseq (map fst (messagesOf items2)) es"
    "\<forall>(e, trunc, ss) \<in> set (messagesOf items2). em_site e \<in> knownSites ca P1 ?cur \<union> definedSites items2"
    unfolding run_outcome_def realizes_same [OF sc] by blast
  have known: "knownSites ca P1 ?cur \<subseteq> knownSites ca P cur \<union> definedSites items1"
  proof
    fix x assume "x \<in> knownSites ca P1 ?cur"
    then have x: "x < length cur" "sd_announcedKey (?cur ! x) = ?key"
      by (simp_all add: knownSites_def announceKey_same [OF sc])
    then show "x \<in> knownSites ca P cur \<union> definedSites items1"
      using s1(7) by (cases "x = ?i") (auto simp: knownSites_def)
  qed
  have "outcome ca k P cs P' cs2 (concat (groups1 @ groups2)) (d1 + d2) (t1 + t2)"
    using outcome_trans [OF s1(1) s2(1)] by simp
  moreover have "list_all2 (realizes sites types P) (items1 @ items2) (groups1 @ groups2)"
    using s1(2) s2(2) by (rule list_all2_appendI)
  moreover have "length (messagesOf (items1 @ items2)) + (d1 + d2) = length (e # es)"
    using s1(4) s2(3) by (simp add: messagesOf_append)
  moreover have "subseq (map fst (messagesOf (items1 @ items2))) (e # es)"
    using s1(5) s2(4) by (auto simp: messagesOf_append)
  moreover have "em_site e' \<in> knownSites ca P cur \<union> definedSites (items1 @ items2)"
    if "(e', trunc, ss) \<in> set (messagesOf (items1 @ items2))" for e' trunc ss
  proof (cases "(e', trunc, ss) \<in> set (messagesOf items1)")
    case True
    then have "e' = e" "messagesOf items1 \<noteq> []" using s1(5) by (auto simp: map_eq_Cons_conv)
    then show ?thesis using s1(6) i by (auto simp: knownSites_def messagesOf_append)
  next
    case False
    then show ?thesis using that s2(5) known by (auto simp: messagesOf_append)
  qed
  ultimately show ?case unfolding run_outcome_def by blast
qed

section \<open>Runs decoded\<close>

lemma shows_split:
  "list_all2 shows_record (concat groups) vs \<Longrightarrow> \<exists>vss. vs = concat vss \<and> list_all2 (list_all2 shows_record) groups vss"
proof (induction groups arbitrary: vs)
  case (Cons g groups)
  then obtain v1 v2 where v: "vs = v1 @ v2" "list_all2 shows_record g v1" "list_all2 shows_record (concat groups) v2"
    by (auto simp: list_all2_append1)
  from Cons.IH [OF v(3)] obtain vss where "v2 = concat vss" "list_all2 (list_all2 shows_record) groups vss" by blast
  with v show ?case by (intro exI [of _ "v1 # vss"]) simp
qed simp

definition siteMatches :: "SiteDescriptor \<Rightarrow> TypeCode list \<Rightarrow> DecodedSite \<Rightarrow> bool" where
  "siteMatches site codes ds \<longleftrightarrow>
     ds_siteId ds = siteId site \<and> ds_subsystem ds = sd_subsystem site \<and> ds_severity ds = sd_severity site
     \<and> ds_line ds = sd_line site \<and> prefix (ds_format ds) (sd_format site) \<and> prefix (ds_file ds) (sd_file site)
     \<and> ds_argTypes ds = codes"

lemma definition_view:
  assumes "sites_ok sites types" and "realizes sites types P (IDef i fmt file) rs" and "list_all2 shows_record rs vs"
  obtains v ds where "vs = [v]" "siteDefOf v = Some ds" "siteMatches (sites ! i) (types ! i) ds" "i < length sites"
    "rh_kind (rv_head v) = SiteDefinition"
proof -
  let ?s = "sites ! i"
  obtain r where r: "rs = [r]" "length (snd r) \<le> 0xFFFF" "i < length sites" "prefix fmt (sd_format ?s)" "prefix file (sd_file ?s)"
      "isDefinition (siteId ?s) (sd_subsystem ?s) (sd_severity ?s) fmt file (sd_line ?s) (map typeCodeByte (types ! i)) r"
    using assms(2) by auto
  obtain v where v: "vs = [v]" "rv_head v = fst r" "rv_payload v = snd r"
    using assms(3) r(1) by (auto simp: list_all2_Cons1 shows_record_def)
  obtain args where "types ! i = map typeCodeFor args" and n: "length (types ! i) \<le> 255"
    using assms(1) r(3) by (auto simp: sites_ok_def)
  then have t: "map typeCodeOfByte (map typeCodeByte (types ! i)) = types ! i" by (simp add: typeCodeOfByte_of)
  have p: "snd r = definitionPayload (siteId ?s) (sd_subsystem ?s) (sd_severity ?s) fmt file (sd_line ?s) (map typeCodeByte (types ! i))"
    and kd: "rh_kind (fst r) = SiteDefinition" using r(6) by (simp_all add: isDefinition_def)
  have "length fmt \<le> 0xFFFF" "length file \<le> 0xFFFF"
    using r(2) by (simp_all add: p length_definitionPayload)
  then have "siteDefOf v = Some \<lparr>ds_siteId = siteId ?s, ds_subsystem = sd_subsystem ?s, ds_severity = sd_severity ?s,
      ds_line = sd_line ?s, ds_format = fmt, ds_file = file, ds_argTypes = types ! i\<rparr>"
    using n v kd t by (simp add: siteDefOf_def p parse_definitionPayload)
  then show thesis using that v(1,2) r(3-5) kd by (simp add: siteMatches_def)
qed

lemma message_kinds:
  assumes "messageChain sid now c args trunc ss rs" and "list_all2 shows_record rs vs" and "v \<in> set vs"
  shows "rh_kind (rv_head v) = Message \<or> rh_kind (rv_head v) = Continuation"
proof -
  obtain h conts where s: "rs = (h, messageBytes sid now c (concat (map encodedArg args))) # conts" "rh_kind h = Message"
      "length conts = length ss" "\<forall>j < length ss. rh_kind (fst (conts ! j)) = Continuation"
    using messageChain_shape [OF assms(1)] by metis
  obtain j where j: "j < length rs" "rv_head v = fst (rs ! j)"
    using assms(2,3) by (auto simp: list_all2_conv_all_nth in_set_conv_nth shows_record_def)
  then show ?thesis using s by (cases j) auto
qed

lemma message_views:
  assumes "realizes sites types P (IMsg e trunc ss) rs" and "list_all2 shows_record rs vs" and "v \<in> set vs"
  shows "siteDefOf v = None" "\<not> badDefinition v" "passOne dec v = dec"
proof -
  from assms(1) have "rh_kind (rv_head v) = Message \<or> rh_kind (rv_head v) = Continuation"
    using message_kinds [OF _ assms(2,3)] by simp blast
  then show "siteDefOf v = None" "\<not> badDefinition v" "passOne dec v = dec"
    by (auto simp: siteDefOf_def badDefinition_def passOne_def)
qed

lemma firstSite_append:
  "firstSite (vs @ vs') i = (case firstSite vs i of None \<Rightarrow> firstSite vs' i | Some s \<Rightarrow> Some s)"
  by (induction vs) (auto split: option.splits)

lemma firstSite_none: "\<forall>v \<in> set vs. siteDefOf v = None \<Longrightarrow> firstSite vs i = None"
  by (induction vs) auto

lemma definedSites_bound:
  "list_all2 (realizes sites types P) items groups \<Longrightarrow> i \<in> definedSites items \<Longrightarrow> i < length sites"
proof (induction items groups rule: list_all2_induct)
  case (Cons it items g groups)
  then show ?case by (cases it) auto
qed simp

lemma run_site_table:
  assumes ok: "sites_ok sites types" and "list_all2 (realizes sites types P) items groups"
    and "list_all2 (list_all2 shows_record) groups vss" and "i \<in> definedSites items"
  shows "\<exists>ds. firstSite (concat vss) (siteId (sites ! i)) = Some ds \<and> siteMatches (sites ! i) (types ! i) ds"
  using assms(2-)
proof (induction items groups arbitrary: vss rule: list_all2_induct)
  case (Cons it items g groups)
  obtain vs vss' where v: "vss = vs # vss'" "list_all2 shows_record g vs" "list_all2 (list_all2 shows_record) groups vss'"
    using Cons.prems(1) by (auto simp: list_all2_Cons1)
  show ?case
  proof (cases it)
    case (IDef j fmt f)
    then obtain w ds where w: "vs = [w]" "siteDefOf w = Some ds" "siteMatches (sites ! j) (types ! j) ds" "j < length sites"
      using definition_view [OF ok _ v(2)] Cons.hyps(1) by metis
    show ?thesis
    proof (cases "siteId (sites ! j) = siteId (sites ! i)")
      case True
      have "i < length sites"
        using Cons.prems(2) definedSites_bound [OF Cons.hyps(2)] IDef w(4) by auto
      then have "i = j" using True ok w(4) by (simp add: sites_ok_def distinct_conv_nth) (metis nth_map)
      then show ?thesis using w v(1) by (simp add: siteMatches_def)
    next
      case False
      then have "i \<in> definedSites items" using Cons.prems(2) IDef by auto
      with Cons.IH [OF v(3)] False show ?thesis using w v(1) by (simp add: siteMatches_def)
    qed
  next
    case (IMsg e trunc ss)
    then have "firstSite vs x = None" for x
      using Cons.hyps(1) message_views(1) [OF _ v(2)] by (intro firstSite_none) auto
    then show ?thesis using Cons.IH [OF v(3)] Cons.prems(2) IMsg v(1) by (simp add: firstSite_append)
  qed
qed simp

lemma run_pass_one:
  assumes ok: "sites_ok sites types" and "list_all2 (realizes sites types P) items groups"
    and "list_all2 (list_all2 shows_record) groups vss"
  shows "dc_undecodable (foldl passOne dec (concat vss)) = dc_undecodable dec
    \<and> dc_skipped (foldl passOne dec (concat vss)) = dc_skipped dec"
  using assms(2-)
proof (induction items groups arbitrary: vss dec rule: list_all2_induct)
  case (Cons it items g groups)
  obtain vs vss' where v: "vss = vs # vss'" "list_all2 shows_record g vs" "list_all2 (list_all2 shows_record) groups vss'"
    using Cons.prems(1) by (auto simp: list_all2_Cons1)
  have "dc_undecodable (foldl passOne dec vs) = dc_undecodable dec \<and> dc_skipped (foldl passOne dec vs) = dc_skipped dec"
  proof (cases it)
    case (IDef j fmt f)
    then obtain w ds where "vs = [w]" "siteDefOf w = Some ds" "rh_kind (rv_head w) = SiteDefinition"
      using definition_view [OF ok _ v(2)] Cons.hyps(1) by metis
    then show ?thesis by (simp add: passOne_def siteDefOf_def)
  next
    case (IMsg e trunc ss)
    then have "\<forall>v \<in> set vs. \<forall>dec. passOne dec v = dec" using Cons.hyps(1) message_views(3) [OF _ v(2)] by auto
    then have "foldl passOne dec vs = dec" by (induction vs) simp_all
    then show ?thesis by simp
  qed
  then show ?case using Cons.IH [OF v(3)] v(1) by simp
qed simp

text \<open>
  What a decoded record holds of an emission: its site, time, correlation and thread, and
  all argument bytes up to the ceiling, flagged when an argument went past it; or, when no
  chunk takes the chain, the inline part of each argument, flagged.
\<close>

definition logged ::
  "SiteDescriptor list \<Rightarrow> TypeCode list list \<Rightarrow> Caller \<Rightarrow> Producer \<Rightarrow> Emission \<Rightarrow> DecodedRecord \<Rightarrow> bool" where
  "logged sites types ca P e rec \<longleftrightarrow>
     (\<exists>site. dr_site rec = Some site \<and> siteMatches (sites ! em_site e) (types ! em_site e) site)
     \<and> dr_monoNs rec = em_clock e 4
     \<and> dr_correlationId rec = stampCorrelation (em_scoped e) (pr_logger P)
     \<and> dr_ownerThread rec = ca_thread ca \<and> dr_segmentGeneration rec = sg_generation (seg P)
     \<and> (dr_args rec = map loggedArg (em_args e) \<and> dr_truncated rec = list_ex pastCeiling (em_args e)
        \<or> dr_args rec = map decodedArg (em_args e) \<and> dr_truncated rec \<and> \<not> chainFits P (em_args e))"

lemma passTwo_definition:
  "rh_kind (rv_head v) = SiteDefinition \<Longrightarrow> idle st \<Longrightarrow> passTwo dec g st v = st"
  by (simp add: passTwo_def idle_def decodeMessage_def)

lemma run_pass_two:
  assumes ok: "sites_ok sites types" and "list_all2 (realizes sites types P) items groups"
    and "list_all2 (list_all2 shows_record) groups vss"
    and owner: "\<forall>v \<in> set (concat vss). rv_ownerThread v = ca_thread ca"
    and table: "\<forall>(e, trunc, ss) \<in> set (messagesOf items). \<exists>ds. siteFor dec (siteId (sites ! em_site e)) = Some ds
      \<and> siteMatches (sites ! em_site e) (types ! em_site e) ds"
    and "idle st" and g: "g = sg_generation (seg P)"
  shows "\<exists>recs. foldl (passTwo dec g) st (concat vss) = st\<lparr>ps_result := ps_result st @ recs\<rparr>
    \<and> list_all2 (logged sites types ca P) (map fst (messagesOf items)) recs"
  using assms(2-6)
proof (induction items groups arbitrary: vss st rule: list_all2_induct)
  case Nil
  then show ?case by (intro exI [of _ "[]"]) simp
next
  case (Cons it items g' groups)
  obtain vs vss' where v: "vss = vs # vss'" "list_all2 shows_record g' vs" "list_all2 (list_all2 shows_record) groups vss'"
    using Cons.prems(1) by (auto simp: list_all2_Cons1)
  have rest: "\<exists>recs. foldl (passTwo dec g) st' (concat vss') = st'\<lparr>ps_result := ps_result st' @ recs\<rparr>
      \<and> list_all2 (logged sites types ca P) (map fst (messagesOf items)) recs" if "idle st'" for st'
    using Cons.prems(2,3) v(1) by (intro Cons.IH [OF v(3) _ _ that]) auto
  show ?case
  proof (cases it)
    case (IDef j fmt f)
    then obtain w where "vs = [w]" "rh_kind (rv_head w) = SiteDefinition"
      using definition_view [OF ok _ v(2)] Cons.hyps(1) by metis
    then show ?thesis
      using rest [OF Cons.prems(4)] Cons.prems(4) v(1) IDef by (simp add: passTwo_definition)
  next
    case (IMsg e trunc ss)
    let ?s = "sites ! em_site e"
    have m: "em_ok types e" "writtenSlices P (em_args e) trunc ss" "messageChain (siteId ?s) (em_clock e 4)
        (stampCorrelation (em_scoped e) (pr_logger P)) (em_args e) trunc ss g'"
      using Cons.hyps(1) IMsg by simp_all
    obtain ds where ds: "siteFor dec (siteId ?s) = Some ds" "siteMatches ?s (types ! em_site e) ds"
      using Cons.prems(3) IMsg by auto
    have types: "ds_argTypes ds = map typeCodeFor (em_args e)" using ds(2) m(1) by (simp add: siteMatches_def em_ok_def)
    have n: "length (em_args e) \<le> 255" using ok m(1) by (metis em_ok_def length_map sites_ok_def)
    have ss: "ss = [] \<or> ss = slicesOf (em_args e)" using m(2) by (auto simp: writtenSlices_def)
    have ne: "vs \<noteq> []" using messageChain_nonempty [OF m(3)] v(2) by auto
    let ?rec = "messageRecord ds (em_clock e 4) (stampCorrelation (em_scoped e) (pr_logger P)) (rv_ownerThread (hd vs)) trunc
      (joinAll (map decodedArg (em_args e)) ss) g (rv_recordOffset (hd vs))"
    let ?st = "st\<lparr>ps_result := ps_result st @ [?rec]\<rparr>"
    have f: "foldl (passTwo dec g) st vs = ?st"
      by (rule passTwo_message [OF m(3) v(2) ds(1) types n ss Cons.prems(4)])
    have "idle ?st" using Cons.prems(4) by (simp add: idle_def)
    then obtain recs where r: "foldl (passTwo dec g) ?st (concat vss') = ?st\<lparr>ps_result := ps_result ?st @ recs\<rparr>"
      "list_all2 (logged sites types ca P) (map fst (messagesOf items)) recs" using rest by blast
    have "dr_args ?rec = map loggedArg (em_args e) \<and> dr_truncated ?rec = list_ex pastCeiling (em_args e)
        \<or> dr_args ?rec = map decodedArg (em_args e) \<and> dr_truncated ?rec \<and> \<not> chainFits P (em_args e)"
      using m(2) by (auto simp: writtenSlices_def messageRecord_def joinAll_slices)
    moreover have "rv_ownerThread (hd vs) = ca_thread ca" using Cons.prems(2) ne v(1) by simp
    ultimately have "logged sites types ca P e ?rec"
      using ds(2) g by (simp add: logged_def messageRecord_def)
    then show ?thesis
      using r f v(1) IMsg by (intro exI [of _ "?rec # recs"]) simp
  qed
qed

lemma grows_from_empty:
  assumes "grows t [] cs rs"
  shows "\<forall>c \<in> set cs. ownerOf c = t" "concat (map snd cs) = rs"
proof -
  show o: "\<forall>c \<in> set cs. ownerOf c = t" 
  proof
    fix c assume "c \<in> set cs"
    then obtain j where "j < length cs" "c = cs ! j" by (metis in_set_conv_nth)
    then show "ownerOf c = t" using assms by (simp add: grows_def)
  qed
  then have "filter (\<lambda>c. ownerOf c = t) cs = cs" by simp
  moreover have "threadLog t cs = rs" using assms by (simp add: grows_def threadLog_def)
  ultimately show "concat (map snd cs) = rs" by (simp add: threadLog_def)
qed

lemma opened_generation: "seg_inv split k s cs \<Longrightarrow> sh_generation (sr_header (openSegment (sg_bytes s))) = sg_generation s"
proof -
  assume "seg_inv split k s cs"
  then have "sh_generation (SegmentHeader_load (sg_bytes s)) = sg_generation s" "136 \<le> length (sg_bytes s)"
    by (simp_all add: seg_inv_def seg_geometry_def Let_def)
  then show ?thesis by (simp add: openSegment_def Let_def struct_sizes)
qed

lemma run_decodes:
  assumes ok: "sites_ok sites types" "\<forall>e \<in> set es. em_ok types e" and inv: "prod_inv ca (4 * length es) P []"
    and fresh: "\<forall>site \<in> set sites. sd_announcedKey site \<noteq> announceKey (ca_split ca) (seg P)"
    and em: "emitAll ca es sites P = (sites', P')"
    and dec: "decodeAll newDecoder (openSegment (sg_bytes (seg P'))) = (recs, dec)"
  shows "\<exists>kept. subseq kept es \<and> list_all2 (logged sites types ca P) kept recs
    \<and> dropped P' = (counterIncrement (ca_split ca) ^^ (length es - length kept)) (dropped P)
    \<and> dc_undecodable dec = 0 \<and> dc_skipped dec = 0"
proof -
  have none: "knownSites ca P sites = {}" using fresh by (auto simp: knownSites_def)
  have inv0: "prod_inv ca (0 + 4 * length es) P []" using inv by simp
  obtain cs items groups d t where o: "outcome ca 0 P [] P' cs (concat groups) d t"
    and items: "list_all2 (realizes sites types P) items groups"
    and n: "length (messagesOf items) + d = length es" "subseq (map fst (messagesOf items)) es"
    and known: "\<forall>(e, trunc, ss) \<in> set (messagesOf items). em_site e \<in> definedSites items"
    using emitAll_run [OF ok inv0 refl em] unfolding run_outcome_def none Un_empty_left by blast
  have sinv: "seg_inv (ca_split ca) 0 (seg P') cs" using o by (simp add: outcome_def prod_inv_def)
  define vs where "vs = chunkViews (unat (sg_chunkBytes (seg P'))) 0 (unat (sg_headerBytes (seg P'))) cs"
  have visit: "fst (visit (openSegment (sg_bytes (seg P')))) = vs" using visit_segment [OF sinv] by (simp add: vs_def)
  have g: "grows (ca_thread ca) [] cs (concat groups)" using o by (simp add: outcome_def)
  have owner: "\<forall>v \<in> set vs. rv_ownerThread v = ca_thread ca"
    using chunkViews_owner grows_from_empty(1) [OF g] by (auto simp: vs_def)
  have "list_all2 shows_record (concat groups) vs"
    using chunkViews_show [of cs] grows_from_empty(2) [OF g] by (simp add: vs_def)
  then obtain vss where vss: "vs = concat vss" "list_all2 (list_all2 shows_record) groups vss" using shows_split by blast
  define D where "D = foldl passOne newDecoder vs"
  have D: "dc_undecodable D = 0" "dc_skipped D = 0"
    using run_pass_one [OF ok(1) items vss(2), of newDecoder] by (simp_all add: D_def vss(1) newDecoder_def)
  have table: "\<forall>(e, trunc, ss) \<in> set (messagesOf items). \<exists>ds. siteFor D (siteId (sites ! em_site e)) = Some ds
      \<and> siteMatches (sites ! em_site e) (types ! em_site e) ds"
    using known run_site_table [OF ok(1) items vss(2)]
    by (fastforce simp: D_def siteFor_def foldl_passOne_sites newDecoder_def vss(1))
  have gen: "sh_generation (sr_header (openSegment (sg_bytes (seg P')))) = sg_generation (seg P)"
    using opened_generation [OF sinv] outcome_same_config [OF o] by (auto simp: same_config_def)
  have idle: "idle (startPassTwo D)" by (simp add: idle_def startPassTwo_def)
  obtain rs where r: "foldl (passTwo D (sg_generation (seg P))) (startPassTwo D) vs
      = (startPassTwo D)\<lparr>ps_result := ps_result (startPassTwo D) @ rs\<rparr>"
    "list_all2 (logged sites types ca P) (map fst (messagesOf items)) rs"
    using run_pass_two [OF ok(1) items vss(2) _ table idle refl] owner unfolding vss(1) by blast
  have "(recs, dec) = (rs, D\<lparr>dc_undecodable := dc_undecodable D, dc_skipped := dc_skipped D\<rparr>)"
    using dec unfolding decodeAll_def Let_def visit D_def [symmetric] gen r(1)
    by (simp add: endPassTwo_def finalizePending_def startPassTwo_def)
  moreover have "dropped P' = (counterIncrement (ca_split ca) ^^ (length es - length (map fst (messagesOf items)))) (dropped P)"
  proof -
    have "length es - length (map fst (messagesOf items)) = d" using n(1) by simp
    then show ?thesis using o by (simp add: outcome_def)
  qed
  ultimately show ?thesis using n(2) r(2) D by (intro exI [of _ "map fst (messagesOf items)"]) simp
qed

section \<open>Subsystem names decoded\<close>

lemma parse_subsystemPayload:
  "length name \<le> 0xFFFF \<Longrightarrow> parseSubsystemDefinition (subsystemPayload ident name) = Some (ident, name)"
  by (simp add: parseSubsystemDefinition_def subsystemPayload_def Let_def SubsystemDefinitionPayload_load_bytes
      struct_sizes unat_of_nat)

definition namesRecord :: "u32 \<times> bytes \<Rightarrow> logrec \<Rightarrow> bool" where
  "namesRecord n r \<longleftrightarrow> rh_kind (fst r) = SubsystemDefinition \<and> snd r = subsystemPayload (fst n) (take cInlineBytesCap (snd n))"

lemma declareAll_run:
  assumes "prod_inv ca (k + 2 * length names) P cs"
  shows "\<exists>cs' kept rs d t. outcome ca k P cs (declareAll ca clock i names P) cs' rs d t \<and> subseq kept names
    \<and> list_all2 namesRecord kept rs \<and> length kept + d = length names"
  using assms
proof (induction names arbitrary: i P cs)
  case Nil
  then have "outcome ca k P cs P cs [] 0 0" by (intro outcome_refl) simp
  then show ?case by force
next
  case (Cons n names)
  obtain ident name where n: "n = (ident, name)" by (cases n)
  obtain ok P1 where w: "writeSubsystemDefinition ca (clock i) (clock (i + 1)) ident name P = (ok, P1)" by (metis surj_pair)
  have "prod_inv ca (Suc (Suc (k + 2 * length names))) P cs" using Cons.prems by simp
  note wo = writeSubsystemDefinition_outcome [OF this w]
  have "\<exists>cs1 kept1 rs1 d1 t1. outcome ca (k + 2 * length names) P cs P1 cs1 rs1 d1 t1
      \<and> list_all2 namesRecord kept1 rs1 \<and> length kept1 + d1 = 1 \<and> (kept1 = [] \<or> kept1 = [n])"
  proof (cases ok)
    case True
    then obtain cs1 h t1 where "outcome ca (k + 2 * length names) P cs P1 cs1
        [(h, subsystemPayload ident (take cInlineBytesCap name))] 0 t1" "rh_kind h = SubsystemDefinition"
      using wo by auto
    then have "list_all2 namesRecord [n] [(h, subsystemPayload ident (take cInlineBytesCap name))]"
      by (simp add: namesRecord_def n)
    then show ?thesis using \<open>outcome _ _ _ _ _ _ _ _ _\<close>
      by (metis One_nat_def add_cancel_right_right list.size(3,4) plus_1_eq_Suc add.commute)
  next
    case False
    then obtain cs1 where "outcome ca (k + 2 * length names) P cs P1 cs1 [] 1 0" using wo by auto
    then show ?thesis by (metis add_0 list.rel_intros(1) list.size(3))
  qed
  then obtain cs1 kept1 rs1 d1 t1 where s1: "outcome ca (k + 2 * length names) P cs P1 cs1 rs1 d1 t1"
    "list_all2 namesRecord kept1 rs1" "length kept1 + d1 = 1" "kept1 = [] \<or> kept1 = [n]" by blast
  then have "prod_inv ca (k + 2 * length names) P1 cs1" by (simp add: outcome_def)
  from Cons.IH [OF this, of "i + 2"] obtain cs2 kept2 rs2 d2 t2 where
    s2: "outcome ca k P1 cs1 (declareAll ca clock (i + 2) names P1) cs2 rs2 d2 t2" "subseq kept2 names"
    "list_all2 namesRecord kept2 rs2" "length kept2 + d2 = length names" by blast
  have "outcome ca k P cs (declareAll ca clock i (n # names) P) cs2 (rs1 @ rs2) (d1 + d2) (t1 + t2)"
    using outcome_trans [OF s1(1) s2(1)] w by (simp add: n)
  moreover have "subseq (kept1 @ kept2) (n # names)" using s1(4) s2(2) by auto
  moreover have "list_all2 namesRecord (kept1 @ kept2) (rs1 @ rs2)" using s1(2) s2(3) by (rule list_all2_appendI)
  moreover have "length (kept1 @ kept2) + (d1 + d2) = length (n # names)" using s1(3) s2(4) by simp
  ultimately show ?case by blast
qed

lemma names_pass_one:
  assumes "list_all2 namesRecord kept rs" and "list_all2 shows_record rs vs"
  shows "dc_subsystemNames (foldl passOne dec vs) i = (case dc_subsystemNames dec i of Some n \<Rightarrow> Some n
    | None \<Rightarrow> map_option (take cInlineBytesCap) (map_of kept i))"
  using assms
proof (induction kept rs arbitrary: vs dec rule: list_all2_induct)
  case Nil
  then show ?case by (simp split: option.split)
next
  case (Cons n kept r rs)
  obtain v vs' where v: "vs = v # vs'" "shows_record r v" "list_all2 shows_record rs vs'"
    using Cons.prems by (auto simp: list_all2_Cons1)
  have "length (take cInlineBytesCap (snd n)) \<le> 0xFFFF" by (simp add: cInlineBytesCap_def)
  then have "passOne dec v = dec\<lparr>dc_subsystemNames :=
      tryEmplace (fst n) (take cInlineBytesCap (snd n)) (dc_subsystemNames dec)\<rparr>"
    using v(2) Cons.hyps(1) by (simp add: passOne_def shows_record_def namesRecord_def parse_subsystemPayload)
  with v Cons.IH [OF v(3)] show ?case
    by (cases n) (auto simp: tryEmplace_def split: option.splits)
qed

lemma declared_names:
  assumes inv: "prod_inv ca (2 * length names) P []" and P': "P' = declareAll ca clock 0 names P"
  shows "\<exists>kept. subseq kept names
    \<and> dropped P' = (counterIncrement (ca_split ca) ^^ (length names - length kept)) (dropped P)
    \<and> (\<forall>i. subsystemName (snd (decodeAll newDecoder (openSegment (sg_bytes (seg P'))))) i
         = (case map_of kept i of None \<Rightarrow> [] | Some name \<Rightarrow> take cInlineBytesCap name))"
proof -
  have "prod_inv ca (0 + 2 * length names) P []" using inv by simp
  then obtain cs kept rs d t where o: "outcome ca 0 P [] P' cs rs d t" and s: "subseq kept names"
    and k: "list_all2 namesRecord kept rs" and n: "length kept + d = length names"
    using declareAll_run [of ca 0 names P "[]" clock 0] P' by blast
  have sinv: "seg_inv (ca_split ca) 0 (seg P') cs" using o by (simp add: outcome_def prod_inv_def)
  have g: "grows (ca_thread ca) [] cs rs" using o by (simp add: outcome_def)
  let ?vs = "chunkViews (unat (sg_chunkBytes (seg P'))) 0 (unat (sg_headerBytes (seg P'))) cs"
  have vs: "list_all2 shows_record rs ?vs" using chunkViews_show [of cs] grows_from_empty(2) [OF g] by simp
  have "subsystemName (snd (decodeAll newDecoder (openSegment (sg_bytes (seg P'))))) i
      = (case map_of kept i of None \<Rightarrow> [] | Some name \<Rightarrow> take cInlineBytesCap name)" for i
    using names_pass_one [OF k vs, of newDecoder i] visit_segment [OF sinv]
    by (simp add: subsystemName_def decodeAll_def Let_def newDecoder_def split: option.split)
  moreover have "length names - length kept = d" using n by simp
  ultimately show ?thesis using o s by (auto simp: outcome_def)
qed

end
