(* ===== verification/Threads.thy ===== *)
theory Threads
  imports Trace
begin

text \<open>
  The logging macro of \<^verbatim>\<open>include/sub0log/log.hpp\<close>, called by several threads of a process on
  one Logger.  The threads share the Logger, the process variables and the call sites'
  descriptors and have a writer cache each; their calls interleave in any order.  A call
  writes only to its own thread's chunks and claims new ones from the shared cursor, so
  whole calls are the steps.  The image that results, decoded, gives every thread's calls
  back in the thread's order.
\<close>

section \<open>The macro\<close>

definition logCall ::
  "Caller \<Rightarrow> (nat \<Rightarrow> u64) \<Rightarrow> u64 \<Rightarrow> SiteDescriptor \<Rightarrow> arg list \<Rightarrow> Process \<Rightarrow> Producer
    \<Rightarrow> Process \<times> SiteDescriptor \<times> Producer" where
  "logCall ca clk scoped site args p P =
     (let (on, p') = enabled (ca_split ca) (sd_severity site) (sd_subsystem site) (pr_logger P) p
      in if \<not> on then (p', site, P)
         else let (site', P') = emitRecord ca clk scoped (pc_active p' \<noteq> 0) site args P
              in (p', site', P'))"

section \<open>Threads\<close>

record World =
  wd_logger :: Logger
  wd_process :: Process
  wd_sites :: "SiteDescriptor list"
  wd_caches :: "u64 \<Rightarrow> WriterCache"

type_synonym call = "u64 \<times> Emission"

definition thread :: "Caller \<Rightarrow> u64 \<Rightarrow> Caller" where
  "thread ca t = ca\<lparr>ca_thread := t\<rparr>"

lemma thread_simps [simp]:
  "ca_split (thread ca t) = ca_split ca" "ca_self (thread ca t) = ca_self ca" "ca_thread (thread ca t) = t"
  by (simp_all add: thread_def)

definition producer :: "World \<Rightarrow> u64 \<Rightarrow> Producer" where
  "producer w t = \<lparr>pr_logger = wd_logger w, pr_cache = wd_caches w t\<rparr>"

definition threadCall :: "Caller \<Rightarrow> World \<Rightarrow> call \<Rightarrow> World" where
  "threadCall ca w c =
     (case c of (t, e) \<Rightarrow>
        let (p', site', P') = logCall (thread ca t) (em_clock e) (em_scoped e) (wd_sites w ! em_site e) (em_args e)
                                (wd_process w) (producer w t)
        in \<lparr>wd_logger = pr_logger P', wd_process = p', wd_sites = (wd_sites w)[em_site e := site'],
            wd_caches = (wd_caches w)(t := pr_cache P')\<rparr>)"

definition runThreads :: "Caller \<Rightarrow> call list \<Rightarrow> World \<Rightarrow> World" where
  "runThreads ca calls w = foldl (threadCall ca) w calls"

text \<open>The calls the threshold in force lets through.\<close>

definition passes :: "Logger \<Rightarrow> SiteDescriptor list \<Rightarrow> call \<Rightarrow> bool" where
  "passes lg sites c \<longleftrightarrow>
     (let site = sites ! em_site (snd c) in atLeast (sd_severity site) (subsystemThreshold lg (sd_subsystem site)))"

text \<open>Every thread has its own cache's invariant on the same segment.\<close>

definition world_inv :: "Caller \<Rightarrow> nat \<Rightarrow> World \<Rightarrow> chunklog list \<Rightarrow> bool" where
  "world_inv ca k w cs \<longleftrightarrow> (\<forall>t. prod_inv (thread ca t) k (producer w t) cs)"

lemma producer_fields [simp]:
  "pr_logger (producer w t) = wd_logger w" "pr_cache (producer w t) = wd_caches w t"
  "seg (producer w t) = lg_segment (wd_logger w)"
  by (simp_all add: producer_def seg_def)

lemma same_config_threads:
  "same_config (producer w t) P \<longleftrightarrow> same_config (producer w u) P"
  "same_config P (producer w t) \<longleftrightarrow> same_config P (producer w u)"
  by (simp_all add: same_config_def)

lemma other_thread:
  assumes inv: "prod_inv (thread ca u) k' (producer w u) cs" and o: "outcome (thread ca t) k (producer w t) cs P' cs' rs d tr"
    and other: "u \<noteq> t"
  shows "prod_inv (thread ca u) k \<lparr>pr_logger = pr_logger P', pr_cache = wd_caches w u\<rparr> cs'"
proof -
  let ?Q = "\<lparr>pr_logger = pr_logger P', pr_cache = wd_caches w u\<rparr>"
  obtain bs where s: "seg P' = (lg_segment (wd_logger w))\<lparr>sg_bytes := bs\<rparr>"
    using o by (auto simp: outcome_def same_config_def)
  have q: "seg ?Q = seg P'" "writer ?Q = writer (producer w u)" "owns (thread ca u) ?Q = owns (thread ca u) (producer w u)"
    using s by (simp_all add: seg_def writer_def owns_def)
  have "\<exists>i. lastOf u cs' i \<and> writer ?Q = writerAt (seg ?Q) i (snd (cs' ! i))"
    if own: "owns (thread ca u) ?Q" "cw_valid (writer ?Q)"
  proof -
    have "owns (thread ca u) (producer w u)" "cw_valid (writer (producer w u))" using own q by simp_all
    then obtain i where i: "lastOf u cs i" "writer (producer w u) = writerAt (lg_segment (wd_logger w)) i (snd (cs ! i))"
      using inv by (auto simp: prod_inv_def)
    have g: "grows t cs cs' rs" using o by (simp add: outcome_def)
    note l = grows_lastOf [OF g other i(1)]
    from l i(2) show ?thesis by (intro exI [of _ i]) (simp add: q(1,2) s del: producer_fields)
  qed
  moreover have "seg_inv (ca_split ca) k (seg P') cs'" "\<forall>c \<in> set cs'. closedFrom False (snd c)"
    using o by (simp_all add: outcome_def prod_inv_def)
  ultimately show ?thesis using q(1) by (simp add: prod_inv_def)
qed

section \<open>Events\<close>

text \<open>What a run wrote, in the order of the calls: the thread, what it was, and its records.\<close>

type_synonym event = "u64 \<times> item \<times> logrec list"

definition eventItems :: "event list \<Rightarrow> item list" where
  "eventItems evs = map (fst \<circ> snd) evs"

definition eventGroups :: "event list \<Rightarrow> logrec list list" where
  "eventGroups evs = map (snd \<circ> snd) evs"

definition ofThread :: "u64 \<Rightarrow> event list \<Rightarrow> event list" where
  "ofThread u evs = filter (\<lambda>ev. fst ev = u) evs"

definition keptCalls :: "event list \<Rightarrow> call list" where
  "keptCalls evs = concat (map (\<lambda>ev. map (\<lambda>m. (fst ev, fst m)) (itemMessage (fst (snd ev)))) evs)"

lemma event_simps [simp]:
  "eventItems [] = []" "eventItems (ev # evs) = fst (snd ev) # eventItems evs" "eventItems (xs @ ys) = eventItems xs @ eventItems ys"
  "eventGroups [] = []" "eventGroups (ev # evs) = snd (snd ev) # eventGroups evs" "eventGroups (xs @ ys) = eventGroups xs @ eventGroups ys"
  "ofThread u [] = []" "ofThread u (ev # evs) = (if fst ev = u then ev # ofThread u evs else ofThread u evs)"
  "ofThread u (xs @ ys) = ofThread u xs @ ofThread u ys"
  "keptCalls [] = []" "keptCalls (xs @ ys) = keptCalls xs @ keptCalls ys"
  "keptCalls (ev # evs) = map (\<lambda>m. (fst ev, fst m)) (itemMessage (fst (snd ev))) @ keptCalls evs"
  by (simp_all add: eventItems_def eventGroups_def ofThread_def keptCalls_def)

lemma kept_items: "map snd (keptCalls evs) = map fst (messagesOf (eventItems evs))"
  by (induction evs) (simp_all add: comp_def)

lemma kept_thread: "filter (\<lambda>c. fst c = u) (keptCalls evs) = keptCalls (ofThread u evs)"
  by (induction evs) (simp_all add: filter_map comp_def)

definition realized :: "SiteDescriptor list \<Rightarrow> TypeCode list list \<Rightarrow> Producer \<Rightarrow> event list \<Rightarrow> bool" where
  "realized sites types P evs \<longleftrightarrow> (\<forall>ev \<in> set evs. realizes sites types P (fst (snd ev)) (snd (snd ev)))"

lemma realized_items: "realized sites types P evs \<Longrightarrow> list_all2 (realizes sites types P) (eventItems evs) (eventGroups evs)"
  by (induction evs) (simp_all add: realized_def)

lemma realized_same: "same_config P P' \<Longrightarrow> realized sites types P' = realized sites types P"
  by (intro ext) (simp add: realized_def realizes_same)

definition threadEvents :: "u64 \<Rightarrow> item list \<Rightarrow> logrec list list \<Rightarrow> event list" where
  "threadEvents t items groups = map (Pair t) (zip items groups)"

lemma threadEvents_simps:
  assumes "list_all2 R items groups"
  shows "eventItems (threadEvents t items groups) = items" "eventGroups (threadEvents t items groups) = groups"
    "ofThread u (threadEvents t items groups) = (if u = t then threadEvents t items groups else [])"
    "keptCalls (threadEvents t items groups) = map (Pair t) (map fst (messagesOf items))"
  using assms by (induction items groups rule: list_all2_induct) (auto simp: threadEvents_def comp_def)

lemma threadEvents_realized:
  "list_all2 (realizes sites types P) items groups \<Longrightarrow> realized sites types P (threadEvents t items groups)"
  by (auto simp: realized_def threadEvents_def list_all2_iff)

definition world_outcome ::
  "Caller \<Rightarrow> nat \<Rightarrow> SiteDescriptor list \<Rightarrow> TypeCode list list \<Rightarrow> call list \<Rightarrow> nat set \<Rightarrow> World \<Rightarrow> chunklog list
    \<Rightarrow> World \<Rightarrow> chunklog list \<Rightarrow> event list \<Rightarrow> bool" where
  "world_outcome ca k sites types calls known w cs w' cs' evs \<longleftrightarrow>
     world_inv ca k w' cs' \<and> same_config (producer w 0) (producer w' 0) \<and> wd_process w' = wd_process w
     \<and> map anonymous (wd_sites w') = map anonymous (wd_sites w)
     \<and> (\<forall>u. threadLog u cs' = threadLog u cs @ concat (eventGroups (ofThread u evs)))
     \<and> realized sites types (producer w 0) evs \<and> subseq (keptCalls evs) calls
     \<and> lg_dropped (wd_logger w') = (counterIncrement (ca_split ca) ^^ (length calls - length (keptCalls evs))) (lg_dropped (wd_logger w))
     \<and> (\<forall>c \<in> set (keptCalls evs). em_site (snd c) \<in> known \<union> definedSites (eventItems evs))"

text \<open>One call that the threshold lets through.\<close>

lemma call_emits:
  assumes inv: "world_inv ca (k + 4) w cs" and ok: "sites_ok sites types" "em_ok types e"
    and sites: "map anonymous (wd_sites w) = map anonymous sites"
    and on: "passes (wd_logger w) sites (t, e)" and bound: "pc_active (wd_process w) \<noteq> 0"
  shows "\<exists>cs' evs. world_outcome ca k sites types [(t, e)] (knownSites ca (producer w 0) (wd_sites w))
      w cs (threadCall ca w (t, e)) cs' evs
    \<and> knownSites ca (producer w 0) (wd_sites (threadCall ca w (t, e)))
        \<subseteq> knownSites ca (producer w 0) (wd_sites w) \<union> definedSites (eventItems evs)"
proof -
  let ?ca = "thread ca t" and ?P = "producer w t" and ?site = "wd_sites w ! em_site e"
  have len: "length (wd_sites w) = length sites" using sites by (rule map_eq_imp_length_eq)
  have i: "em_site e < length (wd_sites w)" using ok len by (simp add: em_ok_def sites_ok_def)
  have an: "anonymous ?site = anonymous (sites ! em_site e)" using sites i len by (metis nth_map)
  note f = anonymous_fields [OF an]
  obtain site' P' where em: "emitRecord ?ca (em_clock e) (em_scoped e) True ?site (em_args e) ?P = (site', P')"
    by (metis surj_pair)
  have w': "threadCall ca w (t, e) = \<lparr>wd_logger = pr_logger P', wd_process = wd_process w,
      wd_sites = (wd_sites w)[em_site e := site'], wd_caches = (wd_caches w)(t := pr_cache P')\<rparr>"
    using on bound em
    by (simp add: threadCall_def logCall_def enabled_def passes_def Let_def f)
  have tinv: "prod_inv ?ca (k + 4) ?P cs" using inv by (simp add: world_inv_def)
  let ?key = "announceKey (ca_split ?ca) (seg ?P)"
  obtain cs' items groups d tr where o: "outcome ?ca k ?P cs P' cs' (concat groups) d tr"
    "list_all2 (realizes sites types ?P) items groups" "anonymous site' = anonymous ?site"
    "length (messagesOf items) + d = 1" "map fst (messagesOf items) = [] \<or> map fst (messagesOf items) = [e]"
    "messagesOf items \<noteq> [] \<longrightarrow> sd_announcedKey ?site = ?key \<or> em_site e \<in> definedSites items"
    "sd_announcedKey site' = ?key \<longrightarrow> sd_announcedKey ?site = ?key \<or> em_site e \<in> definedSites items"
    by (rule emit_items [OF tinv ok an em])
  define evs where "evs = threadEvents t items groups"
  note ev = threadEvents_simps [OF o(2), where t = t, folded evs_def]
  let ?w' = "threadCall ca w (t, e)"
  have "world_inv ca k ?w' cs'"
    unfolding world_inv_def
  proof
    fix u
    show "prod_inv (thread ca u) k (producer ?w' u) cs'"
    proof (cases "u = t")
      case True
      then have "producer ?w' u = P'" by (simp add: w' producer_def)
      then show ?thesis using o(1) True by (simp add: outcome_def)
    next
      case False
      then have "producer ?w' u = \<lparr>pr_logger = pr_logger P', pr_cache = wd_caches w u\<rparr>" by (simp add: w' producer_def)
      moreover have "prod_inv (thread ca u) (k + 4) (producer w u) cs" using inv by (simp add: world_inv_def)
      ultimately show ?thesis using other_thread [OF _ o(1) False] by metis
    qed
  qed
  moreover have "same_config (producer w 0) (producer ?w' 0)"
    using outcome_same_config [OF o(1)] by (simp add: w' same_config_def seg_def)
  moreover have "threadLog u cs' = threadLog u cs @ concat (eventGroups (ofThread u evs))" for u
    using o(1) ev(2,3) grows_other [of t cs cs' _ u] by (auto simp: outcome_def grows_def)
  moreover have "realized sites types (producer w 0) evs"
    using threadEvents_realized [OF o(2), of t, folded evs_def] realized_same [of "producer w 0" ?P]
    by (simp add: same_config_def)
  moreover have kept: "keptCalls evs = [] \<or> keptCalls evs = [(t, e)]" using o(5) ev(4) by auto
  moreover have "lg_dropped (wd_logger ?w') = (counterIncrement (ca_split ca) ^^ (1 - length (keptCalls evs))) (lg_dropped (wd_logger w))"
  proof -
    have "length (keptCalls evs) + d = 1" using o(4) ev(4) by simp
    then have "d = 1 - length (keptCalls evs)" by simp
    then show ?thesis using o(1) by (simp add: outcome_def w' dropped_def)
  qed
  moreover have "map anonymous (wd_sites ?w') = map anonymous (wd_sites w)"
    using o(3) i by (simp add: w' map_update) (metis list_update_id nth_map)
  moreover have "em_site (snd c) \<in> knownSites ca (producer w 0) (wd_sites w) \<union> definedSites (eventItems evs)"
    if "c \<in> set (keptCalls evs)" for c
  proof -
    have "c = (t, e)" "messagesOf items \<noteq> []" using that kept ev(4) by auto
    then show ?thesis using o(6) i ev(1) by (auto simp: knownSites_def)
  qed
  moreover have "knownSites ca (producer w 0) (wd_sites ?w')
      \<subseteq> knownSites ca (producer w 0) (wd_sites w) \<union> definedSites (eventItems evs)"
  proof
    fix x assume "x \<in> knownSites ca (producer w 0) (wd_sites ?w')"
    then show "x \<in> knownSites ca (producer w 0) (wd_sites w) \<union> definedSites (eventItems evs)"
      using o(7) ev(1) by (cases "x = em_site e") (auto simp: knownSites_def w')
  qed
  ultimately show ?thesis unfolding world_outcome_def by (intro exI [of _ cs'] exI [of _ evs]) (auto simp: w')
qed

lemma call_refused:
  assumes "\<not> passes (wd_logger w) sites (t, e)" and "map anonymous (wd_sites w) = map anonymous sites"
    and "em_site e < length sites" and "pc_active (wd_process w) \<noteq> 0"
  shows "threadCall ca w (t, e) = w"
proof -
  have "length (wd_sites w) = length sites" using assms(2) by (rule map_eq_imp_length_eq)
  then have an: "anonymous (wd_sites w ! em_site e) = anonymous (sites ! em_site e)" using assms(2,3) by (metis nth_map)
  show ?thesis
    using assms(1,4) by (simp add: threadCall_def logCall_def enabled_def passes_def Let_def anonymous_fields [OF an])
qed

text \<open>Any number of calls.\<close>

lemma world_refl: "world_inv ca k w cs \<Longrightarrow> world_outcome ca k sites types [] known w cs w cs []"
  by (simp add: world_outcome_def realized_def same_config_def)

lemma world_inv_mono: "world_inv ca k w cs \<Longrightarrow> k' \<le> k \<Longrightarrow> world_inv ca k' w cs"
  by (auto simp: world_inv_def intro: prod_inv_mono)

lemma passes_same: "same_config (producer w 0) (producer w' 0) \<Longrightarrow> passes (wd_logger w') = passes (wd_logger w)"
  by (intro ext) (simp add: passes_def same_config_def subsystemThreshold_def)

lemma world_trans:
  assumes s1: "world_outcome ca k sites types calls known w cs w1 cs1 evs"
    and s2: "world_outcome ca k' sites types calls' known' w1 cs1 w2 cs2 evs'"
    and known: "known' \<subseteq> known \<union> definedSites (eventItems evs)"
  shows "world_outcome ca k' sites types (calls @ calls') known w cs w2 cs2 (evs @ evs')"
proof -
  note a = s1 [unfolded world_outcome_def] and b = s2 [unfolded world_outcome_def]
  let ?f = "counterIncrement (ca_split ca)"
  have "length (keptCalls evs) \<le> length calls" "length (keptCalls evs') \<le> length calls'"
    using a b list_emb_length by blast+
  then have n: "length (calls @ calls') - length (keptCalls (evs @ evs'))
      = (length calls - length (keptCalls evs)) + (length calls' - length (keptCalls evs'))" by simp
  have fp: "(f ^^ q) ((f ^^ p) x) = (f ^^ (p + q)) x" for f :: "u64 \<Rightarrow> u64" and p q x
    by (simp add: funpow_add add.commute [of p])
  have "same_config (producer w 0) (producer w2 0)" using a b by (auto simp: same_config_def)
  moreover have "realized sites types (producer w 0) (evs @ evs')"
    using a b realized_same [of "producer w 0" "producer w1 0" sites types] by (auto simp: realized_def)
  moreover have "subseq (keptCalls (evs @ evs')) (calls @ calls')" using a b by (simp add: list_emb_append_mono)
  moreover have "lg_dropped (wd_logger w2) =
      (?f ^^ (length (calls @ calls') - length (keptCalls (evs @ evs')))) (lg_dropped (wd_logger w))"
    unfolding n using a b by (simp add: fp)
  moreover have "\<forall>c \<in> set (keptCalls (evs @ evs')). em_site (snd c) \<in> known \<union> definedSites (eventItems (evs @ evs'))"
    using a b known by (auto simp: messagesOf_append)
  ultimately show ?thesis using a b by (auto simp: world_outcome_def)
qed

lemma world_run:
  assumes "sites_ok sites types" and "\<forall>c \<in> set calls. em_ok types (snd c)"
    and "world_inv ca (k + 4 * length calls) w cs"
    and "map anonymous (wd_sites w) = map anonymous sites" and "pc_active (wd_process w) \<noteq> 0"
  shows "\<exists>cs' evs. world_outcome ca k sites types (filter (passes (wd_logger w) sites) calls)
    (knownSites ca (producer w 0) (wd_sites w)) w cs (runThreads ca calls w) cs' evs"
  using assms(2-)
proof (induction calls arbitrary: w cs)
  case Nil
  then have "world_inv ca k w cs" by simp
  from world_refl [OF this] have "world_outcome ca k sites types [] (knownSites ca (producer w 0) (wd_sites w)) w cs w cs []" .
  then show ?case by (auto simp: runThreads_def)
next
  case (Cons c calls)
  obtain t e where c: "c = (t, e)" by (cases c)
  have eok: "em_ok types e" using Cons.prems(1) c by simp
  have step: "runThreads ca (c # calls) w = runThreads ca calls (threadCall ca w c)" by (simp add: runThreads_def)
  show ?case
  proof (cases "passes (wd_logger w) sites c")
    case True
    have inv: "world_inv ca ((k + 4 * length calls) + 4) w cs" using Cons.prems(2) by (simp add: algebra_simps)
    let ?w1 = "threadCall ca w c"
    obtain cs1 evs1 where s1: "world_outcome ca (k + 4 * length calls) sites types [c]
        (knownSites ca (producer w 0) (wd_sites w)) w cs ?w1 cs1 evs1"
      and k1: "knownSites ca (producer w 0) (wd_sites ?w1)
        \<subseteq> knownSites ca (producer w 0) (wd_sites w) \<union> definedSites (eventItems evs1)"
      using call_emits [OF inv assms(1) eok Cons.prems(3) True [unfolded c] Cons.prems(4)] unfolding c by blast
    note a = s1 [unfolded world_outcome_def]
    have same: "same_config (producer w 0) (producer ?w1 0)" using a by blast
    have "\<exists>cs' evs. world_outcome ca k sites types (filter (passes (wd_logger ?w1) sites) calls)
        (knownSites ca (producer ?w1 0) (wd_sites ?w1)) ?w1 cs1 (runThreads ca calls ?w1) cs' evs"
    proof (rule Cons.IH)
      show "\<forall>c \<in> set calls. em_ok types (snd c)" using Cons.prems(1) by simp
      show "world_inv ca (k + 4 * length calls) ?w1 cs1" using a by blast
      show "map anonymous (wd_sites ?w1) = map anonymous sites" using a Cons.prems(3) by simp
      show "pc_active (wd_process ?w1) \<noteq> 0" using a Cons.prems(4) by simp
    qed
    then obtain cs2 evs2 where s2: "world_outcome ca k sites types (filter (passes (wd_logger w) sites) calls)
        (knownSites ca (producer w 0) (wd_sites ?w1)) ?w1 cs1 (runThreads ca calls ?w1) cs2 evs2"
      using announceKey_same [OF same, of "ca_split ca"] passes_same [OF same] by (auto simp: knownSites_def)
    from world_trans [OF s1 s2 k1] True show ?thesis unfolding step by auto
  next
    case False
    have "em_site e < length sites" using eok assms(1) by (simp add: em_ok_def sites_ok_def)
    then have w: "threadCall ca w c = w" using call_refused [OF _ Cons.prems(3) _ Cons.prems(4)] False c by simp
    have "world_inv ca (k + 4 * length calls) w cs" by (rule world_inv_mono [OF Cons.prems(2)]) simp
    with Cons.IH [of w cs] Cons.prems False show ?thesis by (simp add: step w)
  qed
qed

section \<open>The order of the chunks\<close>

text \<open>A group no nonempty closed part of which starts it: it lies in one chunk.\<close>

definition whole :: "logrec list \<Rightarrow> bool" where
  "whole g \<longleftrightarrow> g \<noteq> [] \<and> closedFrom False g \<and> (\<forall>pre. prefix pre g \<longrightarrow> pre \<noteq> [] \<longrightarrow> closedFrom False pre \<longrightarrow> pre = g)"

lemma continuations_whole:
  assumes "closedFrom True pre" and "prefix pre rs"
    and "\<forall>j < length rs. rh_kind (fst (rs ! j)) = Continuation \<and> (continues (rs ! j) \<longleftrightarrow> j + 1 < length rs)"
  shows "pre = rs"
  using assms
proof (induction rs arbitrary: pre)
  case (Cons r rs)
  obtain pre' where pre: "pre = r # pre'" "prefix pre' rs"
    using Cons.prems(1,2) by (cases pre) auto
  from Cons.prems(3) [rule_format, of 0] have r: "continues r \<longleftrightarrow> rs \<noteq> []" by auto
  from Cons.prems(3) have rest: "\<forall>j < length rs. rh_kind (fst (rs ! j)) = Continuation
      \<and> (continues (rs ! j) \<longleftrightarrow> j + 1 < length rs)" by (metis Suc_eq_plus1 Suc_less_eq length_Cons nth_Cons_Suc)
  show ?case
  proof (cases "rs = []")
    case False
    then have "closedFrom True pre'" using Cons.prems(1) pre r by simp
    with Cons.IH [OF _ pre(2) rest] pre(1) show ?thesis by simp
  qed (use pre in simp)
qed simp

lemma realizes_whole: "realizes sites types P it g \<Longrightarrow> whole g"
proof (cases it)
  case (IDef i fmt f)
  assume "realizes sites types P it g"
  then obtain r where "g = [r]" "rh_kind (fst r) = SiteDefinition" using IDef by (auto simp: isDefinition_def)
  then show ?thesis by (auto simp: whole_def continues_def prefix_Cons)
next
  case (IMsg e trunc ss)
  assume "realizes sites types P it g"
  then have "messageChain (siteId (sites ! em_site e)) (em_clock e 4) (stampCorrelation (em_scoped e) (pr_logger P))
      (em_args e) trunc ss g" using IMsg by simp
  note chain = this
  obtain r conts where g: "g = r # conts" "rh_kind (fst r) = Message" "continues r \<longleftrightarrow> conts \<noteq> []"
    "\<forall>j < length conts. rh_kind (fst (conts ! j)) = Continuation \<and> (continues (conts ! j) \<longleftrightarrow> j + 1 < length conts)"
    by (rule messageChain_flags [OF chain])
  have "pre = g" if pre: "prefix pre g" "pre \<noteq> []" "closedFrom False pre" for pre
  proof -
    obtain pre' where p: "pre = r # pre'" "prefix pre' conts" using pre g(1) by (cases pre) auto
    show ?thesis
    proof (cases "conts = []")
      case False
      then have "closedFrom True pre'" using pre(3) p(1) g(3) by simp
      from continuations_whole [OF this p(2) g(4)] show ?thesis using p(1) g(1) by simp
    qed (use p g(1) in simp)
  qed
  then show ?thesis using messageChain_closed [OF chain] g(1) by (simp add: whole_def)
qed

lemma split_groups:
  assumes "\<forall>ev \<in> set evs. whole (snd (snd ev))" and "concat (eventGroups evs) = xs @ ys" and "closedFrom False xs"
  shows "\<exists>evs1 evs2. evs = evs1 @ evs2 \<and> concat (eventGroups evs1) = xs \<and> concat (eventGroups evs2) = ys"
  using assms
proof (induction evs arbitrary: xs)
  case Nil
  then show ?case by simp
next
  case (Cons ev evs)
  let ?g = "snd (snd ev)"
  show ?case
  proof (cases "xs = []")
    case True
    then show ?thesis using Cons.prems(2) by (intro exI [of _ "[]"] exI [of _ "ev # evs"]) simp
  next
    case False
    have w: "whole ?g" using Cons.prems(1) by simp
    obtain us where "?g = xs @ us \<and> us @ concat (eventGroups evs) = ys \<or> ?g @ us = xs \<and> concat (eventGroups evs) = us @ ys"
      using Cons.prems(2) by (auto simp: append_eq_append_conv2)
    moreover have "xs = ?g" if "?g = xs @ us" using w False Cons.prems(3) prefixI [OF that] unfolding whole_def by blast
    ultimately obtain us where us: "?g @ us = xs" "concat (eventGroups evs) = us @ ys" by fastforce
    then have "closedFrom False us" using Cons.prems(3) w by (auto simp: whole_def closedFrom_append)
    from Cons.IH [OF _ us(2) this] Cons.prems(1) obtain evs1 evs2 where
      "evs = evs1 @ evs2" "concat (eventGroups evs1) = us" "concat (eventGroups evs2) = ys" by auto
    then show ?thesis using us(1) by (intro exI [of _ "ev # evs1"] exI [of _ evs2]) simp
  qed
qed

definition inOrder :: "chunklog list \<Rightarrow> event list list \<Rightarrow> (u64 \<Rightarrow> event list) \<Rightarrow> bool" where
  "inOrder cs ess G \<longleftrightarrow> list_all2 (\<lambda>c es. concat (eventGroups es) = snd c) cs ess
     \<and> (\<forall>u. concat (map snd (filter (\<lambda>p. ownerOf (fst p) = u) (zip cs ess))) = G u)"

lemma chunk_order:
  assumes "\<forall>c \<in> set cs. closedFrom False (snd c)" and "\<forall>u. \<forall>ev \<in> set (G u). whole (snd (snd ev))"
    and "\<forall>u. concat (eventGroups (G u)) = threadLog u cs"
  shows "\<exists>ess. inOrder cs ess G"
  using assms
proof (induction cs arbitrary: G)
  case Nil
  have "G u = []" for u
  proof (cases "G u")
    case (Cons ev evs)
    then have "whole (snd (snd ev))" using Nil.prems(2) by (metis list.set_intros(1))
    moreover have "snd (snd ev) = []" using Nil.prems(3) [rule_format, of u] Cons by (simp add: threadLog_def)
    ultimately show ?thesis by (simp add: whole_def)
  qed
  then show ?case by (simp add: inOrder_def)
next
  case (Cons c cs)
  let ?t = "ownerOf c"
  have "concat (eventGroups (G ?t)) = snd c @ threadLog ?t cs"
    using Cons.prems(3) [rule_format, of ?t] by (simp add: threadLog_simps)
  from split_groups [OF _ this] Cons.prems(1,2) obtain A B where
    ab: "G ?t = A @ B" "concat (eventGroups A) = snd c" "concat (eventGroups B) = threadLog ?t cs" by auto
  let ?G = "G(?t := B)"
  have "\<exists>ess. inOrder cs ess ?G"
  proof (rule Cons.IH)
    show "\<forall>c \<in> set cs. closedFrom False (snd c)" using Cons.prems(1) by simp
    show "\<forall>u. \<forall>ev \<in> set (?G u). whole (snd (snd ev))"
    proof (intro allI ballI)
      fix u ev assume "ev \<in> set (?G u)"
      then have "ev \<in> set (G u)" using ab(1) by (cases "u = ?t") auto
      then show "whole (snd (snd ev))" using Cons.prems(2) by blast
    qed
    show "\<forall>u. concat (eventGroups (?G u)) = threadLog u cs"
      using Cons.prems(3) ab(3) by (auto simp: threadLog_simps)
  qed
  then obtain ess where ess: "inOrder cs ess ?G" by blast
  then have "inOrder (c # cs) (A # ess) G" using ab by (auto simp: inOrder_def fun_upd_def)
  then show ?case by blast
qed

lemma inOrder_Cons:
  assumes "inOrder (c # cs) ess G"
  shows "\<exists>es ess' H. ess = es # ess' \<and> concat (eventGroups es) = snd c \<and> inOrder cs ess' H
     \<and> G = H(ownerOf c := es @ H (ownerOf c))"
proof -
  obtain es ess' where e: "ess = es # ess'" "concat (eventGroups es) = snd c"
    "list_all2 (\<lambda>c es. concat (eventGroups es) = snd c) cs ess'"
    using assms by (auto simp: inOrder_def list_all2_Cons1)
  define H where "H u = concat (map snd (filter (\<lambda>p. ownerOf (fst p) = u) (zip cs ess')))" for u
  have "G u = (H(ownerOf c := es @ H (ownerOf c))) u" for u
    using assms [unfolded inOrder_def, THEN conjunct2, rule_format, of u] by (auto simp: e(1) H_def)
  then have "G = H(ownerOf c := es @ H (ownerOf c))" by (rule ext)
  moreover have "inOrder cs ess' H" using e(3) by (simp add: inOrder_def H_def)
  ultimately show ?thesis using e(1,2) by blast
qed

lemma inOrder_all:
  assumes "inOrder cs ess G"
  shows "concat (map snd cs) = concat (eventGroups (concat ess))" "set (concat ess) = (\<Union>u. set (G u))"
proof -
  have "concat (map snd cs) = concat (eventGroups (concat ess)) \<and> set (concat ess) = (\<Union>u. set (G u))"
    using assms
  proof (induction cs arbitrary: ess G)
    case Nil
    then show ?case by (simp add: inOrder_def)
  next
    case (Cons c cs)
    obtain es ess' H where e: "ess = es # ess'" "concat (eventGroups es) = snd c" "inOrder cs ess' H"
      "G = H(ownerOf c := es @ H (ownerOf c))" using inOrder_Cons [OF Cons.prems] by blast
    have "(\<Union>u. set (G u)) = set es \<union> (\<Union>u. set (H u))" unfolding e(4) by (auto split: if_splits)
    with Cons.IH [OF e(3)] e(1,2) show ?case by simp
  qed
  then show "concat (map snd cs) = concat (eventGroups (concat ess))" "set (concat ess) = (\<Union>u. set (G u))"
    by blast+
qed

section \<open>Decoding\<close>

lemma threads_pass_two:
  assumes ok: "sites_ok sites types" and "inOrder cs ess G" and "realized sites types P (concat ess)"
    and table: "\<forall>(e, trunc, ss) \<in> set (messagesOf (eventItems (concat ess))).
      \<exists>ds. siteFor dec (siteId (sites ! em_site e)) = Some ds \<and> siteMatches (sites ! em_site e) (types ! em_site e) ds"
    and "idle st" and g: "g = sg_generation (seg P)"
  shows "\<exists>recs. foldl (passTwo dec g) st (chunkViews cb idx pos cs) = st\<lparr>ps_result := ps_result st @ recs\<rparr>
    \<and> (\<forall>u. list_all2 (logged sites types (thread ca u) P) (map fst (messagesOf (eventItems (G u))))
             (filter (\<lambda>r. dr_ownerThread r = u) recs))"
  using assms(2-5)
proof (induction cs arbitrary: ess G idx pos st)
  case Nil
  then show ?case by (intro exI [of _ "[]"]) (auto simp: inOrder_def)
next
  case (Cons c cs)
  let ?t = "ownerOf c"
  obtain es ess' H where e: "ess = es # ess'" "concat (eventGroups es) = snd c" "inOrder cs ess' H"
    "G = H(?t := es @ H ?t)" using inOrder_Cons [OF Cons.prems(1)] by blast
  define vs where "vs = views idx ?t (pos + 32) (snd c)"
  have "list_all2 shows_record (concat (eventGroups es)) vs" by (simp add: vs_def e(2) views_show)
  then obtain vss where vss: "vs = concat vss" "list_all2 (list_all2 shows_record) (eventGroups es) vss"
    using shows_split by blast
  have real: "realized sites types P es" "realized sites types P (concat ess')"
    using Cons.prems(2) e(1) by (simp_all add: realized_def)
  have owner: "\<forall>v \<in> set (concat vss). rv_ownerThread v = ca_thread (thread ca ?t)"
    using views_owner unfolding vss(1) [symmetric] vs_def by simp
  have tables: "\<forall>(e, trunc, ss) \<in> set (messagesOf (eventItems es)). \<exists>ds. siteFor dec (siteId (sites ! em_site e)) = Some ds
      \<and> siteMatches (sites ! em_site e) (types ! em_site e) ds"
    "\<forall>(e, trunc, ss) \<in> set (messagesOf (eventItems (concat ess'))). \<exists>ds. siteFor dec (siteId (sites ! em_site e)) = Some ds
      \<and> siteMatches (sites ! em_site e) (types ! em_site e) ds"
    using Cons.prems(3) by (auto simp: e(1) messagesOf_append)
  obtain recs1 where r1: "foldl (passTwo dec g) st vs = st\<lparr>ps_result := ps_result st @ recs1\<rparr>"
    "list_all2 (logged sites types (thread ca ?t) P) (map fst (messagesOf (eventItems es))) recs1"
    using run_pass_two [OF ok realized_items [OF real(1)] vss(2) owner tables(1) Cons.prems(4) g]
    unfolding vss(1) by blast
  let ?st = "st\<lparr>ps_result := ps_result st @ recs1\<rparr>"
  have "idle ?st" using Cons.prems(4) by (simp add: idle_def)
  from Cons.IH [OF e(3) real(2) tables(2) this, of "Suc idx" "pos + cb"] obtain recs2 where
    r2: "foldl (passTwo dec g) ?st (chunkViews cb (Suc idx) (pos + cb) cs) = ?st\<lparr>ps_result := ps_result ?st @ recs2\<rparr>"
    "\<forall>u. list_all2 (logged sites types (thread ca u) P) (map fst (messagesOf (eventItems (H u))))
        (filter (\<lambda>r. dr_ownerThread r = u) recs2)" by blast
  have t: "dr_ownerThread r = ?t" if "r \<in> set recs1" for r
    using r1(2) that by (auto simp: list_all2_conv_all_nth in_set_conv_nth logged_def)
  have "filter (\<lambda>r. dr_ownerThread r = u) recs1 = (if u = ?t then recs1 else [])" for u
    using t by (auto simp: filter_id_conv filter_empty_conv)
  then have "list_all2 (logged sites types (thread ca u) P) (map fst (messagesOf (eventItems (G u))))
      (filter (\<lambda>r. dr_ownerThread r = u) (recs1 @ recs2))" for u
    using r1(2) r2(2) e(4) by (auto simp: messagesOf_append intro: list_all2_appendI)
  moreover have "foldl (passTwo dec g) st (chunkViews cb idx pos (c # cs)) = st\<lparr>ps_result := ps_result st @ (recs1 @ recs2)\<rparr>"
    using r1(1) r2(1) by (simp add: vs_def ownerOf_def)
  ultimately show ?case by blast
qed

lemma threads_decode:
  assumes ok: "sites_ok sites types" "\<forall>c \<in> set calls. em_ok types (snd c)"
    and inv: "world_inv ca (4 * length calls) w []"
    and w: "wd_sites w = sites" "pc_active (wd_process w) \<noteq> 0"
    and fresh: "\<forall>site \<in> set sites. sd_announcedKey site \<noteq> announceKey (ca_split ca) (lg_segment (wd_logger w))"
    and run: "runThreads ca calls w = w'"
    and dec: "decodeAll newDecoder (openSegment (sg_bytes (lg_segment (wd_logger w')))) = (recs, dec)"
  shows "\<exists>kept. subseq kept (filter (passes (wd_logger w) sites) calls)
    \<and> (\<forall>u. list_all2 (logged sites types (thread ca u) (producer w u)) (map snd (filter (\<lambda>c. fst c = u) kept))
             (filter (\<lambda>r. dr_ownerThread r = u) recs))
    \<and> lg_dropped (wd_logger w') = (counterIncrement (ca_split ca)
         ^^ (length (filter (passes (wd_logger w) sites) calls) - length kept)) (lg_dropped (wd_logger w))
    \<and> dc_undecodable dec = 0 \<and> dc_skipped dec = 0"
proof -
  let ?P = "producer w 0"
  have none: "knownSites ca ?P (wd_sites w) = {}" using fresh w(1) by (auto simp: knownSites_def)
  have inv0: "world_inv ca (0 + 4 * length calls) w []" using inv by simp
  obtain cs evs where o: "world_outcome ca 0 sites types (filter (passes (wd_logger w) sites) calls) {} w [] w' cs evs"
    using world_run [OF ok inv0 _ w(2)] w(1) run none by auto
  note o' = o [unfolded world_outcome_def]
  have winv: "world_inv ca 0 w' cs" and real: "realized sites types ?P evs" using o' by blast+
  then have "prod_inv (thread ca 0) 0 (producer w' 0) cs" by (simp add: world_inv_def)
  then have sinv: "seg_inv (ca_split ca) 0 (lg_segment (wd_logger w')) cs" and closed: "\<forall>c \<in> set cs. closedFrom False (snd c)"
    by (simp_all add: prod_inv_def)
  have whole: "\<forall>u. \<forall>ev \<in> set (ofThread u evs). whole (snd (snd ev))"
    using real realizes_whole by (fastforce simp: realized_def ofThread_def)
  have "\<forall>u. concat (eventGroups (ofThread u evs)) = threadLog u cs" using o' by (simp add: threadLog_def)
  then obtain ess where ess: "inOrder cs ess (\<lambda>u. ofThread u evs)" using chunk_order [OF closed whole] by blast
  note all = inOrder_all [OF ess]
  have evs: "set (concat ess) = set evs" unfolding all(2) by (auto simp: ofThread_def)
  then have real': "realized sites types ?P (concat ess)" using real unfolding realized_def by blast
  note items = realized_items [OF real']
  have defined: "definedSites (eventItems (concat ess)) = definedSites (eventItems evs)"
    using evs by (simp add: definedSites_def eventItems_def)
  define vs where "vs = chunkViews (unat (sg_chunkBytes (lg_segment (wd_logger w')))) 0
    (unat (sg_headerBytes (lg_segment (wd_logger w')))) cs"
  have visit: "fst (visit (openSegment (sg_bytes (lg_segment (wd_logger w'))))) = vs"
    using visit_segment [OF sinv] by (simp add: vs_def)
  have "list_all2 shows_record (concat (eventGroups (concat ess))) vs"
    using chunkViews_show [of cs] all(1) by (simp add: vs_def)
  then obtain vss where vss: "vs = concat vss" "list_all2 (list_all2 shows_record) (eventGroups (concat ess)) vss"
    using shows_split by blast
  define D where "D = foldl passOne newDecoder vs"
  have D: "dc_undecodable D = 0" "dc_skipped D = 0"
    using run_pass_one [OF ok(1) items vss(2), of newDecoder] by (simp_all add: D_def vss(1) newDecoder_def)
  have "em_site (fst m) \<in> definedSites (eventItems (concat ess))" if "m \<in> set (messagesOf (eventItems (concat ess)))" for m
  proof -
    have "m \<in> set (messagesOf (eventItems evs))"
      using that unfolding messagesOf_def eventItems_def by (simp add: evs [symmetric])
    then have "fst m \<in> snd ` set (keptCalls evs)" by (metis kept_items image_eqI list.set_map)
    then show ?thesis using o' unfolding defined by auto
  qed
  then have table: "\<forall>(e, trunc, ss) \<in> set (messagesOf (eventItems (concat ess))).
      \<exists>ds. siteFor D (siteId (sites ! em_site e)) = Some ds \<and> siteMatches (sites ! em_site e) (types ! em_site e) ds"
    using run_site_table [OF ok(1) items vss(2)]
    by (fastforce simp: D_def siteFor_def foldl_passOne_sites newDecoder_def vss(1))
  have gen: "sh_generation (sr_header (openSegment (sg_bytes (lg_segment (wd_logger w'))))) = sg_generation (seg ?P)"
    using opened_generation [OF sinv] o' by (auto simp: same_config_def)
  have idle: "idle (startPassTwo D)" by (simp add: idle_def startPassTwo_def)
  obtain rs where r: "foldl (passTwo D (sg_generation (seg ?P))) (startPassTwo D) vs
      = (startPassTwo D)\<lparr>ps_result := ps_result (startPassTwo D) @ rs\<rparr>"
    "\<forall>u. list_all2 (logged sites types (thread ca u) ?P) (map fst (messagesOf (eventItems (ofThread u evs))))
        (filter (\<lambda>r. dr_ownerThread r = u) rs)"
    using threads_pass_two [OF ok(1) ess real' table idle refl] unfolding vs_def by blast
  have "(recs, dec) = (rs, D\<lparr>dc_undecodable := dc_undecodable D, dc_skipped := dc_skipped D\<rparr>)"
    using dec unfolding decodeAll_def Let_def visit D_def [symmetric] gen r(1)
    by (simp add: endPassTwo_def finalizePending_def startPassTwo_def)
  then have res: "recs = rs" "dc_undecodable dec = 0" "dc_skipped dec = 0" using D by simp_all
  have log: "logged sites types (thread ca u) (producer w u) = logged sites types (thread ca u) ?P" for u
    by (intro ext) (simp add: logged_def chainFits_def fitsEmpty_def)
  have "list_all2 (logged sites types (thread ca u) (producer w u)) (map snd (filter (\<lambda>c. fst c = u) (keptCalls evs)))
      (filter (\<lambda>r. dr_ownerThread r = u) recs)" for u
    using r(2) unfolding log kept_thread kept_items res by blast
  then show ?thesis using o' res by (intro exI [of _ "keptCalls evs"]) blast
qed

end
