(* ===== verification/Crash.thy ===== *)
theory Crash
  imports Threads
begin

text \<open>
  A process killed between any two stores.  What calls in progress can have stored when
  the kill comes is a sequence of writes outside the committed logs: to the cursor, to the
  header of a chunk not yet part of the log, to the head word behind a log as long as it
  does not commit, and to bytes behind that word.  Whatever such writes left behind, the
  reader gets the records of the committed logs.
\<close>

section \<open>Writes in progress\<close>

definition chunkAt :: "Segment \<Rightarrow> nat \<Rightarrow> nat" where
  "chunkAt s j = unat (sg_headerBytes s) + j * unat (sg_chunkBytes s)"

definition logBytes :: "chunklog list \<Rightarrow> nat \<Rightarrow> nat" where
  "logBytes cs j = (if j < length cs then length (frames (snd (cs ! j))) else 0)"

text \<open>Where the next head word of a chunk goes.\<close>

definition nextHead :: "Segment \<Rightarrow> chunklog list \<Rightarrow> nat \<Rightarrow> nat" where
  "nextHead s cs j = chunkAt s j + 32 + logBytes cs j"

definition classAt :: "Segment \<Rightarrow> nat \<Rightarrow> bytes \<Rightarrow> bool" where
  "classAt s j img \<longleftrightarrow> (loadWord (chunkAt s j + 28) img :: u8) \<in> {0, sg_sizeClass s}"

inductive torn :: "Segment \<Rightarrow> chunklog list \<Rightarrow> bytes \<Rightarrow> bytes \<Rightarrow> bool" for s cs where
  cursor: "cNextChunkOffset \<le> off \<Longrightarrow> off + length xs \<le> cNextChunkOffset + 8 \<Longrightarrow> torn s cs img (store img off xs)"
| header: "length cs \<le> j \<Longrightarrow> j < unat (sg_chunkCount s) \<Longrightarrow> chunkAt s j \<le> off \<Longrightarrow> off + length xs \<le> chunkAt s j + 32 \<Longrightarrow>
    classAt s j (store img off xs) \<Longrightarrow> torn s cs img (store img off xs)"
| head: "j < unat (sg_chunkCount s) \<Longrightarrow> nextHead s cs j \<le> off \<Longrightarrow> off + length xs \<le> nextHead s cs j + 8 \<Longrightarrow>
    nextHead s cs j + 8 \<le> chunkAt s (Suc j) \<Longrightarrow> \<not> isCommitted (loadHeadWord (store img off xs) (nextHead s cs j)) \<Longrightarrow>
    torn s cs img (store img off xs)"
| body: "j < unat (sg_chunkCount s) \<Longrightarrow> nextHead s cs j + 8 \<le> off \<Longrightarrow> off + length xs \<le> chunkAt s (Suc j) \<Longrightarrow>
    torn s cs img (store img off xs)"

text \<open>What all of them keep.\<close>

definition inFlight :: "Segment \<Rightarrow> chunklog list \<Rightarrow> bytes \<Rightarrow> bool" where
  "inFlight s cs img \<longleftrightarrow>
     length img = length (sg_bytes s) \<and> take 64 img = take 64 (sg_bytes s)
     \<and> (\<forall>j < length cs. take (32 + logBytes cs j) (drop (chunkAt s j) img)
          = take (32 + logBytes cs j) (drop (chunkAt s j) (sg_bytes s)))
     \<and> (\<forall>j < unat (sg_chunkCount s). nextHead s cs j + 8 \<le> chunkAt s (Suc j) \<longrightarrow>
          \<not> isCommitted (loadHeadWord img (nextHead s cs j)))
     \<and> (\<forall>j < unat (sg_chunkCount s). length cs \<le> j \<longrightarrow> classAt s j img)
     \<and> drop (chunkAt s (unat (sg_chunkCount s))) img = drop (chunkAt s (unat (sg_chunkCount s))) (sg_bytes s)"

section \<open>Regions\<close>

lemma take_drop_store:
  assumes "off + length xs \<le> length img" and "off + length xs \<le> p \<or> p + m \<le> off"
  shows "take m (drop p (store img off xs)) = take m (drop p img)"
  using assms(2)
proof
  assume "off + length xs \<le> p"
  then show ?thesis using assms(1) by (simp add: drop_store_after)
next
  assume *: "p + m \<le> off"
  have "take m (drop p bs) = drop p (take (p + m) bs)" for bs :: bytes by (simp add: drop_take add.commute)
  with * show ?thesis using assms(1) by (simp add: take_store_before)
qed

lemma loadWord_region:
  "take (LENGTH('a) div 8) (drop off bs) = take (LENGTH('a) div 8) (drop off bs') \<Longrightarrow>
    (loadWord off bs :: 'a::len word) = loadWord off bs'"
proof -
  have e: "(loadWord off bs :: 'a word) = loadWord 0 (take (LENGTH('a) div 8) (drop off bs))" for bs
    by (simp add: loadWord_def)
  assume "take (LENGTH('a) div 8) (drop off bs) = take (LENGTH('a) div 8) (drop off bs')"
  then show ?thesis by (subst (1 2) e) simp
qed

lemma loadHeadWord_region:
  "take 8 (drop off bs) = take 8 (drop off bs') \<Longrightarrow> loadHeadWord bs off = loadHeadWord bs' off"
proof -
  assume eq: "take 8 (drop off bs) = take 8 (drop off bs')"
  have "take 4 (drop off bs) = take 4 (drop off bs')" using arg_cong [OF eq, of "take 4"] by simp
  then have low: "(loadWord off bs :: u32) = loadWord off bs'" by (intro loadWord_region) simp
  have "take 4 (drop (off + 4) bs) = take 4 (drop (off + 4) bs')"
    using arg_cong [OF eq, of "drop 4"] by (simp add: drop_take add.commute)
  then have "(loadWord (off + 4) bs :: u32) = loadWord (off + 4) bs'" by (intro loadWord_region) simp
  with low show ?thesis by (simp add: loadHeadWord_def)
qed

lemma chunkAt_less: "i < j \<Longrightarrow> chunkAt s i + unat (sg_chunkBytes s) \<le> chunkAt s j"
proof -
  assume "i < j"
  then have "Suc i * unat (sg_chunkBytes s) \<le> j * unat (sg_chunkBytes s)" by (intro mult_le_mono1) simp
  then show ?thesis by (simp add: chunkAt_def)
qed

lemma chunkAt_Suc: "chunkAt s (Suc j) = chunkAt s j + unat (sg_chunkBytes s)"
  by (simp add: chunkAt_def)

lemma inFlight_store:
  assumes "inFlight s cs img" and fits: "off + length xs \<le> length img"
    and "64 \<le> off" and "off + length xs \<le> chunkAt s (unat (sg_chunkCount s))"
    and claimed: "\<And>j. j < length cs \<Longrightarrow> off + length xs \<le> chunkAt s j \<or> nextHead s cs j \<le> off"
    and head: "\<And>j. j < unat (sg_chunkCount s) \<Longrightarrow> nextHead s cs j + 8 \<le> chunkAt s (Suc j) \<Longrightarrow>
      \<not> isCommitted (loadHeadWord (store img off xs) (nextHead s cs j))
      \<or> off + length xs \<le> nextHead s cs j \<or> nextHead s cs j + 8 \<le> off"
    and cls: "\<And>j. j < unat (sg_chunkCount s) \<Longrightarrow> length cs \<le> j \<Longrightarrow>
      classAt s j (store img off xs) \<or> off + length xs \<le> chunkAt s j + 28 \<or> chunkAt s j + 29 \<le> off"
  shows "inFlight s cs (store img off xs)"
proof -
  note i = assms(1) [unfolded inFlight_def]
  note r = take_drop_store [OF fits]
  have "take (32 + logBytes cs j) (drop (chunkAt s j) (store img off xs)) = take (32 + logBytes cs j) (drop (chunkAt s j) (sg_bytes s))"
    if "j < length cs" for j
  proof -
    have "off + length xs \<le> chunkAt s j \<or> chunkAt s j + (32 + logBytes cs j) \<le> off"
      using claimed [OF that] by (simp add: nextHead_def add.assoc)
    from r [OF this] show ?thesis using i that by simp
  qed
  moreover have "\<not> isCommitted (loadHeadWord (store img off xs) (nextHead s cs j))"
    if j: "j < unat (sg_chunkCount s)" "nextHead s cs j + 8 \<le> chunkAt s (Suc j)" for j
  proof -
    have "\<not> isCommitted (loadHeadWord img (nextHead s cs j))" using i j by simp
    with head [OF j] r [of "nextHead s cs j" 8] show ?thesis by (metis loadHeadWord_region)
  qed
  moreover have "classAt s j (store img off xs)" if j: "j < unat (sg_chunkCount s)" "length cs \<le> j" for j
  proof -
    have "classAt s j img" using i j by simp
    moreover have "(loadWord (chunkAt s j + 28) (store img off xs) :: u8) = loadWord (chunkAt s j + 28) img"
      if "off + length xs \<le> chunkAt s j + 28 \<or> chunkAt s j + 28 + 1 \<le> off"
      using r [OF that] by (intro loadWord_region) simp
    ultimately show ?thesis using cls [OF j] by (auto simp: classAt_def)
  qed
  moreover have "take 64 (store img off xs) = take 64 (sg_bytes s)"
    using i assms(3) fits by (simp add: take_store_before)
  moreover have "drop (chunkAt s (unat (sg_chunkCount s))) (store img off xs) = drop (chunkAt s (unat (sg_chunkCount s))) (sg_bytes s)"
    using i assms(4) fits by (simp add: drop_store_after)
  ultimately show ?thesis using i fits by (simp add: inFlight_def)
qed

text \<open>What the segment invariant says about the layout.\<close>

lemma layout:
  assumes "seg_inv split k s cs"
  shows "136 \<le> chunkAt s j" "48 \<le> unat (sg_chunkBytes s)" "length cs \<le> unat (sg_chunkCount s)"
    "nextHead s cs j \<le> chunkAt s (Suc j)" "chunkAt s (unat (sg_chunkCount s)) \<le> length (sg_bytes s)"
proof -
  have g: "136 \<le> unat (sg_headerBytes s)" "48 \<le> unat (sg_chunkBytes s)" "length cs \<le> unat (sg_chunkCount s)"
    "unat (sg_headerBytes s) \<le> length (sg_bytes s)" "\<forall>c \<in> set cs. chunk_ok s c"
    "unat (sg_chunkCount s) * unat (sg_chunkBytes s) \<le> length (sg_bytes s) - unat (sg_headerBytes s)"
    using assms by (simp_all add: seg_inv_def seg_geometry_def)
  have "logBytes cs j \<le> unat (sg_chunkBytes s) - 32"
    using g(5) by (auto simp: logBytes_def chunk_ok_def)
  then show "nextHead s cs j \<le> chunkAt s (Suc j)" using g(2) by (simp add: nextHead_def chunkAt_Suc)
  show "chunkAt s (unat (sg_chunkCount s)) \<le> length (sg_bytes s)" using g(4,6) by (simp add: chunkAt_def)
  show "136 \<le> chunkAt s j" using g(1) by (simp add: chunkAt_def)
qed (use assms in \<open>simp_all add: seg_inv_def seg_geometry_def\<close>)

lemma torn_inFlight:
  assumes inv: "seg_inv split k s cs" and t: "torn s cs img img'" and i: "inFlight s cs img"
  shows "inFlight s cs img'"
proof -
  note lay = layout [OF inv]
  have len: "length img = length (sg_bytes s)" using i by (simp add: inFlight_def)
  have order: "i < j \<Longrightarrow> chunkAt s (Suc i) \<le> chunkAt s j" for i j using chunkAt_less by (simp add: chunkAt_Suc)
  have top: "j < unat (sg_chunkCount s) \<Longrightarrow> chunkAt s (Suc j) \<le> chunkAt s (unat (sg_chunkCount s))" for j
    using order [of j "unat (sg_chunkCount s)"] by simp
  have nxt: "chunkAt s j + 32 \<le> nextHead s cs j" for j by (simp add: nextHead_def)
  have apart: "B \<le> chunkAt s j \<or> chunkAt s (Suc j) \<le> A" if "chunkAt s m \<le> A" "B \<le> chunkAt s (Suc m)" "m \<noteq> j" for m j A B
    using that order [of m j] order [of j m] by (cases "m < j") auto
  have heads: "B \<le> nextHead s cs j \<or> nextHead s cs j + 8 \<le> A"
    if "chunkAt s m \<le> A" "B \<le> chunkAt s (Suc m)" "m \<noteq> j" "nextHead s cs j + 8 \<le> chunkAt s (Suc j)" for m j A B
    using apart [OF that(1-3)] that(4) nxt [of j] by linarith
  have logs: "B \<le> chunkAt s j \<or> nextHead s cs j \<le> A"
    if "chunkAt s m \<le> A" "B \<le> chunkAt s (Suc m)" "m \<noteq> j" for m j A B
    using apart [OF that] lay(4) [of j] by linarith
  have classes: "B \<le> chunkAt s j + 28 \<or> chunkAt s j + 29 \<le> A"
    if "chunkAt s m \<le> A" "B \<le> chunkAt s (Suc m)" "m \<noteq> j" for m j A B
    using apart [OF that] lay(2) unfolding chunkAt_Suc by linarith
  show ?thesis
    using t
  proof cases
    case (cursor off xs)
    have c: "off + length xs \<le> 136" "64 \<le> off" using cursor by (simp_all add: cNextChunkOffset_def)
    have below: "off + length xs \<le> chunkAt s j" for j using c(1) lay(1) [of j] by linarith
    show ?thesis unfolding cursor(1)
    proof (rule inFlight_store [OF i])
      show "off + length xs \<le> length img" using below [of "unat (sg_chunkCount s)"] lay(5) len by linarith
      show "64 \<le> off" "off + length xs \<le> chunkAt s (unat (sg_chunkCount s))" using c(2) below by blast+
      show "off + length xs \<le> chunkAt s j \<or> nextHead s cs j \<le> off" for j using below by blast
      show "\<not> isCommitted (loadHeadWord (store img off xs) (nextHead s cs j)) \<or> off + length xs \<le> nextHead s cs j
          \<or> nextHead s cs j + 8 \<le> off" for j
        using below [of j] nxt [of j] by linarith
      show "classAt s j (store img off xs) \<or> off + length xs \<le> chunkAt s j + 28 \<or> chunkAt s j + 29 \<le> off" for j
        using below [of j] by linarith
    qed
  next
    case (header j off xs)
    have A: "chunkAt s j \<le> off" "off + length xs \<le> chunkAt s (Suc j)" using header lay(2) by (simp_all add: chunkAt_Suc)
    show ?thesis unfolding header(1)
    proof (rule inFlight_store [OF i])
      show "off + length xs \<le> length img" "off + length xs \<le> chunkAt s (unat (sg_chunkCount s))"
        using A(2) top [OF header(3)] lay(5) len by linarith+
      show "64 \<le> off" using A(1) lay(1) [of j] by linarith
      show "off + length xs \<le> chunkAt s j' \<or> nextHead s cs j' \<le> off" if "j' < length cs" for j'
        using logs [OF A] that header(2) by auto
      show "\<not> isCommitted (loadHeadWord (store img off xs) (nextHead s cs j')) \<or> off + length xs \<le> nextHead s cs j'
          \<or> nextHead s cs j' + 8 \<le> off" if "nextHead s cs j' + 8 \<le> chunkAt s (Suc j')" for j'
        using heads [OF A _ that] nxt [of j'] header(5) by (cases "j = j'") auto
      show "classAt s j' (store img off xs) \<or> off + length xs \<le> chunkAt s j' + 28 \<or> chunkAt s j' + 29 \<le> off" for j'
        using classes [OF A] header(6) by (cases "j = j'") auto
    qed
  next
    case (head j off xs)
    have A: "chunkAt s j \<le> off" "off + length xs \<le> chunkAt s (Suc j)" using head nxt [of j] by linarith+
    show ?thesis unfolding head(1)
    proof (rule inFlight_store [OF i])
      show "off + length xs \<le> length img" "off + length xs \<le> chunkAt s (unat (sg_chunkCount s))"
        using A(2) top [OF head(2)] lay(5) len by linarith+
      show "64 \<le> off" using A(1) lay(1) [of j] by linarith
      show "off + length xs \<le> chunkAt s j' \<or> nextHead s cs j' \<le> off" for j'
        using logs [OF A] head(3) by (cases "j = j'") auto
      show "\<not> isCommitted (loadHeadWord (store img off xs) (nextHead s cs j')) \<or> off + length xs \<le> nextHead s cs j'
          \<or> nextHead s cs j' + 8 \<le> off" if "nextHead s cs j' + 8 \<le> chunkAt s (Suc j')" for j'
        using heads [OF A _ that] head(6) by (cases "j = j'") auto
      show "classAt s j' (store img off xs) \<or> off + length xs \<le> chunkAt s j' + 28 \<or> chunkAt s j' + 29 \<le> off" for j'
        using classes [OF A, of j'] head(3) nxt [of j] by (cases "j = j'") auto
    qed
  next
    case (body j off xs)
    have A: "chunkAt s j \<le> off" "off + length xs \<le> chunkAt s (Suc j)" using body nxt [of j] by linarith+
    show ?thesis unfolding body(1)
    proof (rule inFlight_store [OF i])
      show "off + length xs \<le> length img" "off + length xs \<le> chunkAt s (unat (sg_chunkCount s))"
        using A(2) top [OF body(2)] lay(5) len by linarith+
      show "64 \<le> off" using A(1) lay(1) [of j] by linarith
      show "off + length xs \<le> chunkAt s j' \<or> nextHead s cs j' \<le> off" for j'
        using logs [OF A] body(3) by (cases "j = j'") auto
      show "\<not> isCommitted (loadHeadWord (store img off xs) (nextHead s cs j')) \<or> off + length xs \<le> nextHead s cs j'
          \<or> nextHead s cs j' + 8 \<le> off" if "nextHead s cs j' + 8 \<le> chunkAt s (Suc j')" for j'
        using heads [OF A _ that] body(3) by (cases "j = j'") auto
      show "classAt s j' (store img off xs) \<or> off + length xs \<le> chunkAt s j' + 28 \<or> chunkAt s j' + 29 \<le> off" for j'
        using classes [OF A, of j'] body(3) nxt [of j] by (cases "j = j'") auto
    qed
  qed
qed

section \<open>The committed image\<close>

lemma loadHeadWord_zeros [simp]: "loadHeadWord (replicate z 0) p = 0"
  by (simp add: loadHeadWord_def loadWord_zeros)

lemma isCommitted_0 [simp]: "\<not> isCommitted 0"
  by (simp add: isCommitted_def cCommitTag_def)

lemma loadHeadWord_drop: "loadHeadWord bs (p + q) = loadHeadWord (drop p bs) q"
  by (simp add: loadHeadWord_def loadWord_def add.assoc add.commute add.left_commute)

lemma claimed_image:
  assumes inv: "seg_inv split k s cs" and j: "j < length cs"
  obtains n post where "drop (chunkAt s j) (sg_bytes s) = ChunkHeader_bytes (fst (cs ! j)) @ frames (snd (cs ! j)) @ replicate n 0 @ post"
    "n = unat (sg_chunkBytes s) - 32 - logBytes cs j"
proof -
  let ?hb = "unat (sg_headerBytes s)" and ?cb = "unat (sg_chunkBytes s)"
  have g: "48 \<le> ?cb" "\<forall>c \<in> set cs. chunk_ok s c" using inv by (simp_all add: seg_inv_def seg_geometry_def)
  let ?rest = "concat (map (chunkImage ?cb) (drop (Suc j) cs)) @ replicate (length (sg_bytes s) - ?hb - length cs * ?cb) 0"
  have "drop ?hb (sg_bytes s) = concat (map (chunkImage ?cb) cs) @ replicate (length (sg_bytes s) - ?hb - length cs * ?cb) 0"
    using inv unfolding seg_inv_def by blast
  also have "concat (map (chunkImage ?cb) cs) = concat (map (chunkImage ?cb) (take j cs)) @ chunkImage ?cb (cs ! j)
      @ concat (map (chunkImage ?cb) (drop (Suc j) cs))"
    by (subst id_take_nth_drop [OF j]) simp
  finally have "drop ?hb (sg_bytes s) = concat (map (chunkImage ?cb) (take j cs)) @ chunkImage ?cb (cs ! j) @ ?rest" by simp
  moreover have "length (concat (map (chunkImage ?cb) (take j cs))) = j * ?cb"
    using g j by (subst length_chunkImages) (auto dest: in_set_takeD)
  ultimately have "drop (j * ?cb) (drop ?hb (sg_bytes s)) = chunkImage ?cb (cs ! j) @ ?rest"
    by (simp del: drop_drop)
  then have "drop (chunkAt s j) (sg_bytes s) = chunkImage ?cb (cs ! j) @ ?rest" by (simp add: chunkAt_def add.commute)
  then show thesis using j by (intro that) (simp_all add: chunkImage_def chunkBody_def logBytes_def)
qed

lemma unclaimed_image:
  assumes inv: "seg_inv split k s cs" and j: "length cs \<le> j"
  shows "drop (chunkAt s j) (sg_bytes s) = replicate (length (sg_bytes s) - chunkAt s j) 0"
proof -
  let ?hb = "unat (sg_headerBytes s)" and ?cb = "unat (sg_chunkBytes s)"
  have g: "48 \<le> ?cb" "\<forall>c \<in> set cs. chunk_ok s c" using inv by (simp_all add: seg_inv_def seg_geometry_def)
  have le: "length cs * ?cb \<le> j * ?cb" using j by (rule mult_le_mono1)
  have "drop ?hb (sg_bytes s) = concat (map (chunkImage ?cb) cs) @ replicate (length (sg_bytes s) - ?hb - length cs * ?cb) 0"
    using inv unfolding seg_inv_def by blast
  then have "drop (j * ?cb) (drop ?hb (sg_bytes s)) = replicate (length (sg_bytes s) - ?hb - length cs * ?cb - (j * ?cb - length cs * ?cb)) 0"
    using le length_chunkImages [OF g(2,1)] by (simp del: drop_drop)
  moreover have "length (sg_bytes s) - ?hb - length cs * ?cb - (j * ?cb - length cs * ?cb) = length (sg_bytes s) - chunkAt s j"
    using le by (simp add: chunkAt_def)
  ultimately show ?thesis by (simp add: chunkAt_def add.commute)
qed

lemma inFlight_refl:
  assumes inv: "seg_inv split k s cs"
  shows "inFlight s cs (sg_bytes s)"
proof -
  have "\<not> isCommitted (loadHeadWord (sg_bytes s) (nextHead s cs j))"
    if "nextHead s cs j + 8 \<le> chunkAt s (Suc j)" for j
  proof (cases "j < length cs")
    case True
    obtain n post where im: "drop (chunkAt s j) (sg_bytes s) = ChunkHeader_bytes (fst (cs ! j)) @ frames (snd (cs ! j)) @ replicate n 0 @ post"
      and n: "n = unat (sg_chunkBytes s) - 32 - logBytes cs j" using claimed_image [OF inv True] by blast
    have "8 \<le> n" using that n by (simp add: nextHead_def chunkAt_Suc)
    then have z: "replicate n 0 = replicate 8 0 @ (replicate (n - 8) 0 :: bytes)" by (simp add: replicate_add [symmetric])
    have "loadHeadWord (sg_bytes s) (nextHead s cs j) = loadHeadWord (drop (chunkAt s j) (sg_bytes s)) (32 + logBytes cs j)"
      by (simp add: nextHead_def loadHeadWord_drop [symmetric] add.assoc)
    also have "\<dots> = loadHeadWord (replicate 8 0 @ replicate (n - 8) 0 @ post) 0"
      using True unfolding im z
      by (subst loadHeadWord_drop [of _ _ 0, simplified]) (simp add: logBytes_def)
    also have "\<dots> = 0" by (simp add: loadHeadWord_eq_loadWord) (simp add: loadWord_def)
    finally show ?thesis by simp
  next
    case False
    then have "drop (chunkAt s j) (sg_bytes s) = replicate (length (sg_bytes s) - chunkAt s j) 0"
      using unclaimed_image [OF inv] by simp
    then have "loadHeadWord (sg_bytes s) (chunkAt s j + (32 + logBytes cs j)) = 0" by (simp add: loadHeadWord_drop)
    then show ?thesis by (simp add: nextHead_def add.assoc)
  qed
  moreover have "classAt s j (sg_bytes s)" if "length cs \<le> j" for j
  proof -
    have "(loadWord (chunkAt s j + 28) (sg_bytes s) :: u8) = loadWord 28 (drop (chunkAt s j) (sg_bytes s))"
      by (simp add: loadWord_def add.commute)
    then show ?thesis using unclaimed_image [OF inv that] by (simp add: classAt_def loadWord_zeros)
  qed
  ultimately show ?thesis by (simp add: inFlight_def)
qed

section \<open>What the reader sees\<close>

lemma chunkSizeOf_class:
  assumes "seg_geometry s" and "sh_chunkBytes h = sg_chunkBytes s" and "ch_chunkSizeClass c \<in> {0, sg_sizeClass s}"
  shows "chunkSizeOf h c = Some (unat (sg_chunkBytes s))"
proof (cases "ch_chunkSizeClass c = 0")
  case True
  then show ?thesis using assms(2) by (simp add: chunkSizeOf_def)
next
  case False
  then have "chunkSizeOf h c = chunkSizeOf h (stampedHeader s 0 0)"
    using assms(3) by (simp add: chunkSizeOf_def stampedHeader_def)
  then show ?thesis using chunkSizeOf_stamped [OF assms(1,2)] by simp
qed

lemma visitChunk_inFlight:
  assumes inv: "seg_inv split k s cs" and i: "inFlight s cs img" and j: "j < unat (sg_chunkCount s)"
    and h: "sh_chunkBytes h = sg_chunkBytes s" "sh_generation h = sg_generation s" "unat (sh_segmentBytes h) = length img"
  shows "\<exists>u n. visitChunk img h j (chunkAt s j) =
    ((if j < length cs then views j (ch_ownerThread (fst (cs ! j))) (chunkAt s j + 32) (snd (cs ! j)) else [], u, n), chunkAt s (Suc j))"
proof -
  note lay = layout [OF inv] and i' = i [unfolded inFlight_def]
  let ?cb = "unat (sg_chunkBytes s)" and ?p = "chunkAt s j" and ?ch = "ChunkHeader_load (chunkAt s j) img"
  have geo: "seg_geometry s" using inv by (simp add: seg_inv_def)
  have fit: "chunkAt s (Suc j) \<le> length img"
    using chunkAt_less [OF j, of s] lay(5) i' by (simp add: chunkAt_Suc)
  have stop: "fst (walkBody img j owner (?p + ?cb) (nextHead s cs j)) = []" for owner
  proof (cases "nextHead s cs j + 8 \<le> ?p + ?cb")
    case True
    then show ?thesis using i' j by (subst walkBody_stop) (auto simp: chunkAt_Suc)
  next
    case False
    then show ?thesis using lay(4) [of j] by (subst walkBody_short) (auto simp: chunkAt_Suc)
  qed
  show ?thesis
  proof (cases "j < length cs")
    case True
    let ?c = "cs ! j"
    have ok: "chunk_ok s ?c" using inv True by (rule seg_chunk_ok)
    obtain n post where im: "drop ?p (sg_bytes s) = ChunkHeader_bytes (fst ?c) @ frames (snd ?c) @ replicate n 0 @ post"
      using claimed_image [OF inv True] by blast
    have lb: "logBytes cs j = length (frames (snd ?c))" using True by (simp add: logBytes_def)
    have "take (32 + logBytes cs j) (drop ?p img) = take (32 + logBytes cs j) (drop ?p (sg_bytes s))" using i' True by blast
    then have pref: "take (32 + logBytes cs j) (drop ?p img) = ChunkHeader_bytes (fst ?c) @ frames (snd ?c)" by (simp add: im lb)
    have im': "img = take ?p img @ ChunkHeader_bytes (fst ?c) @ frames (snd ?c) @ drop (?p + (32 + logBytes cs j)) img"
    proof -
      have "drop ?p img = take (32 + logBytes cs j) (drop ?p img) @ drop (32 + logBytes cs j) (drop ?p img)" by (rule append_take_drop_id [symmetric])
      also have "\<dots> = (ChunkHeader_bytes (fst ?c) @ frames (snd ?c)) @ drop (?p + (32 + logBytes cs j)) img"
        unfolding pref drop_drop by (simp only: add.commute)
      finally show ?thesis using append_take_drop_id [of ?p img] by (simp only: append.assoc)
    qed
    have lp: "length (take ?p img) = ?p" using fit by (simp add: chunkAt_Suc)
    have head: "?ch = fst ?c"
      by (subst im') (rule ChunkHeader_load_bytes [OF lp [symmetric]])
    have "fst (walkBody img j (ch_ownerThread (fst ?c)) (?p + ?cb) (?p + 32)) = views j (ch_ownerThread (fst ?c)) (?p + 32) (snd ?c)"
      if "\<forall>r \<in> set (snd ?c). rec_ok r"
    proof -
      have "img = (take ?p img @ ChunkHeader_bytes (fst ?c)) @ frames (snd ?c) @ drop (?p + (32 + logBytes cs j)) img"
        using im' by simp
      moreover have l: "length (take ?p img @ ChunkHeader_bytes (fst ?c)) = ?p + 32" using lp by simp
      ultimately have "walkBody img j (ch_ownerThread (fst ?c)) (?p + ?cb) (?p + 32) =
          addWalk (views j (ch_ownerThread (fst ?c)) (?p + 32) (snd ?c), 0, 0)
            (walkBody img j (ch_ownerThread (fst ?c)) (?p + ?cb) (?p + 32 + length (frames (snd ?c))))"
        using walkBody_frames_then [OF that, of img "take ?p img @ ChunkHeader_bytes (fst ?c)"] lay(4) [of j] lb
        by (simp add: nextHead_def chunkAt_Suc)
      then show ?thesis using stop lb by (simp add: nextHead_def)
    qed
    moreover have "\<forall>r \<in> set (snd ?c). rec_ok r" using ok by (simp add: chunk_ok_def)
    ultimately have w: "fst (walkBody img j (ch_ownerThread (fst ?c)) (?p + ?cb) (?p + 32))
      = views j (ch_ownerThread (fst ?c)) (?p + 32) (snd ?c)" by blast
    have st: "fst ?c = stampedHeader s (ch_ownerThread (fst ?c)) (ch_claimMonoNs (fst ?c))"
      using ok by (simp add: chunk_ok_def)
    then have fs: "ch_generation (fst ?c) = sg_generation s"
      "ch_headerChecksum (fst ?c) = computeChunkHeaderChecksum (ch_generation (fst ?c)) (ch_ownerThread (fst ?c))
         (ch_claimMonoNs (fst ?c)) (ch_chunkSizeClass (fst ?c))"
      by (metis ChunkHeader.select_convs stampedHeader_def)+
    have sz: "chunkSizeOf h (fst ?c) = Some ?cb" by (subst st) (rule chunkSizeOf_stamped [OF geo h(1)])
    have gen: "sg_generation s \<noteq> 0" using geo by (simp add: seg_geometry_def)
    show ?thesis
      using True fit h lay(2) w fs gen unfolding visitChunk_def Let_def head cChunkHeaderSize_def sz
      by (simp add: chunkAt_Suc addWalk_def)
  next
    case False
    have "ch_chunkSizeClass ?ch \<in> {0, sg_sizeClass s}"
      using i' j False by (simp add: classAt_def ChunkHeader_load_def)
    note sz = chunkSizeOf_class [OF geo h(1) this]
    have "fst (walkBody img j owner (?p + ?cb) (?p + 32)) = []" for owner
      using stop False by (simp add: nextHead_def logBytes_def)
    then show ?thesis
      using False fit h lay(2) unfolding visitChunk_def Let_def cChunkHeaderSize_def sz
      by (auto simp: chunkAt_Suc addWalk_def)
  qed
qed

lemma visitFrom_inFlight:
  assumes inv: "seg_inv split k s cs" and i: "inFlight s cs img" and j: "j \<le> unat (sg_chunkCount s)"
    and h: "sh_chunkBytes h = sg_chunkBytes s" "sh_generation h = sg_generation s" "unat (sh_segmentBytes h) = length img"
  shows "fst (visitFrom img h j (chunkAt s j)) = chunkViews (unat (sg_chunkBytes s)) j (chunkAt s j) (drop j cs)"
  using j
proof (induction "unat (sg_chunkCount s) - j" arbitrary: j)
  case 0
  let ?n = "unat (sg_chunkCount s)" and ?e = "chunkAt s j"
  note lay = layout [OF inv] and i' = i [unfolded inFlight_def]
  have e: "j = ?n" using 0 by simp
  have "drop ?e img = replicate (length (sg_bytes s) - ?e) 0"
    using i' unclaimed_image [OF inv lay(3)] by (simp add: e)
  then have img: "img = take ?e img @ replicate (length (sg_bytes s) - ?e) 0" by (metis append_take_drop_id)
  have l: "length (take ?e img) = ?e" using i' lay(5) by (simp add: e)
  have "fst (visitFrom (take ?e img @ replicate (length (sg_bytes s) - ?e) 0) h j (length (take ?e img))) = []"
    using lay(2,5) i' h l by (subst visitFrom_zeros) (simp_all add: e)
  then show ?case using img l e lay(3) by simp
next
  case (Suc m)
  note lay = layout [OF inv] and i' = i [unfolded inFlight_def]
  have lt: "j < unat (sg_chunkCount s)" using Suc.hyps(2) by simp
  have p: "chunkAt s j < length img" using chunkAt_less [OF lt, of s] lay(2,5) i' by simp
  obtain u n where v: "visitChunk img h j (chunkAt s j) =
    ((if j < length cs then views j (ch_ownerThread (fst (cs ! j))) (chunkAt s j + 32) (snd (cs ! j)) else [], u, n), chunkAt s (Suc j))"
    using visitChunk_inFlight [OF inv i lt h] by blast
  have "fst (visitFrom img h (Suc j) (chunkAt s (Suc j))) =
      chunkViews (unat (sg_chunkBytes s)) (Suc j) (chunkAt s (Suc j)) (drop (Suc j) cs)"
    using Suc.hyps lt by (intro Suc.hyps(1)) simp_all
  moreover have "visitFrom img h j (chunkAt s j) = addWalk
      (if j < length cs then views j (ch_ownerThread (fst (cs ! j))) (chunkAt s j + 32) (snd (cs ! j)) else [], u, n)
      (visitFrom img h (Suc j) (chunkAt s (Suc j)))"
    using p h lay(2) by (intro visitFrom_chunk [OF _ _ _ v]) simp_all
  ultimately show ?case
    by (cases "j < length cs") (simp_all add: chunkAt_Suc Cons_nth_drop_Suc [symmetric])
qed

lemma openSegment_inFlight:
  assumes inv: "seg_inv split k s cs" and i: "inFlight s cs img"
  shows "openSegment img = \<lparr>sr_image = img, sr_header = SegmentHeader_load (sg_bytes s), sr_error = Ok\<rparr>"
    and "unat (sh_segmentBytes (SegmentHeader_load (sg_bytes s))) = length img"
    and "sh_chunkBytes (SegmentHeader_load (sg_bytes s)) = sg_chunkBytes s"
    and "sh_headerBytes (SegmentHeader_load (sg_bytes s)) = sg_headerBytes s"
    and "sh_generation (SegmentHeader_load (sg_bytes s)) = sg_generation s"
proof -
  let ?h = "SegmentHeader_load (sg_bytes s)"
  have g: "seg_geometry s" using inv by (simp add: seg_inv_def)
  have len: "length img = length (sg_bytes s)" and t: "take 64 img = take 64 (sg_bytes s)" using i by (simp_all add: inFlight_def)
  have load: "SegmentHeader_load img = ?h" by (rule SegmentHeader_load_cong [OF t])
  show f: "sh_chunkBytes ?h = sg_chunkBytes s" "sh_headerBytes ?h = sg_headerBytes s" "sh_generation ?h = sg_generation s"
    using g by (simp_all add: seg_geometry_def Let_def)
  show seg: "unat (sh_segmentBytes ?h) = length img"
    using g len by (simp add: seg_geometry_def Let_def unat_of_nat)
  have "sh_magic ?h = cMagic" "sh_formatVersion ?h = cFormatVersion" using g by (simp_all add: seg_geometry_def Let_def)
  then show "openSegment img = \<lparr>sr_image = img, sr_header = ?h, sr_error = Ok\<rparr>"
    unfolding openSegment_def Let_def load using g f seg len
    by (simp add: cSegmentHeaderSize_def cChunkHeaderSize_def seg_geometry_def)
qed

lemma visit_inFlight:
  assumes inv: "seg_inv split k s cs" and i: "inFlight s cs img"
  shows "fst (visit (openSegment img)) =
    chunkViews (unat (sg_chunkBytes s)) 0 (unat (sg_headerBytes s)) cs"
proof -
  note op = openSegment_inFlight [OF inv i]
  have "fst (visitFrom img (SegmentHeader_load (sg_bytes s)) 0 (chunkAt s 0)) =
      chunkViews (unat (sg_chunkBytes s)) 0 (chunkAt s 0) (drop 0 cs)"
    by (rule visitFrom_inFlight [OF inv i _ op(3,5,2)]) simp
  then show ?thesis by (simp add: op(1) visit_def sr_valid_def op(4) chunkAt_def)
qed

lemma torn_images:
  assumes inv: "seg_inv split k s cs" and t: "(torn s cs)\<^sup>*\<^sup>* (sg_bytes s) img"
  shows "inFlight s cs img"
  using t by (induction rule: rtranclp_induct) (use inFlight_refl [OF inv] torn_inFlight [OF inv] in blast)+

lemma torn_decodes:
  assumes inv: "seg_inv split k s cs" and t: "(torn s cs)\<^sup>*\<^sup>* (sg_bytes s) img"
  shows "decodeAll dec (openSegment img) = decodeAll dec (openSegment (sg_bytes s))"
proof -
  note i = torn_images [OF inv t] and r = inFlight_refl [OF inv]
  have "fst (visit (openSegment img)) = fst (visit (openSegment (sg_bytes s)))"
    by (simp only: visit_inFlight [OF inv i] visit_inFlight [OF inv r])
  moreover have "sr_header (openSegment img) = sr_header (openSegment (sg_bytes s))"
    by (simp add: openSegment_inFlight(1) [OF inv i] openSegment_inFlight(1) [OF inv r])
  ultimately show ?thesis by (simp add: decodeAll_def)
qed

section \<open>The stores of a group\<close>

text \<open>
  Publishing a message and its continuations, store by store: the payloads, the head words
  of the continuations, and last the message's own head word.
\<close>

definition commitStores :: "bool \<Rightarrow> Reservation \<Rightarrow> RecordHead \<Rightarrow> (nat \<times> bytes) list" where
  "commitStores split slot head =
     headWordStores split (rs_headWord slot) (pack (head\<lparr>rh_sequence := rs_sequence slot\<rparr>))"

definition publishStores :: "bool \<Rightarrow> Reservation list \<Rightarrow> bytes list \<Rightarrow> RecordHead list \<Rightarrow> (nat \<times> bytes) list" where
  "publishStores split slots ps hs =
     zip (map rs_payload slots) ps
     @ concat (map (\<lambda>j. commitStores split (slots ! j) (hs ! j)) [1 ..< length ps])
     @ commitStores split (slots ! 0) (hs ! 0)"

lemma runStores_payloads: "length slots = length ps \<Longrightarrow> runStores bs (zip (map rs_payload slots) ps) = storeAll bs slots ps"
  by (induction slots ps arbitrary: bs rule: list_induct2) simp_all

lemma runStores_commit: "runStores bs (commitStores split slot head) = commit split bs slot head"
  by (simp add: commit_def commitStores_def storeHeadWord_def)

lemma runStores_commits:
  "runStores bs (concat (map (\<lambda>j. commitStores split (slots ! j) (hs ! j)) js)) = commitAll split bs slots hs js"
  by (induction js arbitrary: bs) (simp_all add: runStores_append runStores_commit)

lemma publishStores_run:
  "length slots = length ps \<Longrightarrow>
    runStores bs (publishStores split slots ps hs) = commitAll split (storeAll bs slots ps) slots hs ([1 ..< length ps] @ [0])"
  by (simp add: publishStores_def runStores_append runStores_payloads runStores_commits runStores_commit commitAll_append)

lemma stores_torn:
  assumes "j < unat (sg_chunkCount s)"
    and "\<forall>(off, xs) \<in> set ws. nextHead s cs j + 8 \<le> off \<and> off + length xs \<le> chunkAt s (Suc j)"
  shows "(torn s cs)\<^sup>*\<^sup>* img (runStores img ws)"
  using assms(2)
proof (induction img ws rule: runStores.induct)
  case (2 bs off xs ws)
  then have "torn s cs bs (store bs off xs)" using torn.body [OF assms(1)] by simp
  moreover have "(torn s cs)\<^sup>*\<^sup>* (store bs off xs) (runStores (store bs off xs) ws)" using 2 by simp
  ultimately show ?case by (simp add: converse_rtranclp_into_rtranclp)
qed simp

lemma slotsFor_payload: "j < length ns \<Longrightarrow> rs_payload (slotsFor w ns ! j) = rs_headWord (slotsFor w ns ! j) + 8"
proof (induction ns arbitrary: w j)
  case (Cons n ns)
  then show ?case by (cases j) (auto simp: nextSlot_def)
qed simp

lemma groupSize_nth: "j < length ns \<Longrightarrow> groupSize (take j ns) + footprint (ns ! j) \<le> groupSize ns"
  by (induction ns arbitrary: j) (auto simp: less_Suc_eq_0_disj)

lemma headWordStores_within:
  "(off, xs) \<in> set (headWordStores split slot word) \<Longrightarrow> slot \<le> off \<and> off + length xs \<le> slot + 8"
  by (auto simp: headWordStores_def split: if_splits)

lemma low_half_uncommitted:
  assumes "slot + 8 \<le> length bs" and "\<not> isCommitted (loadHeadWord bs slot)"
  shows "\<not> isCommitted (loadHeadWord (store bs slot (wordBytes (w :: u32))) slot)"
proof -
  have "take 4 (drop (slot + 4) (store bs slot (wordBytes w))) = take 4 (drop (slot + 4) bs)"
    using assms(1) by (simp add: drop_store_after)
  then have "(loadWord (slot + 4) (store bs slot (wordBytes w)) :: u32) = loadWord (slot + 4) bs"
    by (intro loadWord_region) simp
  then show ?thesis using assms(2) by (simp add: loadHeadWord_def isCommitted_racing)
qed

lemma publish_torn:
  assumes inv: "seg_inv split k s cs" and t: "(torn s cs)\<^sup>*\<^sup>* (sg_bytes s) img" and i: "i < length cs"
    and w_def: "w = writerAt s i (snd (cs ! i))" and room: "groupSize (map length ps) \<le> remaining w" and ne: "ps \<noteq> []"
    and n: "n < length (publishStores split (slotsFor w (map length ps)) ps hs)"
  shows "(torn s cs)\<^sup>*\<^sup>* (sg_bytes s) (runStores img (take n (publishStores split (slotsFor w (map length ps)) ps hs)))"
proof -
  let ?ns = "map length ps" and ?p = "nextHead s cs i"
  let ?ss = "slotsFor w ?ns"
  note lay = layout [OF inv]
  have il: "i < unat (sg_chunkCount s)" using i lay(3) by simp
  have base: "cw_base w + cw_offset w = ?p" using i by (simp add: w_def writerAt_def nextHead_def chunkAt_def logBytes_def)
  have rem: "?p + groupSize ?ns \<le> chunkAt s (Suc i)"
    using room lay(4) [of i] i by (simp add: w_def writerAt_def remaining_def cw_valid_def nextHead_def chunkAt_Suc logBytes_def split: if_splits)
  have slot: "?p + groupSize (take j ?ns) = rs_headWord (?ss ! j)" "rs_payload (?ss ! j) = rs_headWord (?ss ! j) + 8"
    "rs_headWord (?ss ! j) + 8 + length (ps ! j) \<le> chunkAt s (Suc i)" if "j < length ps" for j
    using slotsFor_nth [of j ?ns w] slotsFor_payload [of j ?ns w] groupSize_nth [of j ?ns] that base rem align8_ge [of "length (ps ! j)"]
    by (simp_all add: footprint_def)
  have later: "?p + 8 \<le> rs_headWord (?ss ! j)" if "j < length ps" "0 < j" for j
    using slot(1) [OF that(1)] that by (cases ps; cases j) (auto simp: footprint_def)
  define A where "A = zip (map rs_payload ?ss) ps @ concat (map (\<lambda>j. commitStores split (?ss ! j) (hs ! j)) [1 ..< length ps])"
  define B where "B = commitStores split (?ss ! 0) (hs ! 0)"
  have ab: "publishStores split ?ss ps hs = A @ B" by (simp add: publishStores_def A_def B_def)
  have body: "?p + 8 \<le> off \<and> off + length xs \<le> chunkAt s (Suc i)" if mem: "(off, xs) \<in> set A" for off xs
  proof (cases "(off, xs) \<in> set (zip (map rs_payload ?ss) ps)")
    case True
    then obtain j where "j < length ps" "off = rs_payload (?ss ! j)" "xs = ps ! j" by (auto simp: in_set_zip)
    then show ?thesis using slot [of j] by auto
  next
    case False
    then obtain j where j: "0 < j" "j < length ps" "(off, xs) \<in> set (commitStores split (?ss ! j) (hs ! j))"
      using mem by (auto simp: A_def Suc_le_eq)
    from headWordStores_within [OF j(3) [unfolded commitStores_def]] show ?thesis
      using later [OF j(2,1)] slot(3) [OF j(2)] by linarith
  qed
  have pre: "(torn s cs)\<^sup>*\<^sup>* (sg_bytes s) (runStores img (take m A))" for m
  proof -
    have "(torn s cs)\<^sup>*\<^sup>* img (runStores img (take m A))"
      by (rule stores_torn [OF il]) (use body in \<open>auto dest: in_set_takeD\<close>)
    with t show ?thesis by (rule rtranclp_trans)
  qed
  show ?thesis
  proof (cases "n \<le> length A")
    case True
    then show ?thesis using pre [of n] by (simp add: ab)
  next
    case False
    let ?img = "runStores img A"
    have h: "rs_headWord (?ss ! 0) = ?p" using slot(1) [of 0] ne by simp
    have split "n - length A = 1" using n False by (auto simp: ab B_def commitStores_def headWordStores_def split: if_splits)
    then obtain x :: u32 where x: "take (n - length A) B = [(?p, wordBytes x)]"
      by (simp add: B_def commitStores_def headWordStores_def h)
    have fl: "inFlight s cs ?img" using torn_images [OF inv pre [of "length A"]] by simp
    have p8: "?p + 8 \<le> chunkAt s (Suc i)" using slot(3) [of 0] ne h by simp
    have "chunkAt s (Suc i) \<le> length ?img"
      using chunkAt_less [OF il, of s] lay(5) fl by (simp add: chunkAt_Suc inFlight_def)
    then have "torn s cs ?img (store ?img ?p (wordBytes x))"
      using il p8 fl low_half_uncommitted [of ?p ?img x] by (intro torn.head [where j = i]) (auto simp: inFlight_def)
    then show ?thesis using pre [of "length A"] False x by (simp add: ab runStores_append)
  qed
qed

lemma publish_complete:
  assumes inv: "seg_inv split k s cs" and i: "i < length cs"
    and w_def: "w = writerAt s i (snd (cs ! i))" and room: "groupSize (map length ps) \<le> remaining w" and ne: "ps \<noteq> []"
    and ok: "length hs = length ps"
      "\<forall>j < length ps. unat (rh_payloadBytes (hs ! j)) = length (ps ! j) \<and> kindCanonical (rh_kind (hs ! j))"
  shows "seg_inv split k (s\<lparr>sg_bytes := runStores (sg_bytes s) (publishStores split (slotsFor w (map length ps)) ps hs)\<rparr>)
    (cs[i := (fst (cs ! i), snd (cs ! i) @ groupRecords w hs ps)])"
proof -
  let ?rs = "snd (cs ! i) @ groupRecords w hs ps" and ?w' = "advanceAll w (map length ps)"
  let ?js = "[1 ..< length ps] @ [0]"
  have wr: "writes w (sg_bytes s) (snd (cs ! i))" unfolding w_def by (rule seg_writes [OF inv i])
  have js: "distinct ?js" "set ?js = {0 ..< length ps}" using ne by auto
  note gc = group_committed [OF wr room js ok refl]
  have w': "?w' = writerAt s i ?rs"
  proof -
    have "cw_offset ?w' = length (frames ?rs)" "cw_sequence ?w' = word_of_nat (length ?rs)"
      using gc(1) by (simp_all add: writes_def)
    moreover have "cw_base ?w' = cw_base w" "cw_size ?w' = cw_size w" by (simp_all add: advanceAll_fields)
    ultimately show ?thesis by (simp add: w_def writerAt_def)
  qed
  have b: "cw_base (writerAt s i ?rs) = cw_base w" "cw_size (writerAt s i ?rs) = cw_size w" by (simp_all add: w_def writerAt_def)
  show ?thesis
    by (subst publishStores_run, simp, rule seg_update [OF inv i gc(2)]) (use gc w' b in simp_all)
qed

text \<open>These are the stores of the emit path.\<close>

lemma publishChain_stores:
  assumes "carries conts (slotsFor (advance w n) (contSizes ss)) ss"
    and "p = messageBytes sid now (stampCorrelation scoped (pr_logger P)) (concat (map encodedArg args))"
    and "length p = n"
  defines "ps \<equiv> p # map (slicePayload sid) ss"
  shows "publishChain ca sid now scoped args n trunc (nextSlot w) conts
      (P\<lparr>pr_cache := (pr_cache P)\<lparr>wc_writer := w'\<rparr>\<rparr>)
    = noteTruncation ca trunc (withGroup P (runStores (sg_bytes (seg P))
        (publishStores (ca_split ca) (slotsFor w (map length ps)) ps (chainHeads (messageHead n trunc (ss \<noteq> [])) ss))) w')"
  using publishChain_eq [OF assms(1-3)] by (subst publishStores_run) (simp_all add: ps_def)

text \<open>A claim in progress: the cursor, then any part of the header.\<close>

lemma claim_torn:
  assumes inv: "seg_inv split k s cs" and t: "(torn s cs)\<^sup>*\<^sup>* (sg_bytes s) img"
    and c: "claimChunkIndex split cNextChunkOffset (unat (sg_chunkCount s)) img = (index, img1)"
    and new: "length cs \<le> index"
  shows "(torn s cs)\<^sup>*\<^sup>* (sg_bytes s) img1"
    and "index < unat (sg_chunkCount s) \<Longrightarrow>
      (torn s cs)\<^sup>*\<^sup>* (sg_bytes s) (store img1 (chunkAt s index) (take n (ChunkHeader_bytes (stampedHeader s owner now))))"
proof -
  have "img1 = img \<or> (\<exists>w :: u32. img1 = store img 128 (wordBytes w)) \<or> (\<exists>w :: u64. img1 = store img 128 (wordBytes w))"
    using c by (auto simp: claimChunkIndex_def Let_def cNextChunkOffset_def split: if_splits)
  moreover have "torn s cs img (store img 128 xs)" if "length xs \<le> 8" for xs
    using that by (intro torn.cursor) (simp_all add: cNextChunkOffset_def)
  ultimately have "img1 = img \<or> torn s cs img img1" by auto
  then show t1: "(torn s cs)\<^sup>*\<^sup>* (sg_bytes s) img1" using t by (auto intro: rtranclp.rtrancl_into_rtrancl)
  let ?h = "take n (ChunkHeader_bytes (stampedHeader s owner now))"
  assume lt: "index < unat (sg_chunkCount s)"
  note lay = layout [OF inv]
  have fl: "inFlight s cs img1" by (rule torn_images [OF inv t1])
  have lh: "length (ChunkHeader_bytes (stampedHeader s owner now)) = 32" by (simp add: ChunkHeader_bytes_def)
  have fit: "chunkAt s index + 32 \<le> length img1"
    using chunkAt_less [OF lt, of s] lay(2,5) fl by (simp add: inFlight_def)
  have "classAt s index (store img1 (chunkAt s index) ?h)"
  proof (cases "n \<le> 28")
    case True
    have "(loadWord (chunkAt s index + 28) (store img1 (chunkAt s index) ?h) :: u8) = loadWord (chunkAt s index + 28) img1"
      by (rule loadWord_region, rule take_drop_store) (use True lh fit in auto)
    then show ?thesis using fl lt new by (simp add: classAt_def inFlight_def)
  next
    case False
    have "loadWord (chunkAt s index + 28) (store img1 (chunkAt s index) ?h) = sg_sizeClass s"
    proof -
      have "drop (chunkAt s index + 28) (store img1 (chunkAt s index) ?h) = drop 28 (take n (ChunkHeader_bytes (stampedHeader s owner now))) @ drop (chunkAt s index + min 32 n) img1"
        using fit lh False by (simp add: store_def min_def)
      also have "drop 28 (take n (ChunkHeader_bytes (stampedHeader s owner now))) = take (n - 28) (wordBytes (sg_sizeClass s) @ [0, 0, 0])"
        unfolding drop_take by (simp add: ChunkHeader_bytes_def stampedHeader_def)
      finally have "loadWord (chunkAt s index + 28) (store img1 (chunkAt s index) ?h)
          = loadWord 0 (take (n - 28) (wordBytes (sg_sizeClass s) @ [0, 0, 0]) @ drop (chunkAt s index + min 32 n) img1)"
        by (simp add: loadWord_def)
      also have "\<dots> = sg_sizeClass s"
      proof -
        obtain m where "n - 28 = Suc m" using False by (metis Suc_diff_Suc not_le)
        then show ?thesis using loadWord_at [of 0 "[]" "sg_sizeClass s"] by (simp add: wordBytes_def)
      qed
      finally show ?thesis .
    qed
    then show ?thesis by (simp add: classAt_def)
  qed
  then have "torn s cs img1 (store img1 (chunkAt s index) ?h)"
    using new lt lh by (intro torn.header [where j = index]) auto
  with t1 show "(torn s cs)\<^sup>*\<^sup>* (sg_bytes s) (store img1 (chunkAt s index) ?h)" by (rule rtranclp.rtrancl_into_rtrancl)
qed

section \<open>After any run of calls\<close>

lemma threads_segment:
  assumes ok: "sites_ok sites types" "\<forall>c \<in> set calls. em_ok types (snd c)"
    and inv: "world_inv ca (4 * length calls) w []"
    and w: "wd_sites w = sites" "pc_active (wd_process w) \<noteq> 0"
  obtains cs where "seg_inv (ca_split ca) 0 (lg_segment (wd_logger (runThreads ca calls w))) cs"
proof -
  have inv0: "world_inv ca (0 + 4 * length calls) w []" using inv by simp
  obtain cs evs where "world_outcome ca 0 sites types (filter (passes (wd_logger w) sites) calls)
      (knownSites ca (producer w 0) (wd_sites w)) w [] (runThreads ca calls w) cs evs"
    using world_run [OF ok inv0 _ w(2)] w(1) by auto
  then have "prod_inv (thread ca 0) 0 (producer (runThreads ca calls w) 0) cs"
    by (simp add: world_outcome_def world_inv_def)
  then have "seg_inv (ca_split ca) 0 (lg_segment (wd_logger (runThreads ca calls w))) cs" by (simp add: prod_inv_def)
  then show thesis by (rule that)
qed

lemma threads_killed:
  assumes ok: "sites_ok sites types" "\<forall>c \<in> set calls. em_ok types (snd c)"
    and inv: "world_inv ca (4 * length calls) w []"
    and w: "wd_sites w = sites" "pc_active (wd_process w) \<noteq> 0"
    and fresh: "\<forall>site \<in> set sites. sd_announcedKey site \<noteq> announceKey (ca_split ca) (lg_segment (wd_logger w))"
    and s: "s = lg_segment (wd_logger (runThreads ca calls w))"
  shows "\<exists>cs kept. seg_inv (ca_split ca) 0 s cs \<and> subseq kept (filter (passes (wd_logger w) sites) calls)
    \<and> (\<forall>img u. (torn s cs)\<^sup>*\<^sup>* (sg_bytes s) img \<longrightarrow>
         list_all2 (logged sites types (thread ca u) (producer w u)) (map snd (filter (\<lambda>c. fst c = u) kept))
           (filter (\<lambda>r. dr_ownerThread r = u) (fst (decodeAll newDecoder (openSegment img)))))"
proof -
  obtain cs where cs: "seg_inv (ca_split ca) 0 s cs" using threads_segment [OF ok inv w] unfolding s by blast
  obtain recs dec where dec: "decodeAll newDecoder (openSegment (sg_bytes s)) = (recs, dec)" by fastforce
  obtain kept where kept: "subseq kept (filter (passes (wd_logger w) sites) calls)"
    "\<forall>u. list_all2 (logged sites types (thread ca u) (producer w u)) (map snd (filter (\<lambda>c. fst c = u) kept))
       (filter (\<lambda>r. dr_ownerThread r = u) recs)"
    using threads_decode [OF ok inv w fresh refl dec [unfolded s]] by blast
  have "fst (decodeAll newDecoder (openSegment img)) = recs" if "(torn s cs)\<^sup>*\<^sup>* (sg_bytes s) img" for img
    using torn_decodes [OF cs that] dec by simp
  then show ?thesis using cs kept by (intro exI [of _ cs] exI [of _ kept]) simp
qed

section \<open>Properties\<close>

text \<open>
  C3. A process killed while it publishes a message.  Take a segment with the committed logs
  \<open>cs\<close>, whatever other calls in progress have already stored, and a writer that publishes a
  group (a message and its continuations) store by store.  Killed before the last of these
  stores, the decoder gives exactly what it gave before, every committed record, no part of
  the group and nothing of the other calls; after the last one the whole group is part of
  the log.
\<close>

theorem killed_publish:
  assumes "seg_inv split k s cs" and "(torn s cs)\<^sup>*\<^sup>* (sg_bytes s) img" and "i < length cs"
    and "w = writerAt s i (snd (cs ! i))" and "groupSize (map length ps) \<le> remaining w" and "ps \<noteq> []"
    and "length hs = length ps"
    and "\<forall>j < length ps. unat (rh_payloadBytes (hs ! j)) = length (ps ! j) \<and> kindCanonical (rh_kind (hs ! j))"
    and "stores = publishStores split (slotsFor w (map length ps)) ps hs" and "n < length stores"
  shows "decodeAll dec (openSegment (runStores img (take n stores))) = decodeAll dec (openSegment (sg_bytes s))
    \<and> seg_inv split k (s\<lparr>sg_bytes := runStores (sg_bytes s) stores\<rparr>)
        (cs[i := (fst (cs ! i), snd (cs ! i) @ groupRecords w hs ps)])"
proof -
  have "(torn s cs)\<^sup>*\<^sup>* (sg_bytes s) (runStores img (take n stores))"
    unfolding assms(9) by (rule publish_torn [OF assms(1-6) assms(10) [unfolded assms(9)]])
  from torn_decodes [OF assms(1) this] show ?thesis
    using publish_complete [OF assms(1,3,4,5,6,7,8)] by (simp add: assms(9))
qed

theorem killed_publish_witness:
  "let s = snd (claimChunk True 3 9 (exampleSegment True 448));
       w = writerAt s 0 [];
       stores = publishStores True (slotsFor w [3]) [[1, 2, 3]] [messageHead 3 False False]
   in decodeAll newDecoder (openSegment (runStores (store (sg_bytes s) 400 [0xAA, 0xBB]) (take 2 stores)))
        = decodeAll newDecoder (openSegment (sg_bytes s))"
proof -
  let ?e = "exampleSegment True 448"
  let ?cs = "[(stampedHeader ?e 3 9, [])]" and ?s = "snd (claimChunk True 3 9 ?e)"
  let ?stores = "publishStores True (slotsFor (writerAt ?s 0 []) [3]) [[1, 2, 3]] [messageHead 3 False False]"
  have geo: "unat (sg_chunkCount ?e) = 2" "unat (sg_chunkBytes ?e) = 128" "unat (sg_headerBytes ?e) = 192"
    by (simp_all add: exampleSegment_def createInMemory_fits storageFits_def initialise_def Let_def split: prod.split)
  have inv: "seg_inv True (Suc (2 ^ 64 - 2)) ?e []" by (rule exampleSegment_inv) simp_all
  have lt: "length ([] :: chunklog list) < unat (sg_chunkCount ?e)" using geo by simp
  have c: "claimChunk True 3 9 ?e = (fst (claimChunk True 3 9 ?e), ?s)" by simp
  note ok = claimChunk_ok [OF inv lt c]
  have sinv: "seg_inv True (2 ^ 64 - 2) ?s ?cs" using ok(3) by simp
  obtain bs where s: "?s = ?e\<lparr>sg_bytes := bs\<rparr>" using ok(2) by blast
  have at: "chunkAt ?s 1 = 320" "chunkAt ?s 2 = 448" "nextHead ?s ?cs 1 = 352" "unat (sg_chunkCount ?s) = 2"
    unfolding s chunkAt_def nextHead_def logBytes_def using geo by simp_all
  have torn: "(torn ?s ?cs)\<^sup>*\<^sup>* (sg_bytes ?s) (store (sg_bytes ?s) 400 [0xAA, 0xBB])"
    using at by (intro r_into_rtranclp torn.body [where j = 1]) (simp_all add: numeral_2_eq_2 [symmetric])
  have rem: "groupSize (map length [[1, 2, 3 :: byte]]) \<le> remaining (writerAt ?s 0 [])"
    unfolding s using geo by (simp add: writerAt_def remaining_def cw_valid_def footprint_def align8_def)
  have n: "2 < length ?stores"
    by (simp add: publishStores_def commitStores_def headWordStores_def)
  show ?thesis
    using killed_publish [OF sinv torn _ refl, where ps = "[[1, 2, 3]]" and i = 0 and hs = "[messageHead 3 False False]"
        and n = 2 and dec = newDecoder, OF _ _ _ _ _ refl] rem n
    by (simp add: messageHead_def kindCanonical_def kindOfCode_def Let_def)
qed

end
