(* ===== verification/Fork.thy ===== *)
theory Fork
  imports Threads
begin

text \<open>
  \<open>fork\<close> and the Logger (\<^verbatim>\<open>include/sub0log/instance.hpp\<close>, \<open>registerForkHandlerOnce\<close> and
  \<open>detachForFork\<close>): creating a Logger registers, once per process, a handler that runs in
  every forked child and unbinds what was bound, so that the child does not write into the
  segment it shares with its parent.
\<close>

section \<open>The handler\<close>

text \<open>The function-local static of \<open>registerForkHandlerOnce\<close> and the child handlers of \<open>pthread_atfork\<close>.\<close>

record ForkTable =
  fk_once :: bool
  fk_handlers :: "(Process \<Rightarrow> Process) list"

definition noHandlers :: ForkTable where
  "noHandlers = \<lparr>fk_once = False, fk_handlers = []\<rparr>"

definition registerForkHandlerOnce :: "ForkTable \<Rightarrow> ForkTable" where
  "registerForkHandlerOnce t =
     (if fk_once t then t else t\<lparr>fk_once := True, fk_handlers := fk_handlers t @ [detachForFork]\<rparr>)"

text \<open>What a process does to its fork state: create a Logger (the rest of \<open>finishCreate\<close> clears the flag), bind, unbind.\<close>

datatype forkAction = Creates | Binds nat | Unbinds nat

definition forkStep :: "ForkTable \<times> Process \<Rightarrow> forkAction \<Rightarrow> ForkTable \<times> Process" where
  "forkStep s a =
     (case a of
        Creates \<Rightarrow> (registerForkHandlerOnce (fst s), (snd s)\<lparr>pc_detachedByFork := False\<rparr>)
      | Binds logger \<Rightarrow> (fst s, snd (bindLogger logger (snd s)))
      | Unbinds previous \<Rightarrow> (fst s, unbindLogger previous (snd s)))"

text \<open>The child's variables after \<open>fork\<close>: the parent's, and the handlers in the order of registration.\<close>

definition forkChild :: "ForkTable \<Rightarrow> Process \<Rightarrow> Process" where
  "forkChild t p = foldl (\<lambda>p h. h p) p (fk_handlers t)"

definition childWorld :: "ForkTable \<Rightarrow> World \<Rightarrow> World" where
  "childWorld t w = w\<lparr>wd_process := forkChild t (wd_process w)\<rparr>"

lemma registered_handlers:
  "fk_handlers (fst (foldl forkStep (noHandlers, p) actions)) = (if Creates \<in> set actions then [detachForFork] else [])
   \<and> (fk_once (fst (foldl forkStep (noHandlers, p) actions)) \<longleftrightarrow> Creates \<in> set actions)"
  by (induction actions rule: rev_induct)
    (auto simp: noHandlers_def forkStep_def registerForkHandlerOnce_def split: forkAction.splits)

text \<open>The steps are those of the Logger's own functions.\<close>

lemma forkStep_creates:
  "snd (finishCreate ca clock envVar segment options cache p) = snd (forkStep (t, p) Creates)"
  by (simp add: finishCreate_def forkStep_def Let_def)

section \<open>Emitting unbound\<close>

lemma counterIncrement_below:
  "unat n < 1024 \<Longrightarrow> counterIncrement split n = n + 1"
proof -
  assume n: "unat n < 1024"
  obtain m where e: "n = word_of_nat m" and m: "m < 1024" using n that [of "unat n"] by simp
  have "(ucast n :: u32) = word_of_nat m" unfolding e using m by (simp add: word_unat_eq_iff unat_of_nat unsigned_ucast_eq take_bit_eq_mod)
  then have low: "ucast n + 1 = (word_of_nat (Suc m) :: u32)" by simp
  have "unat (ucast (word_of_nat (Suc m) :: u32) :: u64) = unat (word_of_nat (Suc m) :: u64)"
    using m by (simp add: unsigned_ucast_eq take_bit_eq_mod unat_of_nat del: of_nat_Suc)
  then have "(ucast (word_of_nat (Suc m) :: u32) :: u64) = word_of_nat (Suc m)" by (simp only: word_unat_eq_iff)
  then have "ucast (ucast n + 1 :: u32) = n + 1" unfolding low by (simp add: e add.commute)
  then show ?thesis by (simp add: counterIncrement_def)
qed

definition countedUnbound :: "nat \<Rightarrow> u64 \<Rightarrow> u64" where
  "countedUnbound k n = word_of_nat (max (unat n) (min 1024 (unat n + k)))"

lemma countUnbound_next:
  "snd (countUnboundEmit split (p\<lparr>pc_unboundEmits := countedUnbound k n\<rparr>)) = p\<lparr>pc_unboundEmits := countedUnbound (Suc k) n\<rparr>"
proof -
  have n: "unat n < 2 ^ 64" using unsigned_less [of n] by simp
  have u: "unat (countedUnbound k n) = max (unat n) (min 1024 (unat n + k))" for k
    using n by (simp add: countedUnbound_def unat_of_nat)
  have lt: "countedUnbound k n < cUnboundEmitCap \<longleftrightarrow> unat n + k < 1024"
    unfolding word_less_nat_alt u by (auto simp: cUnboundEmitCap_def)
  show ?thesis
  proof (cases "unat n + k < 1024")
    case True
    have "counterIncrement split (countedUnbound k n) = countedUnbound k n + 1"
      by (rule counterIncrement_below) (use True u in simp)
    moreover have "countedUnbound k n + 1 = countedUnbound (Suc k) n"
      using True by (simp add: countedUnbound_def)
    ultimately show ?thesis using True lt by (simp add: countUnboundEmit_def)
  next
    case False
    then have "countedUnbound (Suc k) n = countedUnbound k n" by (simp add: countedUnbound_def)
    then show ?thesis using False lt by (simp add: countUnboundEmit_def)
  qed
qed

lemma threadCall_unbound:
  assumes "pc_active (wd_process w) = 0"
  shows "threadCall ca w c = w\<lparr>wd_process := snd (countUnboundEmit (ca_split ca) (wd_process w))\<rparr>"
  using assms by (cases c) (simp add: threadCall_def logCall_def enabled_def countUnboundEmit_def producer_def)

lemma runThreads_unbound:
  assumes "pc_active (wd_process w) = 0"
  shows "runThreads ca calls w = w\<lparr>wd_process := (wd_process w)\<lparr>pc_unboundEmits :=
    countedUnbound (length calls) (pc_unboundEmits (wd_process w))\<rparr>\<rparr>"
proof (induction calls rule: rev_induct)
  case Nil
  have "countedUnbound 0 n = n" for n
    by (simp add: countedUnbound_def)
  then show ?case by (simp add: runThreads_def)
next
  case (snoc c calls)
  then show ?case
    using assms by (simp add: runThreads_def threadCall_unbound countUnbound_next)
qed

section \<open>Properties\<close>

text \<open>
  C4. A forked child writes nothing into its parent's segment.  Once a process has created
  a Logger, whatever it bound and unbound before or after, a child forked from it starts
  unbound and knows it: any calls of the logging macro in the child, from any of its
  threads, leave the Logger with its segment, every call site and every writer cache as
  the parent left them, and are counted as emits into nowhere up to the cap.
\<close>

theorem forked_child_writes_nothing:
  assumes "foldl forkStep (noHandlers, p) actions = (t, wd_process w)" and "Creates \<in> set actions"
    and "childWorld t w = c"
  shows "pc_detachedByFork (wd_process c)
    \<and> runThreads ca calls c = c\<lparr>wd_process := (wd_process c)\<lparr>pc_unboundEmits :=
        countedUnbound (length calls) (pc_unboundEmits (wd_process c))\<rparr>\<rparr>
    \<and> wd_logger c = wd_logger w \<and> wd_sites c = wd_sites w \<and> wd_caches c = wd_caches w"
proof -
  have "fk_handlers t = [detachForFork]"
    using registered_handlers [of p actions] assms(1,2) by simp
  then have c: "c = w\<lparr>wd_process := detachForFork (wd_process w)\<rparr>"
    using assms(3) by (simp add: childWorld_def forkChild_def)
  then have "pc_active (wd_process c) = 0" by (simp add: detachForFork_def)
  from runThreads_unbound [OF this] c show ?thesis by (simp add: detachForFork_def)
qed

definition exampleParent :: World where
  "exampleParent = \<lparr>wd_logger = emptyLogger, wd_process = \<lparr>pc_active = 5, pc_detachedByFork = False, pc_unboundEmits = 2\<rparr>,
     wd_sites = [exampleSite], wd_caches = (\<lambda>t. emptyCache)\<rparr>"

definition exampleChildCalls :: "call list" where
  "exampleChildCalls = [(3, \<lparr>em_clock = (\<lambda>i. 9), em_scoped = 0, em_site = 0, em_args = [AU32 7]\<rparr>)]"

theorem forked_child_writes_nothing_witness:
  "let t = registerForkHandlerOnce noHandlers; c = childWorld t exampleParent
   in pc_detachedByFork (wd_process c)
      \<and> wd_logger (runThreads (exampleCaller False) exampleChildCalls c) = emptyLogger
      \<and> pc_unboundEmits (wd_process (runThreads (exampleCaller False) exampleChildCalls c)) = 3"
proof -
  let ?t = "registerForkHandlerOnce noHandlers"
  let ?c = "childWorld ?t exampleParent"
  have "foldl forkStep (noHandlers, \<lparr>pc_active = 0, pc_detachedByFork = True, pc_unboundEmits = 2\<rparr>) [Creates, Binds 5]
      = (?t, wd_process exampleParent)"
    by (simp add: forkStep_def bindLogger_def exampleParent_def)
  note f = forked_child_writes_nothing [OF this _ refl, of "exampleCaller False" exampleChildCalls]
  have "pc_unboundEmits (wd_process ?c) = 2"
    by (simp add: childWorld_def forkChild_def registerForkHandlerOnce_def noHandlers_def detachForFork_def exampleParent_def)
  moreover have "wd_logger ?c = emptyLogger" using f by (simp add: exampleParent_def)
  ultimately show ?thesis using f by (simp add: Let_def exampleChildCalls_def countedUnbound_def)
qed

end
