(* ===== verification/Headroom.thy ===== *)
theory Headroom
  imports Trace
begin

text \<open>
  How much of a segment one emit can use up.  A thread that finds two chunks unclaimed logs
  any event whose definition and whose message with its continuations each fit an empty
  chunk: neither is dropped.  What an emit does to the generation kept in the thread's
  cache, and to the site's announced key.
\<close>

section \<open>Headroom\<close>

lemma claimInto_length:
  assumes inv: "prod_inv ca (Suc k) P cs" and inv': "prod_inv ca k (claimInto ca now P) cs'"
  shows "length cs' \<le> Suc (length cs)"
proof -
  have s: "seg_inv (ca_split ca) (Suc k) (seg P) cs" using inv by (simp add: prod_inv_def)
  obtain w s' where c: "claimChunk (ca_split ca) (ca_thread ca) now (seg P) = (w, s')" by (metis surj_pair)
  have e: "seg (claimInto ca now P) = s'" using c by (simp add: claimInto_def seg_def)
  have n: "claimedChunks (ca_split ca) s' = length cs'" using inv' by (simp add: prod_inv_def seg_inv_def e)
  show ?thesis
  proof (cases "length cs < unat (sg_chunkCount (seg P))")
    case True
    then show ?thesis using claimChunk_ok(3) [OF s True c] n by (simp add: seg_inv_def)
  next
    case False
    then have "length cs = unat (sg_chunkCount (seg P))" using s by (simp add: seg_inv_def)
    then show ?thesis using claimChunk_full(3) [OF s _ c] n by (simp add: seg_inv_def)
  qed
qed

text \<open>A writer that stands in a fresh chunk of its own, one claim later.\<close>

definition freshWriter :: "Caller \<Rightarrow> nat \<Rightarrow> Producer \<Rightarrow> chunklog list \<Rightarrow> Producer \<Rightarrow> bool" where
  "freshWriter ca k P cs P' \<longleftrightarrow>
     (\<exists>cs'. prod_inv ca k P' cs' \<and> length cs' \<le> Suc (length cs)) \<and> same_rest P P' \<and> owns ca P'
     \<and> cw_valid (writer P') \<and> remaining (writer P') = unat (sg_chunkBytes (seg P)) - 32"

lemma claimInto_fresh:
  assumes inv: "prod_inv ca (Suc k) P cs" and lt: "length cs < unat (sg_chunkCount (seg P))"
  shows "freshWriter ca k P cs (claimInto ca now P)"
proof -
  obtain cs' where c: "prod_inv ca k (claimInto ca now P) cs'" "same_rest P (claimInto ca now P)" "owns ca (claimInto ca now P)"
    "cw_valid (writer (claimInto ca now P)) \<longleftrightarrow> length cs < unat (sg_chunkCount (seg P))"
    "cw_valid (writer (claimInto ca now P)) \<Longrightarrow> remaining (writer (claimInto ca now P)) = unat (sg_chunkBytes (seg P)) - 32"
    using claimInto_inv [OF inv, of now] by metis
  then show ?thesis using lt claimInto_length [OF inv c(1)] unfolding freshWriter_def by blast
qed

text \<open>
  With one chunk left, a thread's two attempts to find room go through the writer it holds
  and then a fresh one, or through a fresh one at once.
\<close>

lemma attempts:
  assumes inv: "prod_inv ca (Suc (Suc k)) P cs" and lt: "length cs < unat (sg_chunkCount (seg P))"
    and c: "currentWriter ca now P = (ok, P1)"
  obtains (fresh) "ok" "freshWriter ca k P cs P1"
    | (held) "P1 = P" "ok \<longrightarrow> owns ca P \<and> cw_valid (writer P)"
        "\<And>now'. \<exists>P3. refillWriter ca now' P = (True, P3) \<and> freshWriter ca k P cs P3"
proof -
  have inv1: "prod_inv ca (Suc k) P cs" using inv by (rule prod_inv_mono) simp
  have r: "refillWriter ca now' P = (True, claimInto ca now' P)" for now'
    using claimInto_fresh [OF inv1 lt, of now'] by (simp add: refillWriter_def freshWriter_def writer_def)
  show thesis
    using c claimInto_fresh [OF inv1 lt] r that
    by (auto simp: currentWriter_def owns_def seg_def writer_def freshWriter_def Let_def split: if_splits)
qed

lemma reserveIn_room:
  assumes "cw_valid (writer P)" and "n \<le> 0xFFFF" and "footprint n \<le> remaining (writer P)"
  shows "reserveIn n P = (Some (nextSlot (writer P)), P\<lparr>pr_cache := (pr_cache P)\<lparr>wc_writer := advance (writer P) n\<rparr>\<rparr>)"
  using reserve_next [OF assms(2,1,3)] by (simp add: reserveIn_def writer_def)

lemma reserveIn_fresh:
  assumes "freshWriter ca k P cs P'" and "fitsEmpty P n"
  shows "reserveIn n P' = (Some (nextSlot (writer P')), P'\<lparr>pr_cache := (pr_cache P')\<lparr>wc_writer := advance (writer P') n\<rparr>\<rparr>)"
  using assms by (intro reserveIn_room) (simp_all add: freshWriter_def fitsEmpty_def)

lemma dropped_simps [simp]:
  "dropped (storePayload s p P) = dropped P" "dropped (commitIn ca s h P) = dropped P"
  "dropped (noteTruncation ca b P) = dropped P" "dropped (P\<lparr>pr_cache := c\<rparr>) = dropped P"
  "dropped (updateBytes f P) = dropped P"
  by (simp_all add: storePayload_def commitIn_def updateBytes_def noteTruncation_def countTruncation_def dropped_def)

lemma reserveIn_dropped: "reserveIn n P = (res, P') \<Longrightarrow> dropped P' = dropped P"
  by (auto simp: reserveIn_def split: prod.splits)

lemma freshWriter_dropped: "freshWriter ca k P cs P' \<Longrightarrow> dropped P' = dropped P"
  by (auto simp: freshWriter_def dest: same_rest_counters)

text \<open>A message that fits an empty chunk is written while one is left.\<close>

lemma reserveRecord_kept:
  assumes inv: "prod_inv ca (Suc (Suc k)) P cs" and lt: "length cs < unat (sg_chunkCount (seg P))"
    and fits: "fitsEmpty P n"
  obtains slot P' where "reserveRecord ca now now' n P = (Some slot, P')" "dropped P' = dropped P"
proof -
  obtain ok P1 where c: "currentWriter ca now P = (ok, P1)" by (metis surj_pair)
  show thesis
    using inv lt c
  proof (cases rule: attempts)
    case fresh
    then show thesis
      using that c reserveIn_fresh [OF fresh(2) fits] freshWriter_dropped [OF fresh(2)] by (simp add: reserveRecord_def)
  next
    case held
    define try1 where "try1 = (if ok then reserveIn n P else (None, P))"
    obtain s1 P2 where t: "try1 = (s1, P2)" by (metis surj_pair)
    obtain P3 where c2: "refillWriter ca now' P = (True, P3)" "freshWriter ca k P cs P3" using held(3) by blast
    show thesis
    proof (cases s1)
      case None
      then have "P2 = P" using t by (auto simp: try1_def dest: reserveIn_refused split: if_splits)
      then show thesis
        using that c held(1) t None c2(1) reserveIn_fresh [OF c2(2) fits] freshWriter_dropped [OF c2(2)]
        by (simp add: reserveRecord_def try1_def [symmetric])
    next
      case (Some s)
      then have "dropped P2 = dropped P" using t by (auto simp: try1_def dest: reserveIn_dropped split: if_splits)
      then show thesis
        using that c held(1) t Some by (simp add: reserveRecord_def try1_def [symmetric])
    qed
  qed
qed

lemma emitPlain_kept:
  assumes "prod_inv ca (Suc (Suc k)) P cs" and "length cs < unat (sg_chunkCount (seg P))"
    and "fitsEmpty P (messageSize args)"
  shows "dropped (emitPlain ca clk scoped sid args P) = dropped P"
proof -
  obtain slot P' where "reserveRecord ca (clk 2) (clk 3) (messageSize args) P = (Some slot, P')" "dropped P' = dropped P"
    by (rule reserveRecord_kept [OF assms])
  then show ?thesis by (simp add: emitPlain_def Let_def upperBoundSize_messageSize case_prod_beta)
qed

lemma dropped_conts [simp]:
  "dropped (writeContinuations sid conts P) = dropped P" "dropped (commitContinuations ca conts P) = dropped P"
proof -
  have "dropped (foldl (\<lambda>P c. storePayload (ct_reservation c) (continuationBytes sid c) P) P conts) = dropped P"
    by (induction conts arbitrary: P) simp_all
  then show "dropped (writeContinuations sid conts P) = dropped P" by (simp add: writeContinuations_def)
  have "dropped (foldl (\<lambda>P i. commitIn ca (ct_reservation (conts ! i)) (continuationHead conts i) P) P is) = dropped P" for "is"
    by (induction "is" arbitrary: P) simp_all
  then show "dropped (commitContinuations ca conts P) = dropped P" by (simp add: commitContinuations_def)
qed

lemma publishChain_dropped [simp]: "dropped (publishChain ca sid now scoped args n b m conts P) = dropped P"
  by (simp add: publishChain_def Let_def)

definition chainRoom :: "Producer \<Rightarrow> arg list \<Rightarrow> bool" where
  "chainRoom P args \<longleftrightarrow> messageSize args \<le> 0xFFFF \<and> chainFits P args"

lemma chainRoom_fits: "chainRoom P args \<Longrightarrow> fitsEmpty P (messageSize args)"
  by (simp add: chainRoom_def chainFits_def fitsEmpty_def)

lemma reserveChainIn_dropped:
  "reserveChainIn n m ovs P = (res, P') \<Longrightarrow> dropped P' = dropped P"
  by (auto simp: reserveChainIn_def split: prod.splits)

lemma emitChained_kept:
  assumes inv: "prod_inv ca (Suc (Suc k)) P cs" and lt: "length cs < unat (sg_chunkCount (seg P))"
    and fits: "chainRoom P args"
  shows "dropped (emitChained ca clk scoped sid args P) = dropped P"
proof -
  let ?n = "messageSize args" and ?m = "length args * cMaxContinuations" and ?ovs = "overflowsOf args"
  have n: "cMessagePayloadSize + sum_list (map argWireBytes args) = ?n" by (simp add: messageSize_def argWireBytes_sum)
  have chain: "\<exists>m conts P''. reserveChainIn ?m ?n ?ovs P' = (Some (m, conts), P'') \<and> dropped P'' = dropped P"
    if f: "freshWriter ca k P cs P'" for P'
  proof -
    obtain res P'' where r: "reserveChainIn ?m ?n ?ovs P' = (res, P'')" by (metis surj_pair)
    have v: "cw_valid (writer P')" using f by (simp add: freshWriter_def)
    from v r show ?thesis
      using f fits reserveChainIn_dropped [OF r] freshWriter_dropped [OF f] r
      by (cases rule: reserveChainIn_cases) (auto simp: freshWriter_def chainRoom_def chainFits_def)
  qed
  obtain ok P1 where c: "currentWriter ca (clk 2) P = (ok, P1)" by (metis surj_pair)
  show ?thesis
    using inv lt c
  proof (cases rule: attempts)
    case fresh
    then show ?thesis
      using c chain [OF fresh(2)] by (auto simp: emitChained_def Let_def n)
  next
    case held
    define try1 where "try1 = (if ok then reserveChainIn ?m ?n ?ovs P else (None, P))"
    obtain res1 P2 where t: "try1 = (res1, P2)" by (metis surj_pair)
    have d: "dropped P2 = dropped P" using t by (auto simp: try1_def dest: reserveChainIn_dropped split: if_splits)
    obtain P3 where c2: "refillWriter ca (clk 3) P = (True, P3)" "freshWriter ca k P cs P3" using held(3) by blast
    obtain m conts P4 where r: "reserveChainIn ?m ?n ?ovs P3 = (Some (m, conts), P4)" "dropped P4 = dropped P"
      using chain [OF c2(2)] by blast
    show ?thesis
    proof (cases res1)
      case None
      have "P2 = P"
      proof (cases ok)
        case True
        then have v: "cw_valid (writer P)" and q: "reserveChainIn ?m ?n ?ovs P = (None, P2)"
          using held(2) t None by (simp_all add: try1_def)
        from v q show ?thesis by (cases rule: reserveChainIn_cases) simp_all
      qed (use t in \<open>simp add: try1_def\<close>)
      then show ?thesis
        using c held(1) t None c2(1) r by (simp add: emitChained_def Let_def n try1_def [symmetric])
    next
      case (Some mc)
      then show ?thesis
        using c held(1) t d by (cases mc) (simp add: emitChained_def Let_def n try1_def [symmetric])
    qed
  qed
qed

text \<open>A definition that fits an empty chunk whole takes at most one more chunk.\<close>

lemma writer_inside:
  assumes "prod_inv ca k P cs" and "owns ca P" and "cw_valid (writer P)"
  shows "136 \<le> cw_base (writer P)" "cw_base (writer P) + cw_size (writer P) \<le> length (sg_bytes (seg P))"
proof -
  obtain i where i: "i < length cs" "writer P = writerAt (seg P) i (snd (cs ! i))"
    using assms by (auto simp: prod_inv_def lastOf_def)
  let ?hb = "unat (sg_headerBytes (seg P))" and ?cb = "unat (sg_chunkBytes (seg P))" and ?n = "unat (sg_chunkCount (seg P))"
  have g: "136 \<le> ?hb" "?hb \<le> length (sg_bytes (seg P))" "48 \<le> ?cb" "?n * ?cb \<le> length (sg_bytes (seg P)) - ?hb" "length cs \<le> ?n"
    using assms(1) by (simp_all add: prod_inv_def seg_inv_def seg_geometry_def)
  have "Suc i * ?cb \<le> ?n * ?cb" using i(1) g(5) by (intro mult_le_mono1) simp
  then show "136 \<le> cw_base (writer P)" "cw_base (writer P) + cw_size (writer P) \<le> length (sg_bytes (seg P))"
    using g by (simp_all add: i(2) writerAt_def)
qed

lemma definition_stays:
  assumes inv: "prod_inv ca k P cs" and own: "owns ca P"
    and r: "reserveIn (length (definitionPayload sid sub sev fmt file line codes)) P = (Some s, P1)"
  shows "fst (finishDefinition ca sid sub sev fmt file line codes b s P1)"
    and "dropped (snd (finishDefinition ca sid sub sev fmt file line codes b s P1)) = dropped P"
    and "claimedChunks (ca_split ca) (seg (snd (finishDefinition ca sid sub sev fmt file line codes b s P1))) = length cs"
proof -
  let ?p = "definitionPayload sid sub sev fmt file line codes"
  note rD = reserveIn_SomeD [OF r]
  note w = writer_inside [OF inv own rD(2)]
  have s: "s = nextSlot (writer P)" "P1 = P\<lparr>pr_cache := (pr_cache P)\<lparr>wc_writer := advance (writer P) (length ?p)\<rparr>\<rparr>"
    using reserveIn_room [OF rD(2,1,3)] r by simp_all
  have room: "cw_offset (writer P) + footprint (length ?p) \<le> cw_size (writer P)"
  proof -
    have "0 < remaining (writer P)" using rD(3) footprint_pos [of "length ?p"] by linarith
    then have "remaining (writer P) = cw_size (writer P) - cw_offset (writer P)" "cw_offset (writer P) \<le> cw_size (writer P)"
      by (simp_all add: remaining_def split: if_splits)
    then show ?thesis using rD(3) by linarith
  qed
  then have room: "cw_offset (writer P) + 8 + length ?p \<le> cw_size (writer P)"
    using align8_ge [of "length ?p"] by (simp add: footprint_def)
  let ?bs = "sg_bytes (seg P)" and ?bs1 = "store (sg_bytes (seg P)) (rs_payload s) ?p"
  have l1: "length ?bs1 = length ?bs" "take 136 ?bs1 = take 136 ?bs"
    using w room by (simp_all add: s(1) nextSlot_def take_store_before)
  define h where "h = \<lparr>rh_payloadBytes = word_of_nat (length ?p), rh_kind = SiteDefinition,
    rh_flags = (if b then cFlagTruncated else 0), rh_sequence = (0 :: u16)\<rparr>"
  have slot: "rs_headWord s + 8 \<le> length ?bs1" "136 \<le> rs_headWord s" using w room l1 by (simp_all add: s(1) nextSlot_def)
  have l2: "length (commit (ca_split ca) ?bs1 s h) = length ?bs" "take 136 (commit (ca_split ca) ?bs1 s h) = take 136 ?bs"
    using slot l1 by (simp_all add: commit_def storeHeadWord_eq take_store_before)
  define Q where "Q = noteTruncation ca b (commitIn ca s h (storePayload s ?p P1))"
  have f: "finishDefinition ca sid sub sev fmt file line codes b s P1 = (True, Q)"
    by (simp add: finishDefinition_def Let_def h_def Q_def)
  have "seg Q = (seg P)\<lparr>sg_bytes := commit (ca_split ca) ?bs1 s h\<rparr>"
    by (simp add: Q_def s(2) seg_def noteTruncation_def countTruncation_def commitIn_def storePayload_def updateBytes_def)
  moreover have "claimedChunks (ca_split ca) (seg P) = length cs" using inv by (simp add: prod_inv_def seg_inv_def)
  moreover have "dropped Q = dropped P" by (simp add: Q_def s(2))
  ultimately show "fst (finishDefinition ca sid sub sev fmt file line codes b s P1)"
    and "dropped (snd (finishDefinition ca sid sub sev fmt file line codes b s P1)) = dropped P"
    and "claimedChunks (ca_split ca) (seg (snd (finishDefinition ca sid sub sev fmt file line codes b s P1))) = length cs"
    using cursor_cong(1) [OF l2(2,1)] by (simp_all add: f claimedChunks_def split: if_splits)
qed

lemma definition_kept:
  assumes inv: "prod_inv ca (Suc (Suc k)) P cs" and lt: "length cs < unat (sg_chunkCount (seg P))"
    and small: "length codes + length fmt + length file < 2 ^ 32 - 28"
    and fits: "fitsEmpty P (28 + length codes + length fmt + length file)"
    and w: "writeSiteDefinitionCore ca clk sid sub sev fmt file line codes P = (ok, P')"
  shows "ok \<and> dropped P' = dropped P \<and> claimedChunks (ca_split ca) (seg P') \<le> Suc (length cs)"
proof -
  let ?n = "length (definitionPayload sid sub sev fmt file line codes)"
  let ?fin = "finishDefinition ca sid sub sev fmt file line codes False"
  have n: "definitionPayloadBytes (length codes) (length fmt) (length file) = ?n"
    using definitionPayloadBytes_eq [OF small] by (simp add: length_definitionPayload struct_sizes)
  have fits': "fitsEmpty P ?n" using fits by (simp add: length_definitionPayload struct_sizes add.assoc)
  have fresh: ?thesis if f: "freshWriter ca k P cs P1" and e: "(ok, P') = ?fin (nextSlot (writer P1))
      (P1\<lparr>pr_cache := (pr_cache P1)\<lparr>wc_writer := advance (writer P1) ?n\<rparr>\<rparr>)" for P1
  proof -
    obtain cs' where cs': "prod_inv ca k P1 cs'" "length cs' \<le> Suc (length cs)" "owns ca P1"
      using f by (auto simp: freshWriter_def)
    note d = definition_stays [OF cs'(1,3) reserveIn_fresh [OF f fits'], of False, folded e]
    then show ?thesis using cs'(2) freshWriter_dropped [OF f] by simp
  qed
  obtain ok1 P1 where c: "currentWriter ca (clk 0) P = (ok1, P1)" by (metis surj_pair)
  show ?thesis
    using inv lt c
  proof (cases rule: attempts)
    case first: fresh
    have "(ok, P') = ?fin (nextSlot (writer P1)) (P1\<lparr>pr_cache := (pr_cache P1)\<lparr>wc_writer := advance (writer P1) ?n\<rparr>\<rparr>)"
      using w first(1) c reserveIn_fresh [OF first(2) fits']
      unfolding writeSiteDefinitionCore_def Let_def n c by simp
    then show ?thesis by (rule fresh [OF first(2)])
  next
    case held
    define try1 where "try1 = (if ok1 then reserveIn ?n P else (None, P))"
    obtain s1 P2 where t: "try1 = (s1, P2)" by (metis surj_pair)
    obtain P3 where c2: "refillWriter ca (clk 1) P = (True, P3)" "freshWriter ca k P cs P3" using held(3) by blast
    show ?thesis
    proof (cases s1)
      case None
      then have "P2 = P" using t by (auto simp: try1_def dest: reserveIn_refused split: if_splits)
      then have "(ok, P') = ?fin (nextSlot (writer P3)) (P3\<lparr>pr_cache := (pr_cache P3)\<lparr>wc_writer := advance (writer P3) ?n\<rparr>\<rparr>)"
        using w c held(1) t None c2(1) reserveIn_fresh [OF c2(2) fits']
        unfolding writeSiteDefinitionCore_def Let_def n c prod.case held(1) try1_def [symmetric] by simp
      then show ?thesis by (rule fresh [OF c2(2)])
    next
      case (Some s)
      then have r: "reserveIn ?n P = (Some s, P2)" "owns ca P"
        using t held(2) by (auto simp: try1_def split: if_splits)
      have "(ok, P') = ?fin s P2"
        using w c held(1) t Some unfolding writeSiteDefinitionCore_def Let_def n c prod.case held(1) try1_def [symmetric]
        by simp
      with definition_stays [OF inv r(2,1), of False] show ?thesis by (metis fst_conv le_SucI order_refl snd_conv)
    qed
  qed
qed

text \<open>
  Two chunks of headroom are enough for any emit whose definition and message, with its
  continuations, each fit an empty chunk: it is not dropped.
\<close>

definition roomFor :: "Producer \<Rightarrow> SiteDescriptor \<Rightarrow> arg list \<Rightarrow> bool" where
  "roomFor P site args \<longleftrightarrow>
     fitsEmpty P (28 + length args + length (sd_format site) + length (sd_file site)) \<and> chainRoom P args"

lemma chainRoom_same: "same_config P P' \<Longrightarrow> chainRoom P' args = chainRoom P args"
  by (auto simp: chainRoom_def chainFits_def same_config_def)

lemma emitRecord_kept:
  assumes inv: "prod_inv ca (k + 4) P cs" and head: "length cs + 2 \<le> unat (sg_chunkCount (seg P))"
    and small: "length args + length (sd_format site) + length (sd_file site) < 2 ^ 32 - 28"
    and room: "roomFor P site args" and e: "emitRecord ca clk scoped True site args P = (site', P')"
  shows "dropped P' = dropped P"
proof -
  have inv4: "prod_inv ca (Suc (Suc (Suc (Suc k)))) P cs" and inv2: "prod_inv ca (Suc (Suc k)) P cs"
    using inv prod_inv_mono [OF inv, of "Suc (Suc k)"] by (simp_all add: eval_nat_numeral)
  have body: "dropped (if hasByteArg args then emitChained ca clk scoped sid args Q else emitPlain ca clk scoped sid args Q) = dropped Q"
    if "prod_inv ca (Suc (Suc k)) Q cq" "length cq < unat (sg_chunkCount (seg Q))" "chainRoom Q args" for Q cq sid
    using emitChained_kept [OF that] emitPlain_kept [OF that(1,2) chainRoom_fits [OF that(3)]] by simp
  have cr: "chainRoom P args" using room by (simp add: roomFor_def)
  show ?thesis
  proof (cases "sd_announcedKey site = announceKey (ca_split ca) (seg P)")
    case True
    then show ?thesis using e body [OF inv2 _ cr] head by (auto simp: emitRecord_def Let_def seg_def)
  next
    case False
    obtain ok P1 where d: "writeSiteDefinition ca clk site args P = (ok, P1)" by (metis surj_pair)
    have lt: "length cs < unat (sg_chunkCount (seg P))" using head by simp
    have k: "ok \<and> dropped P1 = dropped P \<and> claimedChunks (ca_split ca) (seg P1) \<le> Suc (length cs)"
      using definition_kept [OF inv4 lt _ _ d [unfolded writeSiteDefinition_def]] small room by (simp add: roomFor_def)
    obtain cs1 rs t where o: "outcome ca (Suc (Suc k)) P cs P1 cs1 rs 0 t"
      using writeSiteDefinitionCore_outcome [OF inv4 _ d [unfolded writeSiteDefinition_def]] k small
      by (auto simp: definition_outcome_def)
    note sc = outcome_same_config [OF o]
    have i1: "prod_inv ca (Suc (Suc k)) P1 cs1" using o by (simp add: outcome_def)
    then have "length cs1 < unat (sg_chunkCount (seg P1))"
      using k head same_config_count [OF sc] by (simp add: prod_inv_def seg_inv_def)
    with body [OF i1 this] chainRoom_same [OF sc] cr k e d False show ?thesis
      by (auto simp: emitRecord_def Let_def seg_def)
  qed
qed

section \<open>What an emit does to the generation in the cache\<close>

definition gens :: "Producer \<Rightarrow> u64 \<times> u64" where
  "gens P = (sg_generation (seg P), wc_generation (pr_cache P))"

definition stays :: "Producer \<Rightarrow> Producer \<Rightarrow> bool" where
  "stays P P' \<longleftrightarrow> gens P' = gens P \<or> gens P' = (fst (gens P), fst (gens P))"

lemma gens_simps [simp]:
  "gens (storePayload s p P) = gens P" "gens (commitIn ca s h P) = gens P"
  "gens (noteTruncation ca b P) = gens P" "gens (dropRecord ca P) = gens P" "gens (snd (reserveIn n P)) = gens P"
  "gens (snd (reserveChainIn m n ovs P)) = gens P"
  by (simp_all add: storePayload_def commitIn_def updateBytes_def noteTruncation_def countTruncation_def dropRecord_def
      countDrop_def gens_def seg_def reserveIn_def reserveChainIn_def case_prod_beta)

lemma gens_conts [simp]:
  "gens (writeContinuations sid conts P) = gens P" "gens (commitContinuations ca conts P) = gens P"
proof -
  have "gens (foldl (\<lambda>P c. storePayload (ct_reservation c) (continuationBytes sid c) P) P conts) = gens P"
    by (induction conts arbitrary: P) simp_all
  then show "gens (writeContinuations sid conts P) = gens P" by (simp add: writeContinuations_def)
  have "gens (foldl (\<lambda>P i. commitIn ca (ct_reservation (conts ! i)) (continuationHead conts i) P) P is) = gens P" for "is"
    by (induction "is" arbitrary: P) simp_all
  then show "gens (commitContinuations ca conts P) = gens P" by (simp add: commitContinuations_def)
qed

lemma gens_claim: "gens (claimInto ca now P) = (fst (gens P), fst (gens P))"
proof -
  have "sg_generation (snd (claimChunk split t now s)) = sg_generation s" for split t s
    by (simp add: claimChunk_def Let_def case_prod_beta)
  then show ?thesis by (simp add: claimInto_def gens_def seg_def case_prod_beta)
qed

lemma stays_simps [simp]:
  "stays P P" "stays P (storePayload s p Q) = stays P Q" "stays P (commitIn ca s h Q) = stays P Q"
  "stays P (noteTruncation ca b Q) = stays P Q" "stays P (dropRecord ca Q) = stays P Q"
  "stays P (snd (reserveIn n Q)) = stays P Q" "stays P (snd (reserveChainIn m n ovs Q)) = stays P Q"
  "stays P (publishChain ca sid now scoped args n b r conts Q) = stays P Q"
  "stays P (snd (finishDefinition ca sid sub sev fmt file line codes b r Q)) = stays P Q"
  by (simp_all add: stays_def publishChain_def finishDefinition_def Let_def)

lemma stays_writers:
  "stays P Q \<Longrightarrow> stays P (snd (currentWriter ca now Q))" "stays P Q \<Longrightarrow> stays P (snd (refillWriter ca now Q))"
  by (auto simp: stays_def currentWriter_def refillWriter_def Let_def gens_claim)

lemma reserveRecord_stays: "stays P Q \<Longrightarrow> stays P (snd (reserveRecord ca now now' n Q))"
  by (simp add: reserveRecord_def Let_def case_prod_beta stays_writers split: option.split)

lemma emitPlain_stays: "stays P Q \<Longrightarrow> stays P (emitPlain ca clk scoped sid args Q)"
  by (simp add: emitPlain_def Let_def case_prod_beta reserveRecord_stays split: option.split)

lemma emitChained_stays: "stays P Q \<Longrightarrow> stays P (emitChained ca clk scoped sid args Q)"
  by (simp add: emitChained_def Let_def case_prod_beta stays_writers split: option.split)

lemma definition_stays_gen:
  "stays P Q \<Longrightarrow> stays P (snd (writeSiteDefinitionCore ca clk sid sub sev fmt file line codes Q))"
  by (simp add: writeSiteDefinitionCore_def Let_def case_prod_beta stays_writers split: option.split)

lemma emitRecord_stays: "stays P (snd (emitRecord ca clk scoped b site args P))"
  by (simp add: emitRecord_def Let_def case_prod_beta writeSiteDefinition_def emitPlain_stays emitChained_stays
      definition_stays_gen)

lemma emitRecord_site:
  "fst (emitRecord ca clk scoped b site args P) \<in> {site, site\<lparr>sd_announcedKey := announceKey (ca_split ca) (seg P)\<rparr>}"
  by (simp add: emitRecord_def Let_def case_prod_beta seg_def)

end
