(* ===== verification/Rotation.thy ===== *)
theory Rotation
  imports Headroom Threads
begin

text \<open>
  A long session on bounded segments (\<^verbatim>\<open>examples/13_rotation.cpp\<close>): class \<open>Rotator\<close>, which
  replaces the Logger before its segment fills, hands finished segments off to a directory
  and keeps the newest of them there, and the loop that logs through it.  Files are a map
  from paths to contents; a segment's file holds the segment's bytes once its Logger is
  destroyed.  The session's invariant carries the emit path's guarantees over any number of
  segments.
\<close>

section \<open>The rotator\<close>

text \<open>
  \<open>current_\<close> is the Logger with its address, \<open>bind_\<close> the binding it replaced.  A session is
  the rotator with what the producer thread shares with it: the process variables, the
  thread's writer cache, the call sites, the files and the announce-key counter.
\<close>

record Rotator =
  rt_live :: string
  rt_outbox :: string
  rt_keep :: nat
  rt_handedOff :: "string list"
  rt_current :: "(nat \<times> Logger) option"
  rt_bind :: "nat option"
  rt_rotations :: nat
  rt_dropped :: u64
  rt_evicted :: u64

record Session =
  ss_rotator :: Rotator
  ss_process :: Process
  ss_cache :: WriterCache
  ss_sites :: "SiteDescriptor list"
  ss_files :: "string \<rightharpoonup> bytes"
  ss_keys :: u32
  ss_opens :: nat

text \<open>
  What the environment answers around one creation: whether the hand-off before it can
  rename, the address of the new Logger, and what \<open>Logger::create\<close> asks.
\<close>

record OpenAnswers =
  oa_renames :: bool
  oa_address :: nat
  oa_env :: SegmentEnv
  oa_generation :: u64
  oa_map :: "string \<Rightarrow> u64 \<Rightarrow> PlatformError + bytes"
  oa_clock :: "nat \<Rightarrow> u64"
  oa_variable :: "string option"

definition sessionOptions :: "string \<Rightarrow> LoggerOptions" where
  "sessionOptions live =
     \<lparr>lo_directory = live, lo_stem = ''session'',
      lo_segment = \<lparr>so_segmentBytes = word_of_nat cSegmentHeaderBytes + 8 * 1024, so_chunkBytes = 1024\<rparr>,
      lo_threshold = Trace, lo_subsystemNames = []\<rparr>"

definition openRotator :: "Caller \<Rightarrow> (nat \<Rightarrow> OpenAnswers) \<Rightarrow> Session \<Rightarrow> Session" where
  "openRotator ca answers s =
     (let a = answers (ss_opens s);
          r = ss_rotator s;
          ((P, p1), keys') = createLogger (oa_map a) (ca\<lparr>ca_self := oa_address a\<rparr>) (oa_clock a) (oa_variable a) (oa_env a)
            (oa_generation a) (ss_keys s) (sessionOptions (rt_live r)) (ss_cache s) (ss_process s);
          (previous, p2) = bindLogger (oa_address a) p1
      in s\<lparr>ss_rotator := r\<lparr>rt_current := Some (oa_address a, pr_logger P), rt_bind := Some previous\<rparr>,
           ss_process := p2, ss_cache := pr_cache P, ss_keys := keys', ss_opens := ss_opens s + 1\<rparr>)"

definition fileName :: "string \<Rightarrow> string" where
  "fileName path = rev (takeWhile (\<lambda>c. c \<noteq> CHR ''/'') (rev path))"

definition joinPath :: "string \<Rightarrow> string \<Rightarrow> string" where
  "joinPath directory name =
     (if directory \<noteq> [] \<and> last directory \<noteq> CHR ''/'' then directory @ ''/'' else directory) @ name"

text \<open>The retention loop; the code ignores a removal that fails, and here removals succeed.\<close>

fun evictOldest :: "nat \<Rightarrow> string list \<Rightarrow> (string \<rightharpoonup> bytes) \<Rightarrow> u64 \<Rightarrow> string list \<times> (string \<rightharpoonup> bytes) \<times> u64" where
  "evictOldest keep [] files evicted = ([], files, evicted)"
| "evictOldest keep (p # ps) files evicted =
     (if keep < length (p # ps) then evictOldest keep ps (files(p := None)) (evicted + 1) else (p # ps, files, evicted))"

definition handOff :: "bool \<Rightarrow> string \<Rightarrow> Session \<Rightarrow> Session" where
  "handOff renames finished s =
     (let r = ss_rotator s;
          target = joinPath (rt_outbox r) (fileName finished)
      in case (if renames then ss_files s finished else None) of
           None \<Rightarrow> s
         | Some content \<Rightarrow>
             let (handedOff, files, evicted) = evictOldest (rt_keep r) (rt_handedOff r @ [target])
                   ((ss_files s)(finished := None, target \<mapsto> content)) (rt_evicted r)
             in s\<lparr>ss_rotator := r\<lparr>rt_handedOff := handedOff, rt_evicted := evicted\<rparr>, ss_files := files\<rparr>)"

text \<open>
  Unbind, destroy the Logger, which leaves its segment in the file, and hand the file off:
  the body of \<open>close\<close> and the first half of \<open>rotate\<close>.
\<close>

definition closeRotator :: "(nat \<Rightarrow> OpenAnswers) \<Rightarrow> Session \<Rightarrow> Session" where
  "closeRotator answers s =
     (case rt_current (ss_rotator s) of
        None \<Rightarrow> s
      | Some (self, lg) \<Rightarrow>
          let r = ss_rotator s;
              finished = sg_path (lg_segment lg)
          in handOff (oa_renames (answers (ss_opens s))) finished
               (s\<lparr>ss_rotator := r\<lparr>rt_dropped := rt_dropped r + st_droppedRecords (stats lg), rt_current := None, rt_bind := None\<rparr>,
                  ss_process := (case rt_bind r of None \<Rightarrow> ss_process s | Some previous \<Rightarrow> unbindLogger previous (ss_process s)),
                  ss_files := (if sg_valid (lg_segment lg) then (ss_files s)(finished \<mapsto> sg_bytes (lg_segment lg)) else ss_files s)\<rparr>))"

definition rotateSegment :: "Caller \<Rightarrow> (nat \<Rightarrow> OpenAnswers) \<Rightarrow> Session \<Rightarrow> Session" where
  "rotateSegment ca answers s =
     (let s1 = closeRotator answers s;
          r = ss_rotator s1
      in openRotator ca answers (s1\<lparr>ss_rotator := r\<lparr>rt_rotations := rt_rotations r + 1\<rparr>\<rparr>))"

definition rotateIfNearlyFull :: "Caller \<Rightarrow> (nat \<Rightarrow> OpenAnswers) \<Rightarrow> Session \<Rightarrow> Session" where
  "rotateIfNearlyFull ca answers s =
     (case rt_current (ss_rotator s) of
        None \<Rightarrow> s
      | Some (self, lg) \<Rightarrow>
          if \<not> sg_valid (lg_segment lg) then s
          else let u = usage (ca_split ca) lg
               in if us_chunkCount u \<le> us_chunksClaimed u + 1 then rotateSegment ca answers s else s)"

section \<open>The session\<close>

text \<open>One call of the macro, through the Logger that is bound.\<close>

definition logEvent :: "Caller \<Rightarrow> Emission \<Rightarrow> Session \<Rightarrow> Session" where
  "logEvent ca e s =
     (case rt_current (ss_rotator s) of
        None \<Rightarrow> s\<lparr>ss_process := snd (countUnboundEmit (ca_split ca) (ss_process s))\<rparr>
      | Some (self, lg) \<Rightarrow>
          let (p', site', P') = logCall (ca\<lparr>ca_self := self\<rparr>) (em_clock e) (em_scoped e) (ss_sites s ! em_site e) (em_args e)
                (ss_process s) \<lparr>pr_logger = lg, pr_cache = ss_cache s\<rparr>
          in s\<lparr>ss_rotator := (ss_rotator s)\<lparr>rt_current := Some (self, pr_logger P')\<rparr>, ss_process := p',
               ss_cache := pr_cache P', ss_sites := (ss_sites s)[em_site e := site']\<rparr>)"

text \<open>Each event is logged; then a pause rotates, and otherwise the watermark decides.\<close>

fun runEvents :: "Caller \<Rightarrow> (nat \<Rightarrow> OpenAnswers) \<Rightarrow> (Emission \<times> bool) list \<Rightarrow> Session \<Rightarrow> Session" where
  "runEvents ca answers [] s = s"
| "runEvents ca answers ((e, pause) # events) s =
     runEvents ca answers events
       (if pause then rotateSegment ca answers (logEvent ca e s) else rotateIfNearlyFull ca answers (logEvent ca e s))"

definition newRotator :: "string \<Rightarrow> string \<Rightarrow> nat \<Rightarrow> Rotator" where
  "newRotator live outbox keep = \<lparr>rt_live = live, rt_outbox = outbox, rt_keep = keep, rt_handedOff = [], rt_current = None,
     rt_bind = None, rt_rotations = 0, rt_dropped = 0, rt_evicted = 0\<rparr>"

definition runSession ::
  "Caller \<Rightarrow> (nat \<Rightarrow> OpenAnswers) \<Rightarrow> string \<Rightarrow> string \<Rightarrow> nat \<Rightarrow> (Emission \<times> bool) list \<Rightarrow> Process \<Rightarrow> WriterCache
    \<Rightarrow> SiteDescriptor list \<Rightarrow> (string \<rightharpoonup> bytes) \<Rightarrow> u32 \<Rightarrow> Session" where
  "runSession ca answers live outbox keep events p cache sites files keys =
     closeRotator answers (runEvents ca answers events (openRotator ca answers
       \<lparr>ss_rotator = newRotator live outbox keep, ss_process = p, ss_cache = cache, ss_sites = sites, ss_files = files,
        ss_keys = keys, ss_opens = 0\<rparr>))"

section \<open>Paths and retention\<close>

lemma fileName_join:
  assumes "CHR ''/'' \<notin> set name"
  shows "fileName (joinPath d name) = name"
proof -
  have f: "\<forall>c \<in> set (rev name). c \<noteq> CHR ''/''" using assms by auto
  then have w: "takeWhile (\<lambda>c. c \<noteq> CHR ''/'') (rev name) = rev name" by (simp add: takeWhile_eq_all_conv)
  have n: "fileName (d' @ ''/'' @ name) = name" for d'
    using takeWhile_append2 [of "rev name" "\<lambda>c. c \<noteq> CHR ''/''" "CHR ''/'' # rev d'"] f by (simp add: fileName_def)
  have e: "fileName name = name" unfolding fileName_def w by simp
  consider "d = []" | "d \<noteq> []" "last d \<noteq> CHR ''/''" | d' where "d = d' @ ''/''"
    by (metis append_butlast_last_id)
  then show ?thesis
    using n e by cases (simp_all add: joinPath_def)
qed

lemma segmentPath_join: "segmentPath d stem pid gen = joinPath d (segmentPath [] stem pid gen)"
  by (simp add: segmentPath_def joinPath_def)

lemma natToChars_flat: "2 \<le> b \<Longrightarrow> b \<le> 16 \<Longrightarrow> CHR ''/'' \<notin> set (natToChars b n)"
proof (induction b n rule: natToChars.induct)
  case (1 b n)
  have "n mod b < 16" using 1(2,3) mod_less_divisor [of b n] by linarith
  then have "CHR ''/'' \<noteq> digitChar (n mod b)"
    by (auto simp: digitChar_def dest!: arg_cong [where f = "of_char :: char \<Rightarrow> nat"])
  then show ?case using 1 by (subst natToChars.simps) auto
qed

lemma segmentName_flat: "CHR ''/'' \<notin> set stem \<Longrightarrow> CHR ''/'' \<notin> set (segmentPath [] stem pid gen)"
  using natToChars_flat by (auto simp: segmentPath_def)

lemma evictOldest_eq:
  "evictOldest keep ps files n = (drop (length ps - keep) ps,
     (\<lambda>p. if p \<in> set (take (length ps - keep) ps) then None else files p), n + word_of_nat (length ps - keep))"
proof (induction keep ps files n rule: evictOldest.induct)
  case (2 keep p ps files n)
  show ?case
  proof (cases "keep < length (p # ps)")
    case True
    then have k: "length (p # ps) - keep = Suc (length ps - keep)" by (simp add: Suc_diff_le)
    show ?thesis unfolding evictOldest.simps if_P [OF True] 2 [OF True] k by (auto simp: fun_eq_iff)
  next
    case False
    then have k: "length (p # ps) - keep = 0" by simp
    then show ?thesis using False unfolding k by simp
  qed
qed simp

section \<open>Opening\<close>

text \<open>The announce-key counter before the \<open>i\<close>-th creation, and the key of the segment created there.\<close>

primrec keysBefore :: "bool \<Rightarrow> (nat \<Rightarrow> OpenAnswers) \<Rightarrow> u32 \<Rightarrow> nat \<Rightarrow> u32" where
  "keysBefore split answers keys 0 = keys"
| "keysBefore split answers keys (Suc i) =
     (if split then snd (drawAnnounceKey (keysBefore split answers keys i) (oa_generation (answers i)))
      else keysBefore split answers keys i)"

definition keyOf :: "bool \<Rightarrow> (nat \<Rightarrow> OpenAnswers) \<Rightarrow> u32 \<Rightarrow> nat \<Rightarrow> u64" where
  "keyOf split answers keys i =
     (if split then ucast (fst (drawAnnounceKey (keysBefore split answers keys i) (oa_generation (answers i))))
      else oa_generation (answers i))"

definition opened :: "Caller \<Rightarrow> OpenAnswers \<Rightarrow> u64 \<Rightarrow> string \<Rightarrow> Producer \<Rightarrow> bool" where
  "opened ca a key live P \<longleftrightarrow>
     prod_inv ca (2 ^ 64 - 1) P [] \<and> dropped P = 0 \<and> sg_generation (seg P) = oa_generation a
     \<and> announceKey (ca_split ca) (seg P) = key \<and> sg_chunkBytes (seg P) = 1024 \<and> sg_chunkCount (seg P) = 8
     \<and> sg_path (seg P) = segmentPath live ''session'' (se_processId (oa_env a)) (oa_generation a)
     \<and> lg_rootCorrelation (pr_logger P) = correlationFromEnvironment (oa_variable a)
     \<and> (\<forall>x. subsystemThreshold (pr_logger P) x = Trace)"

definition answered :: "OpenAnswers \<Rightarrow> bool" where
  "answered a \<longleftrightarrow> oa_renames a \<and> oa_address a \<noteq> 0 \<and> oa_generation a \<noteq> 0
     \<and> (\<forall>path n. oa_map a path n = Inr (replicate (unat n) 0))"

definition selfAt :: "Caller \<Rightarrow> OpenAnswers \<Rightarrow> Caller" where
  "selfAt ca a = ca\<lparr>ca_self := oa_address a\<rparr>"

lemma selfAt_simps [simp]:
  "ca_split (selfAt ca a) = ca_split ca" "ca_self (selfAt ca a) = oa_address a" "ca_thread (selfAt ca a) = ca_thread ca"
  by (simp_all add: selfAt_def)

lemma createSegment_session:
  assumes a: "answered a" and c: "createSegment (oa_map a) split (oa_env a) (oa_generation a) keys live ''session''
      (lo_segment (sessionOptions live)) = (s, keys')"
  shows "seg_inv split (2 ^ 64 - 1) s []" "sg_generation s = oa_generation a" "sg_chunkBytes s = 1024" "sg_chunkCount s = 8"
    "sg_path s = segmentPath live ''session'' (se_processId (oa_env a)) (oa_generation a)"
    "announceKey split s = (if split then ucast (fst (drawAnnounceKey keys (oa_generation a))) else oa_generation a)"
    "keys' = (if split then snd (drawAnnounceKey keys (oa_generation a)) else keys)"
proof -
  have n: "unat (word_of_nat cSegmentHeaderBytes + 8 * 1024 :: u64) = 12288" by (simp add: cSegmentHeaderBytes_def)
  have v: "\<not> hasError (validateChunkBytes 1024)" by (simp add: validateChunkBytes_ok)
  have e: "(s, keys') = initialise split (oa_env a) keys
      (emptySegment\<lparr>sg_path := segmentPath live ''session'' (se_processId (oa_env a)) (oa_generation a)\<rparr>)
      (replicate 12288 0) (word_of_nat cSegmentHeaderBytes) 1024 (oa_generation a)"
    using a c v n by (simp add: createSegment_def sessionOptions_def answered_def)
  then show "sg_generation s = oa_generation a" "sg_chunkBytes s = 1024" "sg_chunkCount s = 8"
    "sg_path s = segmentPath live ''session'' (se_processId (oa_env a)) (oa_generation a)"
    "announceKey split s = (if split then ucast (fst (drawAnnounceKey keys (oa_generation a))) else oa_generation a)"
    "keys' = (if split then snd (drawAnnounceKey keys (oa_generation a)) else keys)"
    by (simp_all add: initialise_def Let_def case_prod_beta announceKey_def cSegmentHeaderBytes_def split: if_splits)
  have valid: "sg_valid s" using e by (simp add: initialise_def Let_def case_prod_beta)
  show "seg_inv split (2 ^ 64 - 1) s []"
    using createSegment_inv [OF c valid] a n by (simp add: sessionOptions_def answered_def)
qed

lemma openRotator_opened:
  assumes a: "answered (answers (ss_opens s))" and cache: "wc_generation (ss_cache s) \<noteq> oa_generation (answers (ss_opens s))"
    and keys: "ss_keys s = keysBefore (ca_split ca) answers k0 (ss_opens s)"
  shows "\<exists>lg previous. openRotator ca answers s = s\<lparr>ss_rotator := (ss_rotator s)\<lparr>rt_current := Some (oa_address (answers (ss_opens s)), lg),
          rt_bind := Some previous\<rparr>,
        ss_process := (ss_process s)\<lparr>pc_detachedByFork := False, pc_active := oa_address (answers (ss_opens s))\<rparr>,
        ss_keys := keysBefore (ca_split ca) answers k0 (Suc (ss_opens s)), ss_opens := Suc (ss_opens s)\<rparr>
    \<and> opened (selfAt ca (answers (ss_opens s))) (answers (ss_opens s)) (keyOf (ca_split ca) answers k0 (ss_opens s))
        (rt_live (ss_rotator s)) \<lparr>pr_logger = lg, pr_cache = ss_cache s\<rparr>"
proof -
  let ?a = "answers (ss_opens s)"
  obtain sg keys' where c: "createSegment (oa_map ?a) (ca_split ca) (oa_env ?a) (oa_generation ?a) (ss_keys s)
      (rt_live (ss_rotator s)) ''session'' (lo_segment (sessionOptions (rt_live (ss_rotator s)))) = (sg, keys')" by fastforce
  note cs = createSegment_session [OF a c]
  have kn: "keys' = keysBefore (ca_split ca) answers k0 (Suc (ss_opens s))" using cs(7) keys by simp
  have options: "lo_directory (sessionOptions d) = d" "lo_stem (sessionOptions d) = ''session''"
    "lo_threshold (sessionOptions d) = Trace" "lo_subsystemNames (sessionOptions d) = []" for d
    by (simp_all add: sessionOptions_def)
  define lg where "lg = setThreshold Trace (emptyLogger\<lparr>lg_segment := sg, lg_rootCorrelation := correlationFromEnvironment (oa_variable ?a)\<rparr>)"
  have l: "lg_segment lg = sg" "lg_rootCorrelation lg = correlationFromEnvironment (oa_variable ?a)" "lg_dropped lg = 0"
    by (simp_all add: lg_def setThreshold_def emptyLogger_def)
  have t: "subsystemThreshold lg x = Trace" for x
    by (simp add: lg_def setThreshold_def emptyLogger_def subsystemThreshold_def cSubsystemLevels_def map_replicate_const)
  have "opened (selfAt ca ?a) ?a (keyOf (ca_split ca) answers k0 (ss_opens s)) (rt_live (ss_rotator s))
      \<lparr>pr_logger = lg, pr_cache = ss_cache s\<rparr>"
    using cs cache keys by (simp add: opened_def prod_inv_def owns_def seg_def l t dropped_def keyOf_def)
  moreover have "openRotator ca answers s = s\<lparr>ss_rotator := (ss_rotator s)\<lparr>rt_current := Some (oa_address ?a, lg),
          rt_bind := Some (pc_active (ss_process s))\<rparr>,
        ss_process := (ss_process s)\<lparr>pc_detachedByFork := False, pc_active := oa_address ?a\<rparr>,
        ss_keys := keysBefore (ca_split ca) answers k0 (Suc (ss_opens s)), ss_opens := Suc (ss_opens s)\<rparr>"
    using c unfolding kn by (simp add: openRotator_def Let_def createLogger_def finishCreate_def bindLogger_def lg_def options del: keysBefore.simps)
  ultimately show ?thesis by blast
qed

section \<open>Between two rotations\<close>

text \<open>
  An event fits when its definition and its message with all continuations each fit the
  992 bytes behind a chunk's header.
\<close>

definition eventFits :: "SiteDescriptor list \<Rightarrow> Emission \<Rightarrow> bool" where
  "eventFits sites e \<longleftrightarrow>
     (let site = sites ! em_site e; args = em_args e
      in footprint (28 + length args + length (sd_format site) + length (sd_file site)) \<le> 992
         \<and> groupSize (messageSize args # contSizes (slicesOf args)) \<le> 992)"

text \<open>What a decoded record of the session's file says of its event, and a file of its events.\<close>

definition eventRecorded ::
  "SiteDescriptor list \<Rightarrow> TypeCode list list \<Rightarrow> u64 \<Rightarrow> OpenAnswers \<Rightarrow> Emission \<Rightarrow> DecodedRecord \<Rightarrow> bool" where
  "eventRecorded sites types owner a e rec \<longleftrightarrow>
     (\<exists>site. dr_site rec = Some site \<and> siteMatches (sites ! em_site e) (types ! em_site e) site)
     \<and> dr_monoNs rec = em_clock e 4
     \<and> dr_correlationId rec = (if em_scoped e \<noteq> 0 then em_scoped e else correlationFromEnvironment (oa_variable a))
     \<and> dr_ownerThread rec = owner \<and> dr_segmentGeneration rec = oa_generation a
     \<and> dr_args rec = map loggedArg (em_args e) \<and> dr_truncated rec = list_ex pastCeiling (em_args e)"

definition holdsEvents ::
  "SiteDescriptor list \<Rightarrow> TypeCode list list \<Rightarrow> u64 \<Rightarrow> OpenAnswers \<Rightarrow> Emission list \<Rightarrow> bytes \<Rightarrow> bool" where
  "holdsEvents sites types owner a es bs \<longleftrightarrow>
     (\<exists>recs dec. decodeAll newDecoder (openSegment bs) = (recs, dec)
        \<and> list_all2 (eventRecorded sites types owner a) es recs \<and> dc_undecodable dec = 0 \<and> dc_skipped dec = 0)"

lemma sites_ok_anonymous:
  assumes "map anonymous sites' = map anonymous sites" and "sites_ok sites types"
  shows "sites_ok sites' types"
proof -
  have len: "length sites' = length sites" using assms(1) by (rule map_eq_imp_length_eq)
  have an: "anonymous (sites' ! i) = anonymous (sites ! i)" if "i < length sites" for i
    using assms(1) that len by (metis nth_map)
  note f = anonymous_fields [OF an]
  have "map siteId sites' = map siteId sites" using len f(1) by (auto intro: nth_equalityI)
  then show ?thesis using assms(2) len f by (simp add: sites_ok_def)
qed

lemma siteMatches_anonymous:
  "anonymous s' = anonymous s \<Longrightarrow> siteMatches s' codes ds = siteMatches s codes ds"
  using anonymous_fields [of s' s] by (simp add: siteMatches_def)

lemma counter_powers: "d < 2 ^ 32 \<Longrightarrow> (counterIncrement split ^^ d) 0 = word_of_nat d"
proof (induction d)
  case (Suc d)
  have "(ucast (word_of_nat d :: u64) :: u32) = word_of_nat d"
    using Suc.prems by (simp add: word_unat_eq_iff unat_of_nat unsigned_ucast_eq take_bit_eq_mod)
  moreover have "(ucast (word_of_nat (Suc d) :: u32) :: u64) = word_of_nat (Suc d)"
    using Suc.prems by (simp add: word_unat_eq_iff unsigned_ucast_eq take_bit_eq_mod unat_of_nat del: of_nat_Suc)
  ultimately have "counterIncrement split (word_of_nat d) = word_of_nat (Suc d)"
    by (simp add: counterIncrement_def add.commute)
  moreover have "(counterIncrement split ^^ d) 0 = word_of_nat d" using Suc by simp
  ultimately show ?case by (simp del: of_nat_Suc)
qed simp

lemma eventFits_room:
  assumes "eventFits sites e" and "sg_chunkBytes (seg P) = 1024" and "anonymous site = anonymous (sites ! em_site e)"
  shows "roomFor P site (em_args e)"
    "length (em_args e) + length (sd_format site) + length (sd_file site) < 2 ^ 32 - 28" "chainFits P (em_args e)"
proof -
  have ge: "n \<le> footprint n" for n using align8_ge [of n] by (simp add: footprint_def)
  note f = anonymous_fields [OF assms(3)] and e = assms(1) [unfolded eventFits_def Let_def]
  have d: "28 + length (em_args e) + length (sd_format site) + length (sd_file site) \<le> 992"
    using e ge [of "28 + length (em_args e) + length (sd_format site) + length (sd_file site)"] f by simp
  moreover have "messageSize (em_args e) \<le> 992" using e ge [of "messageSize (em_args e)"] by simp
  ultimately show "roomFor P site (em_args e)" "chainFits P (em_args e)"
    "length (em_args e) + length (sd_format site) + length (sd_file site) < 2 ^ 32 - 28"
    using e assms(2) f by (simp_all add: roomFor_def chainRoom_def chainFits_def fitsEmpty_def)
qed

lemma part_decodes:
  assumes ok: "sites_ok sites types" "\<forall>e \<in> set es. em_ok types e \<and> eventFits sites e" and n: "length es < 2 ^ 32"
    and op: "opened ca a key live P0" and sites0: "map anonymous sites0 = map anonymous sites"
    and fresh: "\<forall>site \<in> set sites0. sd_announcedKey site \<noteq> key"
    and em: "emitAll ca es sites0 P0 = (sites', P')" and d: "dropped P' = 0"
  shows "holdsEvents sites types (ca_thread ca) a es (sg_bytes (seg P'))"
proof -
  note o = op [unfolded opened_def]
  obtain recs dec where dec: "decodeAll newDecoder (openSegment (sg_bytes (seg P'))) = (recs, dec)" by (metis surj_pair)
  have inv: "prod_inv ca (4 * length es) P0 []" using o n by (auto intro: prod_inv_mono)
  obtain kept where k: "subseq kept es" "list_all2 (logged sites0 types ca P0) kept recs"
    "dropped P' = (counterIncrement (ca_split ca) ^^ (length es - length kept)) (dropped P0)"
    "dc_undecodable dec = 0" "dc_skipped dec = 0"
    using run_decodes [OF sites_ok_anonymous [OF sites0 ok(1)] _ inv _ em dec] ok(2) fresh o by auto
  have "length es - length kept = 0"
  proof -
    have "word_of_nat (length es - length kept) = (0 :: u64)"
      using k(3) d o counter_powers [of "length es - length kept" "ca_split ca"] n by simp
    then show ?thesis using n by (simp add: word_unat_eq_iff unat_of_nat)
  qed
  then have e: "kept = es" using k(1) by (metis diff_is_0_eq le_antisym list_emb_length subseq_same_length)
  have len: "length sites0 = length sites" using sites0 by (rule map_eq_imp_length_eq)
  have "eventRecorded sites types (ca_thread ca) a e rec" if "e \<in> set es" "logged sites0 types ca P0 e rec" for e rec
  proof -
    have i: "em_site e < length sites" using ok that(1) by (auto simp: em_ok_def sites_ok_def)
    then have an: "anonymous (sites0 ! em_site e) = anonymous (sites ! em_site e)" using sites0 len by (metis nth_map)
    have "chainFits P0 (em_args e)" using eventFits_room(3) [of sites e P0] ok(2) that(1) o by blast
    then show ?thesis
      using that(2) o siteMatches_anonymous [OF an] by (simp add: logged_def eventRecorded_def stampCorrelation_def)
  qed
  then have "list_all2 (eventRecorded sites types (ca_thread ca) a) es recs"
    using k(2) unfolding e by (auto intro: list.rel_mono_strong)
  then show ?thesis using dec k(4,5) by (auto simp: holdsEvents_def)
qed

lemma emitAll_append:
  "emitAll ca (xs @ ys) sites P = (case emitAll ca xs sites P of (sites', P') \<Rightarrow> emitAll ca ys sites' P')"
  by (induction ca xs sites P rule: emitAll.induct) (simp_all add: case_prod_beta Let_def)

text \<open>
  The session since its last creation: the events logged into the current segment, none of
  which was dropped, and the segment's chunk logs.
\<close>

definition current :: "OpenAnswers \<Rightarrow> Session \<Rightarrow> Producer" where
  "current a s = \<lparr>pr_logger = snd (the (rt_current (ss_rotator s))), pr_cache = ss_cache s\<rparr>"

definition running ::
  "Caller \<Rightarrow> SiteDescriptor list \<Rightarrow> TypeCode list list \<Rightarrow> OpenAnswers \<Rightarrow> u64 \<Rightarrow> string \<Rightarrow> nat \<Rightarrow> Emission list
    \<Rightarrow> chunklog list \<Rightarrow> Session \<Rightarrow> bool" where
  "running ca sites types a key live k es cs s \<longleftrightarrow>
     (\<exists>P0 sites0. opened (selfAt ca a) a key live P0 \<and> same_config P0 (current a s)
        \<and> map anonymous sites0 = map anonymous sites \<and> (\<forall>site \<in> set sites0. sd_announcedKey site \<noteq> key)
        \<and> emitAll (selfAt ca a) es sites0 P0 = (ss_sites s, current a s))
     \<and> (\<exists>lg. rt_current (ss_rotator s) = Some (oa_address a, lg))
     \<and> map anonymous (ss_sites s) = map anonymous sites
     \<and> prod_inv (selfAt ca a) k (current a s) cs \<and> dropped (current a s) = 0 \<and> pc_active (ss_process s) \<noteq> 0"

lemma running_config:
  assumes "running ca sites types a key live k es cs s"
  shows "sg_chunkBytes (seg (current a s)) = 1024" "sg_chunkCount (seg (current a s)) = 8"
    "announceKey (ca_split ca) (seg (current a s)) = key" "sg_generation (seg (current a s)) = oa_generation a"
    "sg_path (seg (current a s)) = segmentPath live ''session'' (se_processId (oa_env a)) (oa_generation a)"
    "sg_valid (seg (current a s))" "subsystemThreshold (pr_logger (current a s)) x = Trace"
proof -
  obtain P0 where p: "opened (selfAt ca a) a key live P0" "same_config P0 (current a s)" "prod_inv (selfAt ca a) k (current a s) cs"
    using assms unfolding running_def by blast
  note o = p(1) [unfolded opened_def]
  obtain bs where s: "seg (current a s) = (seg P0)\<lparr>sg_bytes := bs\<rparr>" using p(2) unfolding same_config_def by blast
  show "sg_chunkBytes (seg (current a s)) = 1024" "sg_chunkCount (seg (current a s)) = 8"
    "sg_generation (seg (current a s)) = oa_generation a"
    "sg_path (seg (current a s)) = segmentPath live ''session'' (se_processId (oa_env a)) (oa_generation a)"
    using o by (simp_all add: s)
  have "announceKey (ca_split ca) (seg (current a s)) = announceKey (ca_split ca) (seg P0)" by (simp add: s announceKey_def)
  then show "announceKey (ca_split ca) (seg (current a s)) = key" using o by simp
  show "sg_valid (seg (current a s))" using p(3) by (simp add: prod_inv_def seg_inv_def seg_geometry_def)
  have "subsystemThreshold (pr_logger (current a s)) x = subsystemThreshold (pr_logger P0) x"
    using p(2) by (simp add: same_config_def subsystemThreshold_def)
  then show "subsystemThreshold (pr_logger (current a s)) x = Trace" using o by simp
qed

text \<open>Logging an event while two chunks are unclaimed.\<close>

lemma running_log:
  assumes ok: "sites_ok sites types" "em_ok types e" "eventFits sites e"
    and run: "running ca sites types a key live (k + 4) es cs s" and head: "length cs + 2 \<le> 8"
  shows "\<exists>cs' lg' cache' sites'. running ca sites types a key live k (es @ [e]) cs' (logEvent ca e s)
    \<and> logEvent ca e s = s\<lparr>ss_rotator := (ss_rotator s)\<lparr>rt_current := Some (oa_address a, lg')\<rparr>, ss_cache := cache', ss_sites := sites'\<rparr>
    \<and> wc_generation cache' \<in> {wc_generation (ss_cache s), oa_generation a}
    \<and> (\<forall>site \<in> set sites'. sd_announcedKey site = key \<or> (\<exists>site' \<in> set (ss_sites s). sd_announcedKey site = sd_announcedKey site'))"
proof -
  let ?ca = "selfAt ca a" and ?P = "current a s" and ?i = "em_site e"
  note r = run [unfolded running_def] and cfg = running_config [OF run]
  obtain lg where lg: "rt_current (ss_rotator s) = Some (oa_address a, lg)" using r by blast
  then have P: "?P = \<lparr>pr_logger = lg, pr_cache = ss_cache s\<rparr>" by (simp add: current_def)
  obtain site' P' where em: "emitRecord ?ca (em_clock e) (em_scoped e) True (ss_sites s ! ?i) (em_args e) ?P = (site', P')"
    by (metis surj_pair)
  have len: "length (ss_sites s) = length sites" using r by (metis map_eq_imp_length_eq)
  have i: "?i < length (ss_sites s)" using ok(1,2) len by (simp add: em_ok_def sites_ok_def)
  have an: "anonymous (ss_sites s ! ?i) = anonymous (sites ! ?i)" using r i len by (metis nth_map)
  have inv: "prod_inv ?ca (k + 4) ?P cs" using r by blast
  have "atLeast x Trace" for x by (cases x) (simp add: atLeast_def Trace_def)
  then have on: "logCall (ca\<lparr>ca_self := oa_address a\<rparr>) (em_clock e) (em_scoped e) (ss_sites s ! ?i) (em_args e) (ss_process s) ?P
      = (ss_process s, site', P')"
    using em cfg(7) r by (simp add: logCall_def enabled_def selfAt_def)
  let ?s = "logEvent ca e s"
  have s': "?s = s\<lparr>ss_rotator := (ss_rotator s)\<lparr>rt_current := Some (oa_address a, pr_logger P')\<rparr>, ss_cache := pr_cache P',
      ss_sites := (ss_sites s)[?i := site']\<rparr>"
    using on lg by (simp add: logEvent_def P)
  then have P': "current a ?s = P'" by (simp add: current_def)
  note room = eventFits_room [OF ok(3) cfg(1) an]
  have d: "dropped P' = 0"
    using emitRecord_kept [OF inv _ room(2,1) em] head cfg(2) r by simp
  obtain cs' items groups d' t where o: "outcome ?ca k ?P cs P' cs' (concat groups) d' t" "anonymous site' = anonymous (ss_sites s ! ?i)"
    by (rule emit_items [OF inv ok(1,2) an em])
  have mapan: "map anonymous ((ss_sites s)[?i := site']) = map anonymous sites"
    using r o(2) i by (simp add: map_update) (metis list_update_id nth_map)
  obtain P0 sites0 where p0: "opened ?ca a key live P0" "same_config P0 ?P" "map anonymous sites0 = map anonymous sites"
    "\<forall>site \<in> set sites0. sd_announcedKey site \<noteq> key" "emitAll ?ca es sites0 P0 = (ss_sites s, ?P)"
    using r by blast
  have "same_config P0 P'" using p0(2) outcome_same_config [OF o(1)] by (auto simp: same_config_def)
  moreover have "emitAll ?ca (es @ [e]) sites0 P0 = ((ss_sites s)[?i := site'], P')"
    using p0(5) em by (simp add: emitAll_append)
  moreover have "prod_inv ?ca k P' cs'" using o(1) by (simp add: outcome_def)
  ultimately have "running ca sites types a key live k (es @ [e]) cs' ?s"
    using p0(1,3,4) mapan d r unfolding running_def P' by (simp add: s') blast
  moreover have "wc_generation (pr_cache P') \<in> {wc_generation (ss_cache s), oa_generation a}"
    using emitRecord_stays [of ?P ?ca "em_clock e" "em_scoped e" True "ss_sites s ! ?i" "em_args e"] em cfg(4)
    by (auto simp: stays_def gens_def P)
  moreover have "sd_announcedKey site = key \<or> (\<exists>site' \<in> set (ss_sites s). sd_announcedKey site = sd_announcedKey site')"
    if "site \<in> set ((ss_sites s)[?i := site'])" for site
  proof -
    have "site' = ss_sites s ! ?i \<or> sd_announcedKey site' = key"
      using emitRecord_site [of ?ca "em_clock e" "em_scoped e" True "ss_sites s ! ?i" "em_args e" ?P] em cfg(3) by auto
    moreover have "site = site' \<or> site \<in> set (ss_sites s)" using that set_update_subset_insert by fastforce
    ultimately show ?thesis using i nth_mem by blast
  qed
  ultimately show ?thesis using s' by blast
qed

section \<open>The outbox\<close>

definition outboxPath :: "string \<Rightarrow> OpenAnswers \<Rightarrow> string" where
  "outboxPath outbox a = joinPath outbox (segmentPath [] ''session'' (se_processId (oa_env a)) (oa_generation a))"

definition livePath :: "string \<Rightarrow> OpenAnswers \<Rightarrow> string" where
  "livePath live a = segmentPath live ''session'' (se_processId (oa_env a)) (oa_generation a)"

lemma fileName_paths:
  "fileName (outboxPath outbox a) = segmentPath [] ''session'' (se_processId (oa_env a)) (oa_generation a)"
  "fileName (livePath live a) = segmentPath [] ''session'' (se_processId (oa_env a)) (oa_generation a)"
  by (simp_all add: outboxPath_def livePath_def segmentPath_join [of live] fileName_join segmentName_flat)

lemma paths_differ:
  assumes "oa_generation a \<noteq> oa_generation b"
  shows "outboxPath outbox a \<noteq> outboxPath outbox b" "outboxPath outbox a \<noteq> livePath live b"
  using assms by (metis fileName_paths segmentPath_inj)+

text \<open>The newest \<open>keep\<close> of the finished parts are in the outbox, in order, and hold their events.\<close>

definition outboxHolds ::
  "SiteDescriptor list \<Rightarrow> TypeCode list list \<Rightarrow> u64 \<Rightarrow> (nat \<Rightarrow> OpenAnswers) \<Rightarrow> string \<Rightarrow> nat \<Rightarrow> Emission list list
    \<Rightarrow> string list \<Rightarrow> u64 \<Rightarrow> (string \<rightharpoonup> bytes) \<Rightarrow> bool" where
  "outboxHolds sites types owner answers outbox keep parts handedOff evicted files \<longleftrightarrow>
     handedOff = map (\<lambda>i. outboxPath outbox (answers i)) [length parts - keep ..< length parts]
     \<and> evicted = word_of_nat (length parts - keep)
     \<and> (\<forall>i \<in> {length parts - keep ..< length parts}. \<exists>content. files (outboxPath outbox (answers i)) = Some content
          \<and> holdsEvents sites types owner (answers i) (parts ! i) content)"

lemma outbox_step:
  assumes h: "outboxHolds sites types owner answers outbox keep parts handed evicted files"
    and inj: "inj_on (\<lambda>i. oa_generation (answers i)) {..length parts}"
    and new: "holdsEvents sites types owner (answers (length parts)) es content"
    and path_def: "path = livePath live (answers (length parts))" and target_def: "target = outboxPath outbox (answers (length parts))"
    and e: "evictOldest keep (handed @ [target]) ((files(path \<mapsto> content))(path := None, target \<mapsto> content)) evicted
      = (handed', files', evicted')"
  shows "outboxHolds sites types owner answers outbox keep (parts @ [es]) handed' evicted' files'"
proof -
  let ?n = "length parts" and ?t = "\<lambda>i. outboxPath outbox (answers i)"
  let ?lo = "?n - keep" and ?c = "Suc ?n - keep - (?n - keep)"
  have all: "handed @ [target] = map ?t [?lo ..< Suc ?n]" using h by (simp add: outboxHolds_def target_def)
  have c: "length (handed @ [target]) - keep = ?c" using h by (simp add: outboxHolds_def)
  have hi: "?lo + ?c = Suc ?n - keep" and le: "?lo + ?c \<le> Suc ?n" by simp_all
  have gen: "oa_generation (answers i) \<noteq> oa_generation (answers j)" if "i \<le> ?n" "j \<le> ?n" "i \<noteq> j" for i j
    using inj that by (auto dest: inj_onD)
  have take: "set (take ?c (handed @ [target])) = ?t ` {?lo ..< Suc ?n - keep}"
    unfolding all take_map take_upt [OF le] hi by (simp only: set_map set_upt)
  have "handed' = drop ?c (handed @ [target])" "evicted' = evicted + word_of_nat ?c"
    and files': "files' = (\<lambda>p. if p \<in> ?t ` {?lo ..< Suc ?n - keep} then None
      else ((files(path \<mapsto> content))(path := None, target \<mapsto> content)) p)"
    using e unfolding evictOldest_eq c take by simp_all
  then have "handed' = map ?t [Suc ?n - keep ..< Suc ?n]" "evicted' = word_of_nat (Suc ?n - keep)"
    using h unfolding all drop_map drop_upt hi outboxHolds_def by (simp_all only: hi flip: of_nat_add)
  moreover have "\<exists>content. files' (?t i) = Some content \<and> holdsEvents sites types owner (answers i) ((parts @ [es]) ! i) content"
    if i: "i \<in> {Suc ?n - keep ..< Suc ?n}" for i
  proof -
    have out: "?t i \<notin> ?t ` {?lo ..< Suc ?n - keep}"
    proof
      assume "?t i \<in> ?t ` {?lo ..< Suc ?n - keep}"
      then obtain j where "j < Suc ?n - keep" "?t i = ?t j" by auto
      then show False using paths_differ(1) [OF gen] i by (metis atLeastLessThan_iff diff_le_self less_Suc_eq_le less_le_trans not_le)
    qed
    show ?thesis
    proof (cases "i = ?n")
      case True
      then show ?thesis using new out by (simp add: files' target_def)
    next
      case False
      then have l: "i < ?n" "?lo \<le> i" using i by auto
      then have "?t i \<noteq> target" "?t i \<noteq> path" using paths_differ [OF gen [of i ?n]] by (simp_all add: target_def path_def)
      then have "files' (?t i) = files (?t i)" using out by (simp add: files')
      then show ?thesis using h l by (simp add: outboxHolds_def nth_append)
    qed
  qed
  ultimately show ?thesis by (simp add: outboxHolds_def)
qed

section \<open>The invariant of a session\<close>

definition sessionAnswers :: "bool \<Rightarrow> (nat \<Rightarrow> OpenAnswers) \<Rightarrow> u32 \<Rightarrow> nat \<Rightarrow> bool" where
  "sessionAnswers split answers k0 n \<longleftrightarrow>
     (\<forall>i \<le> n. answered (answers i)) \<and> inj_on (\<lambda>i. oa_generation (answers i)) {..n} \<and> inj_on (keyOf split answers k0) {..n}"

lemma keyOf_nonzero: "oa_generation (answers i) \<noteq> 0 \<Longrightarrow> keyOf split answers k0 i \<noteq> 0"
  using ucast_inj_iff [of "fst (drawAnnounceKey (keysBefore split answers k0 i) (oa_generation (answers i)))" 0]
  by (cases split) (simp_all add: keyOf_def)

text \<open>What does not change while a segment is current, and the bounds on what threads and sites remember.\<close>

definition sessionHolds ::
  "Caller \<Rightarrow> SiteDescriptor list \<Rightarrow> TypeCode list list \<Rightarrow> (nat \<Rightarrow> OpenAnswers) \<Rightarrow> u32 \<Rightarrow> Rotator \<Rightarrow> Emission list list
    \<Rightarrow> Session \<Rightarrow> bool" where
  "sessionHolds ca sites types answers k0 r0 parts s \<longleftrightarrow>
     ss_opens s = Suc (length parts) \<and> ss_keys s = keysBefore (ca_split ca) answers k0 (Suc (length parts))
     \<and> outboxHolds sites types (ca_thread ca) answers (rt_outbox r0) (rt_keep r0) parts (rt_handedOff (ss_rotator s))
         (rt_evicted (ss_rotator s)) (ss_files s)
     \<and> rt_live (ss_rotator s) = rt_live r0 \<and> rt_outbox (ss_rotator s) = rt_outbox r0 \<and> rt_keep (ss_rotator s) = rt_keep r0
     \<and> rt_rotations (ss_rotator s) = length parts \<and> rt_dropped (ss_rotator s) = 0
     \<and> wc_generation (ss_cache s) \<in> insert 0 ((\<lambda>i. oa_generation (answers i)) ` {..length parts})
     \<and> (\<forall>site \<in> set (ss_sites s). sd_announcedKey site \<in> insert 0 (keyOf (ca_split ca) answers k0 ` {..length parts}))"

abbreviation runningAt ::
  "Caller \<Rightarrow> SiteDescriptor list \<Rightarrow> TypeCode list list \<Rightarrow> (nat \<Rightarrow> OpenAnswers) \<Rightarrow> u32 \<Rightarrow> Rotator \<Rightarrow> Emission list list
    \<Rightarrow> nat \<Rightarrow> Emission list \<Rightarrow> chunklog list \<Rightarrow> Session \<Rightarrow> bool" where
  "runningAt ca sites types answers k0 r0 parts \<equiv>
     running ca sites types (answers (length parts)) (keyOf (ca_split ca) answers k0 (length parts)) (rt_live r0)"

definition eventsOk :: "SiteDescriptor list \<Rightarrow> TypeCode list list \<Rightarrow> Emission list \<Rightarrow> bool" where
  "eventsOk sites types es \<longleftrightarrow> length es < 2 ^ 32 \<and> (\<forall>e \<in> set es. em_ok types e \<and> eventFits sites e)"

lemma session_log:
  assumes ok: "sites_ok sites types" "em_ok types e" "eventFits sites e"
    and run: "runningAt ca sites types answers k0 r0 parts (k + 4) es cs s" and head: "length cs + 2 \<le> 8"
    and holds: "sessionHolds ca sites types answers k0 r0 parts s"
  shows "\<exists>cs'. runningAt ca sites types answers k0 r0 parts k (es @ [e]) cs' (logEvent ca e s)
    \<and> sessionHolds ca sites types answers k0 r0 parts (logEvent ca e s)"
proof -
  obtain cs' lg' cache' sites' where l: "runningAt ca sites types answers k0 r0 parts k (es @ [e]) cs' (logEvent ca e s)"
    "logEvent ca e s = s\<lparr>ss_rotator := (ss_rotator s)\<lparr>rt_current := Some (oa_address (answers (length parts)), lg')\<rparr>,
       ss_cache := cache', ss_sites := sites'\<rparr>"
    "wc_generation cache' \<in> {wc_generation (ss_cache s), oa_generation (answers (length parts))}"
    "\<forall>site \<in> set sites'. sd_announcedKey site = keyOf (ca_split ca) answers k0 (length parts)
       \<or> (\<exists>site' \<in> set (ss_sites s). sd_announcedKey site = sd_announcedKey site')"
    using running_log [OF ok run head] by blast
  have "wc_generation cache' \<in> insert 0 ((\<lambda>i. oa_generation (answers i)) ` {..length parts})"
    using l(3) holds unfolding sessionHolds_def by auto
  moreover have "sd_announcedKey site \<in> insert 0 (keyOf (ca_split ca) answers k0 ` {..length parts})"
    if "site \<in> set sites'" for site
    using l(4) that holds unfolding sessionHolds_def by (metis UnI1 atMost_iff image_eqI insert_iff le_refl)
  ultimately have "sessionHolds ca sites types answers k0 r0 parts (logEvent ca e s)"
    using holds unfolding sessionHolds_def l(2) by simp
  with l(1) show ?thesis by blast
qed

text \<open>Closing the current segment hands its events off.\<close>

lemma session_close:
  assumes ok: "sites_ok sites types" "eventsOk sites types es"
    and run: "runningAt ca sites types answers k0 r0 parts k es cs s"
    and holds: "sessionHolds ca sites types answers k0 r0 parts s"
    and a: "sessionAnswers (ca_split ca) answers k0 n" "Suc (length parts) \<le> n"
  shows "\<exists>handed evicted files p. closeRotator answers s = s\<lparr>ss_rotator := (ss_rotator s)\<lparr>rt_dropped := 0, rt_current := None, rt_bind := None,
        rt_handedOff := handed, rt_evicted := evicted\<rparr>, ss_process := p, ss_files := files\<rparr>
    \<and> outboxHolds sites types (ca_thread ca) answers (rt_outbox r0) (rt_keep r0) (parts @ [es]) handed evicted files"
proof -
  let ?a = "answers (length parts)"
  note cfg = running_config [OF run]
  obtain lg where lg: "rt_current (ss_rotator s) = Some (oa_address ?a, lg)" using run unfolding running_def by blast
  have P: "current ?a s = \<lparr>pr_logger = lg, pr_cache = ss_cache s\<rparr>" by (simp add: current_def lg)
  have d: "lg_dropped lg = 0" using run by (simp add: running_def P dropped_def)
  have valid: "sg_valid (lg_segment lg)" "sg_path (lg_segment lg) = livePath (rt_live r0) ?a"
    using cfg by (simp_all add: P seg_def livePath_def)
  obtain P0 sites0 where p: "opened (selfAt ca ?a) ?a (keyOf (ca_split ca) answers k0 (length parts)) (rt_live r0) P0"
    "map anonymous sites0 = map anonymous sites"
    "\<forall>site \<in> set sites0. sd_announcedKey site \<noteq> keyOf (ca_split ca) answers k0 (length parts)"
    "emitAll (selfAt ca ?a) es sites0 P0 = (ss_sites s, current ?a s)"
    using run unfolding running_def by blast
  have new: "holdsEvents sites types (ca_thread ca) ?a es (sg_bytes (lg_segment lg))"
    using part_decodes [OF ok(1) _ _ p] ok(2) d by (simp add: eventsOk_def P seg_def dropped_def)
  have ren: "oa_renames (answers (ss_opens s))" using a holds by (simp add: sessionAnswers_def answered_def sessionHolds_def)
  define path target where "path = livePath (rt_live r0) ?a" and "target = outboxPath (rt_outbox r0) ?a"
  obtain handed evicted files where e: "evictOldest (rt_keep r0) (rt_handedOff (ss_rotator s) @ [target])
      ((ss_files s)(path \<mapsto> sg_bytes (lg_segment lg), path := None, target \<mapsto> sg_bytes (lg_segment lg))) (rt_evicted (ss_rotator s))
      = (handed, files, evicted)" by (metis prod_cases3)
  have "inj_on (\<lambda>i. oa_generation (answers i)) {..length parts}"
    using a by (auto simp: sessionAnswers_def intro: inj_on_subset)
  then have "outboxHolds sites types (ca_thread ca) answers (rt_outbox r0) (rt_keep r0) (parts @ [es]) handed evicted files"
    using outbox_step [where answers = answers and parts = parts, OF _ _ new path_def target_def e] holds unfolding sessionHolds_def by blast
  moreover have t: "joinPath (rt_outbox r0) (fileName path) = target"
    by (simp add: path_def target_def fileName_paths outboxPath_def)
  moreover have "closeRotator answers s = s\<lparr>ss_rotator := (ss_rotator s)\<lparr>rt_dropped := 0, rt_current := None, rt_bind := None,
        rt_handedOff := handed, rt_evicted := evicted\<rparr>,
      ss_process := (case rt_bind (ss_rotator s) of None \<Rightarrow> ss_process s | Some previous \<Rightarrow> unbindLogger previous (ss_process s)),
      ss_files := files\<rparr>"
    using holds e ren
    by (simp add: closeRotator_def lg valid d stats_def handOff_def path_def [symmetric] t sessionHolds_def Let_def)
  ultimately show ?thesis by blast
qed

text \<open>Opening the next one starts over with no events.\<close>

lemma session_open:
  assumes s: "ss_opens s = length parts" "ss_keys s = keysBefore (ca_split ca) answers k0 (length parts)"
      "outboxHolds sites types (ca_thread ca) answers (rt_outbox r0) (rt_keep r0) parts (rt_handedOff (ss_rotator s))
         (rt_evicted (ss_rotator s)) (ss_files s)"
      "rt_live (ss_rotator s) = rt_live r0" "rt_outbox (ss_rotator s) = rt_outbox r0" "rt_keep (ss_rotator s) = rt_keep r0"
      "rt_rotations (ss_rotator s) = length parts" "rt_dropped (ss_rotator s) = 0"
      "wc_generation (ss_cache s) \<in> insert 0 ((\<lambda>i. oa_generation (answers i)) ` {..<length parts})"
      "\<forall>site \<in> set (ss_sites s). sd_announcedKey site \<in> insert 0 (keyOf (ca_split ca) answers k0 ` {..<length parts})"
      "map anonymous (ss_sites s) = map anonymous sites"
    and a: "sessionAnswers (ca_split ca) answers k0 n" "length parts \<le> n"
  shows "runningAt ca sites types answers k0 r0 parts (2 ^ 64 - 1) [] [] (openRotator ca answers s)
    \<and> sessionHolds ca sites types answers k0 r0 parts (openRotator ca answers s)"
proof -
  let ?n = "length parts" and ?a = "answers (length parts)" and ?key = "keyOf (ca_split ca) answers k0 (length parts)"
  have ok: "answered ?a" "oa_generation ?a \<noteq> 0" "oa_address ?a \<noteq> 0" using a by (simp_all add: sessionAnswers_def answered_def)
  have inj: "inj_on (\<lambda>i. oa_generation (answers i)) {..n}" "inj_on (keyOf (ca_split ca) answers k0) {..n}"
    using a(1) by (simp_all add: sessionAnswers_def)
  have "wc_generation (ss_cache s) \<noteq> oa_generation ?a"
    using s(9) ok(2) inj_onD [OF inj(1), of _ ?n] a(2) by (fastforce simp: image_iff)
  then obtain lg previous where o: "openRotator ca answers s = s\<lparr>ss_rotator := (ss_rotator s)\<lparr>rt_current := Some (oa_address ?a, lg),
          rt_bind := Some previous\<rparr>,
        ss_process := (ss_process s)\<lparr>pc_detachedByFork := False, pc_active := oa_address ?a\<rparr>,
        ss_keys := keysBefore (ca_split ca) answers k0 (Suc ?n), ss_opens := Suc ?n\<rparr>"
    "opened (selfAt ca ?a) ?a ?key (rt_live r0) \<lparr>pr_logger = lg, pr_cache = ss_cache s\<rparr>"
    using openRotator_opened [where s = s and answers = answers and ca = ca and ?k0.0 = k0] ok(1) s(1,2,4) by metis
  have fresh: "\<forall>site \<in> set (ss_sites s). sd_announcedKey site \<noteq> ?key"
    using s(10) keyOf_nonzero [where answers = answers and i = ?n, OF ok(2), of "ca_split ca" k0] inj_onD [OF inj(2), of _ ?n] a(2) by (fastforce simp: image_iff)
  have cur: "current ?a (openRotator ca answers s) = \<lparr>pr_logger = lg, pr_cache = ss_cache s\<rparr>" by (simp add: current_def o(1))
  have "same_config P P" for P by (simp add: same_config_def)
  then have "runningAt ca sites types answers k0 r0 parts (2 ^ 64 - 1) [] [] (openRotator ca answers s)"
    using o(2) s(11) fresh ok(3) unfolding running_def cur
    by (intro conjI exI [of _ "\<lparr>pr_logger = lg, pr_cache = ss_cache s\<rparr>"] exI [of _ "ss_sites s"]) (simp_all add: o(1) opened_def)
  moreover have "sessionHolds ca sites types answers k0 r0 parts (openRotator ca answers s)"
    using s unfolding sessionHolds_def o(1) by (auto simp del: keysBefore.simps)
  ultimately show ?thesis by blast
qed

lemma session_rotate:
  assumes ok: "sites_ok sites types" "eventsOk sites types es"
    and run: "runningAt ca sites types answers k0 r0 parts k es cs s"
    and holds: "sessionHolds ca sites types answers k0 r0 parts s"
    and a: "sessionAnswers (ca_split ca) answers k0 n" "Suc (length parts) \<le> n"
  shows "runningAt ca sites types answers k0 r0 (parts @ [es]) (2 ^ 64 - 1) [] [] (rotateSegment ca answers s)
    \<and> sessionHolds ca sites types answers k0 r0 (parts @ [es]) (rotateSegment ca answers s)"
proof -
  obtain handed evicted files p where c: "closeRotator answers s = s\<lparr>ss_rotator := (ss_rotator s)\<lparr>rt_dropped := 0, rt_current := None,
        rt_bind := None, rt_handedOff := handed, rt_evicted := evicted\<rparr>, ss_process := p, ss_files := files\<rparr>"
    and h: "outboxHolds sites types (ca_thread ca) answers (rt_outbox r0) (rt_keep r0) (parts @ [es]) handed evicted files"
    using session_close [OF ok run holds a] by blast
  have an: "map anonymous (ss_sites s) = map anonymous sites" using run by (simp add: running_def)
  note s = holds [unfolded sessionHolds_def]
  have lt: "{..<Suc (length parts)} = {..length parts}" by (simp add: lessThan_Suc_atMost)
  define s1 where "s1 = closeRotator answers s"
  define s2 where "s2 = s1\<lparr>ss_rotator := (ss_rotator s1)\<lparr>rt_rotations := rt_rotations (ss_rotator s1) + 1\<rparr>\<rparr>"
  have r: "rotateSegment ca answers s = openRotator ca answers s2"
    by (simp add: rotateSegment_def Let_def s1_def s2_def)
  have s2: "s2 = s\<lparr>ss_rotator := (ss_rotator s)\<lparr>rt_dropped := 0, rt_current := None, rt_bind := None, rt_handedOff := handed,
      rt_evicted := evicted, rt_rotations := rt_rotations (ss_rotator s) + 1\<rparr>, ss_process := p, ss_files := files\<rparr>"
    by (simp add: s2_def s1_def c)
  show ?thesis
    unfolding r by (rule session_open [OF _ _ _ _ _ _ _ _ _ _ _ a(1)]) (use s h an a(2) lt in \<open>simp_all add: s2 del: keysBefore.simps\<close>)
qed

text \<open>The watermark leaves two chunks unclaimed.\<close>

lemma session_watermark:
  assumes ok: "sites_ok sites types" "eventsOk sites types es"
    and run: "runningAt ca sites types answers k0 r0 parts k es cs s"
    and holds: "sessionHolds ca sites types answers k0 r0 parts s"
    and a: "sessionAnswers (ca_split ca) answers k0 n" "Suc (length parts) \<le> n"
  shows "rotateIfNearlyFull ca answers s = (if 8 \<le> length cs + 1 then rotateSegment ca answers s else s)"
proof -
  let ?a = "answers (length parts)"
  obtain lg where lg: "rt_current (ss_rotator s) = Some (oa_address ?a, lg)" using run unfolding running_def by blast
  have P: "current ?a s = \<lparr>pr_logger = lg, pr_cache = ss_cache s\<rparr>" by (simp add: current_def lg)
  have v: "sg_valid (lg_segment lg)" "sg_chunkCount (lg_segment lg) = 8" using running_config [OF run] by (simp_all add: P seg_def)
  have "claimedChunks (ca_split ca) (lg_segment lg) = length cs"
    using run by (simp add: running_def prod_inv_def seg_inv_def P seg_def)
  then show ?thesis by (simp add: rotateIfNearlyFull_def lg v usage_def chunkCount_def)
qed

lemma eventsOk_append: "eventsOk sites types (es @ es') \<Longrightarrow> eventsOk sites types es"
  by (simp add: eventsOk_def)

lemma session_run:
  assumes ok: "sites_ok sites types" and a: "sessionAnswers (ca_split ca) answers k0 n"
    and "runningAt ca sites types answers k0 r0 parts k es cs s" and "4 * length events \<le> k" and "length cs + 2 \<le> 8"
    and "sessionHolds ca sites types answers k0 r0 parts s" and "length parts + length events < n"
    and "eventsOk sites types (es @ map fst events)"
  shows "\<exists>parts' k' es' cs'. runningAt ca sites types answers k0 r0 parts' k' es' cs' (runEvents ca answers events s)
    \<and> sessionHolds ca sites types answers k0 r0 parts' (runEvents ca answers events s)
    \<and> concat parts' @ es' = concat parts @ es @ map fst events \<and> length parts' \<le> length parts + length events"
  using assms(3-)
proof (induction events arbitrary: parts k es cs s)
  case Nil
  then show ?case by (simp only: runEvents.simps list.map append_Nil2) (metis add.right_neutral le_refl list.size(3))
next
  case (Cons event events)
  obtain e pause where ev: "event = (e, pause)" by (cases event)
  have e: "em_ok types e" "eventFits sites e" "eventsOk sites types (es @ [e])"
    and rest: "eventsOk sites types ((es @ [e]) @ map fst events)" "eventsOk sites types (map fst events)"
    using Cons.prems(6) by (simp_all add: eventsOk_def ev)
  have run: "runningAt ca sites types answers k0 r0 parts (k - 4 + 4) es cs s" using Cons.prems(1,2) by simp
  let ?s = "logEvent ca e s"
  obtain cs1 where l: "runningAt ca sites types answers k0 r0 parts (k - 4) (es @ [e]) cs1 ?s"
    "sessionHolds ca sites types answers k0 r0 parts ?s"
    using session_log [OF ok e(1,2) run Cons.prems(3,4)] by blast
  have n: "Suc (length parts) \<le> n" using Cons.prems(5) by simp
  define s2 where "s2 = (if pause then rotateSegment ca answers ?s else rotateIfNearlyFull ca answers ?s)"
  have w: "s2 = (if pause \<or> 8 \<le> length cs1 + 1 then rotateSegment ca answers ?s else ?s)"
    using session_watermark [OF ok e(3) l a n] by (simp add: s2_def)
  have step: "runEvents ca answers (event # events) s = runEvents ca answers events s2" by (simp add: ev s2_def)
  show ?case
  proof (cases "pause \<or> 8 \<le> length cs1 + 1")
    case True
    then have s2: "s2 = rotateSegment ca answers ?s" using w by simp
    have len: "length events < 2 ^ 32" using rest(2) by (simp add: eventsOk_def)
    have "\<exists>parts' k' es' cs'. runningAt ca sites types answers k0 r0 parts' k' es' cs' (runEvents ca answers events s2)
      \<and> sessionHolds ca sites types answers k0 r0 parts' (runEvents ca answers events s2)
      \<and> concat parts' @ es' = concat (parts @ [es @ [e]]) @ [] @ map fst events \<and> length parts' \<le> length (parts @ [es @ [e]]) + length events"
      using session_rotate [OF ok e(3) l a n] rest(2) Cons.prems(5) len unfolding s2
      by (intro Cons.IH [where k = "2 ^ 64 - 1" and cs = "[]"]) simp_all
    then show ?thesis unfolding step by (simp add: ev)
  next
    case False
    then have s2: "s2 = ?s" using w by simp
    have "\<exists>parts' k' es' cs'. runningAt ca sites types answers k0 r0 parts' k' es' cs' (runEvents ca answers events s2)
      \<and> sessionHolds ca sites types answers k0 r0 parts' (runEvents ca answers events s2)
      \<and> concat parts' @ es' = concat parts @ (es @ [e]) @ map fst events \<and> length parts' \<le> length parts + length events"
      using l False rest(1) Cons.prems(2,5) unfolding s2
      by (intro Cons.IH [where k = "k - 4" and cs = cs1]) simp_all
    then show ?thesis unfolding step by (auto simp: ev intro: le_SucI)
  qed
qed

section \<open>Properties\<close>

text \<open>
  C5. A rotated session loses nothing.  Take any run of events, each small enough that its
  definition and its message with all continuations fit a chunk, with pauses anywhere, and
  creations and renames that succeed with generations and announce keys that do not repeat.
  Rotating when at most one chunk is unclaimed, the session drops no record: the finished
  segments cut the events into consecutive parts, one more than there were rotations, and
  the outbox holds exactly the newest \<open>keep\<close> of them, oldest first, each a file that decodes
  to its events in order with every argument byte up to the ceiling.
\<close>

theorem rotation_loses_nothing:
  assumes "sites_ok sites types" and "eventsOk sites types (map fst events)"
    and "sessionAnswers (ca_split ca) answers keys (Suc (length events))"
    and "\<forall>site \<in> set sites. sd_announcedKey site = 0"
    and "runSession ca answers live outbox keep events p emptyCache sites files keys = s"
  shows "\<exists>parts. concat parts = map fst events \<and> length parts = Suc (rt_rotations (ss_rotator s))
    \<and> rt_dropped (ss_rotator s) = 0
    \<and> rt_evicted (ss_rotator s) = word_of_nat (length parts - keep)
    \<and> rt_handedOff (ss_rotator s) = map (\<lambda>i. outboxPath outbox (answers i)) [length parts - keep ..< length parts]
    \<and> (\<forall>i \<in> {length parts - keep ..< length parts}. \<exists>content. ss_files s (outboxPath outbox (answers i)) = Some content
         \<and> holdsEvents sites types (ca_thread ca) (answers i) (parts ! i) content)"
proof -
  let ?r0 = "newRotator live outbox keep"
  define s0 where "s0 = \<lparr>ss_rotator = ?r0, ss_process = p, ss_cache = emptyCache, ss_sites = sites, ss_files = files,
    ss_keys = keys, ss_opens = 0\<rparr>"
  have o: "runningAt ca sites types answers keys ?r0 [] (2 ^ 64 - 1) [] [] (openRotator ca answers s0)
      \<and> sessionHolds ca sites types answers keys ?r0 [] (openRotator ca answers s0)"
    by (rule session_open [OF _ _ _ _ _ _ _ _ _ _ _ assms(3)])
      (use assms(4) in \<open>simp_all add: s0_def newRotator_def outboxHolds_def emptyCache_def\<close>)
  have n: "length events < 2 ^ 32" using assms(2) by (simp add: eventsOk_def)
  obtain parts k es cs where run: "runningAt ca sites types answers keys ?r0 parts k es cs (runEvents ca answers events (openRotator ca answers s0))"
      "sessionHolds ca sites types answers keys ?r0 parts (runEvents ca answers events (openRotator ca answers s0))"
      "concat parts @ es = map fst events" "length parts \<le> length events"
    using session_run [OF assms(1,3) conjunct1 [OF o] _ _ conjunct2 [OF o], of events] assms(2) n by auto
  have es: "eventsOk sites types es"
    using assms(2) unfolding run(3) [symmetric] by (simp add: eventsOk_def)
  let ?s = "runEvents ca answers events (openRotator ca answers s0)"
  obtain handed evicted files' p' where c: "closeRotator answers ?s = ?s\<lparr>ss_rotator := (ss_rotator ?s)\<lparr>rt_dropped := 0,
        rt_current := None, rt_bind := None, rt_handedOff := handed, rt_evicted := evicted\<rparr>, ss_process := p', ss_files := files'\<rparr>"
    and h: "outboxHolds sites types (ca_thread ca) answers (rt_outbox ?r0) (rt_keep ?r0) (parts @ [es]) handed evicted files'"
    using session_close [OF assms(1) es run(1,2) assms(3)] run(4) by auto
  have "s = closeRotator answers ?s" using assms(5) by (simp add: runSession_def s0_def)
  with c h run(2,3) show ?thesis
    by (intro exI [of _ "parts @ [es]"]) (simp add: outboxHolds_def newRotator_def sessionHolds_def del: upt_Suc)
qed

definition exampleEvents :: "(Emission \<times> bool) list" where
  "exampleEvents =
     [(\<lparr>em_clock = (\<lambda>i. 9), em_scoped = 0, em_site = 0, em_args = [AU32 7]\<rparr>, True),
      (\<lparr>em_clock = (\<lambda>i. 10), em_scoped = 0, em_site = 0, em_args = [AU32 8]\<rparr>, False)]"

definition exampleAnswers :: "nat \<Rightarrow> OpenAnswers" where
  "exampleAnswers i = \<lparr>oa_renames = True, oa_address = i + 1, oa_env = exampleEnv, oa_generation = word_of_nat (i + 1),
     oa_map = (\<lambda>path n. Inr (replicate (unat n) 0)), oa_clock = (\<lambda>_. 0), oa_variable = None\<rparr>"

definition exampleProcess :: Process where
  "exampleProcess = \<lparr>pc_active = 0, pc_detachedByFork = False, pc_unboundEmits = 0\<rparr>"

theorem rotation_loses_nothing_witness:
  "let s = runSession (exampleCaller False) exampleAnswers ''live'' ''out'' 1 exampleEvents exampleProcess emptyCache
      [exampleSite] Map.empty 0
   in rt_dropped (ss_rotator s) = 0 \<and> length (rt_handedOff (ss_rotator s)) = 1"
proof -
  have sites: "sites_ok [exampleSite] [[TcU32]]"
    by (auto simp: sites_ok_def exampleSite_def intro: exI [of _ "[AU32 0]"])
  have events: "eventsOk [exampleSite] [[TcU32]] (map fst exampleEvents)"
  proof -
    have "slicesOf [AU32 n] = []" for n using slicesOf_fixed [of "[AU32 n]"] by (simp add: hasByteArg_def)
    moreover have "messageSize [AU32 n] \<le> 64" for n by (simp add: messageSize_def cMessagePayloadSize_def)
    then have "footprint (messageSize [AU32 n]) \<le> 992" for n
      using align8_mono [of "messageSize [AU32 n]" 64] by (simp add: footprint_def align8_def)
    ultimately show ?thesis
      by (simp add: eventsOk_def exampleEvents_def em_ok_def eventFits_def exampleSite_def contSizes_def footprint_def align8_def)
  qed
  have "(word_of_nat (Suc i) :: u64) = word_of_nat (Suc j) \<longleftrightarrow> i = j" if "i \<le> 3" "j \<le> 3" for i j
    using that by (simp add: word_unat_eq_iff unat_of_nat del: of_nat_Suc)
  moreover have "(word_of_nat (Suc i) :: u64) \<noteq> 0" if "i \<le> 3" for i
    using that by (simp add: word_unat_eq_iff unat_of_nat del: of_nat_Suc)
  ultimately have answers: "sessionAnswers (ca_split (exampleCaller False)) exampleAnswers 0 (Suc (length exampleEvents))"
    by (auto simp: sessionAnswers_def answered_def exampleAnswers_def exampleEvents_def exampleCaller_def inj_on_def keyOf_def
        simp del: of_nat_Suc)
  have keys: "\<forall>site \<in> set [exampleSite]. sd_announcedKey site = 0" by (simp add: exampleSite_def)
  obtain parts :: "Emission list list" where "length parts = Suc (rt_rotations (ss_rotator
        (runSession (exampleCaller False) exampleAnswers ''live'' ''out'' 1 exampleEvents exampleProcess emptyCache [exampleSite] Map.empty 0)))"
      "rt_dropped (ss_rotator (runSession (exampleCaller False) exampleAnswers ''live'' ''out'' 1 exampleEvents exampleProcess
        emptyCache [exampleSite] Map.empty 0)) = 0"
      "rt_handedOff (ss_rotator (runSession (exampleCaller False) exampleAnswers ''live'' ''out'' 1 exampleEvents exampleProcess
        emptyCache [exampleSite] Map.empty 0)) = map (\<lambda>i. outboxPath ''out'' (exampleAnswers i)) [length parts - 1 ..< length parts]"
    using rotation_loses_nothing [OF sites events answers keys refl, of "''live''" "''out''" 1 exampleProcess Map.empty] by blast
  then show ?thesis by (simp add: Let_def del: upt_Suc)
qed

end
