(* ===== verification/Merge.thy ===== *)
theory Merge
  imports Decoder "HOL-Library.Multiset" "HOL-Library.Product_Lexorder"
begin

text \<open>
  \<^verbatim>\<open>include/sub0log/merge.hpp\<close>: decoded segments collected by the Merger and merged into
  one stream ordered by aligned time.  \<open>std::stable_sort\<close> is an insertion sort with the
  comparison as an argument; the laws the standard requires of a comparison are the
  assumptions of the locale \<open>strict_weak_order\<close>, in which the sort's guarantees are
  proved, and the Merger's comparison is an instance of it.
\<close>

section \<open>Stable sorting\<close>

fun stableInsert :: "('a \<Rightarrow> 'a \<Rightarrow> bool) \<Rightarrow> 'a \<Rightarrow> 'a list \<Rightarrow> 'a list" where
  "stableInsert lt x [] = [x]"
| "stableInsert lt x (y # ys) = (if lt y x then y # stableInsert lt x ys else x # y # ys)"

fun stableSort :: "('a \<Rightarrow> 'a \<Rightarrow> bool) \<Rightarrow> 'a list \<Rightarrow> 'a list" where
  "stableSort lt [] = []"
| "stableSort lt (x # xs) = stableInsert lt x (stableSort lt xs)"

lemma mset_stableInsert: "mset (stableInsert lt x xs) = add_mset x (mset xs)"
  by (induction xs) simp_all

lemma mset_stableSort: "mset (stableSort lt xs) = mset xs"
  by (induction xs) (simp_all add: mset_stableInsert)

lemma set_stableSort: "set (stableSort lt xs) = set xs"
  by (metis mset_stableSort set_mset_mset)

lemma set_stableInsert: "set (stableInsert lt x xs) = insert x (set xs)"
  by (induction xs) auto

text \<open>Elements the comparison does not separate.\<close>

definition tied :: "('a \<Rightarrow> 'a \<Rightarrow> bool) \<Rightarrow> 'a \<Rightarrow> 'a \<Rightarrow> bool" where
  "tied lt x y \<longleftrightarrow> \<not> lt x y \<and> \<not> lt y x"

locale strict_weak_order =
  fixes lt :: "'a \<Rightarrow> 'a \<Rightarrow> bool"
  assumes irreflexive: "\<not> lt x x"
    and transitive: "lt x y \<Longrightarrow> lt y z \<Longrightarrow> lt x z"
    and equivalence_transitive: "\<not> lt x y \<Longrightarrow> \<not> lt y z \<Longrightarrow> \<not> lt x z"
begin

lemma asymmetric: "lt x y \<Longrightarrow> \<not> lt y x"
  using irreflexive transitive by blast

lemma insert_sorted: "sorted_wrt (\<lambda>a b. \<not> lt b a) xs \<Longrightarrow> sorted_wrt (\<lambda>a b. \<not> lt b a) (stableInsert lt x xs)"
  by (induction xs) (auto simp: set_stableInsert dest: asymmetric equivalence_transitive)

lemma sort_sorted: "sorted_wrt (\<lambda>a b. \<not> lt b a) (stableSort lt xs)"
  by (induction xs) (simp_all add: insert_sorted)

lemma insert_stable:
  "filter (tied lt z) (stableInsert lt x xs) = (if tied lt z x then x # filter (tied lt z) xs else filter (tied lt z) xs)"
proof (induction xs)
  case (Cons y ys)
  have "\<not> tied lt z y" if "lt y x" "tied lt z x"
    using that equivalence_transitive unfolding tied_def by blast
  with Cons show ?case by auto
qed simp

lemma sort_stable: "filter (tied lt z) (stableSort lt xs) = filter (tied lt z) xs"
  by (induction xs) (simp_all add: insert_stable)

end

section \<open>The Merger\<close>

record MergedRecord =
  mr_record :: DecodedRecord
  mr_processId :: u64
  mr_alignedNs :: u64

record Totals =
  tt_unreadableBytes :: nat
  tt_unwrittenBytes :: nat
  tt_undecodableRecords :: nat
  tt_skippedRecords :: nat

record Loaded =
  ld_decoder :: Decoder
  ld_records :: "DecodedRecord list"
  ld_header :: SegmentHeader

record Merger =
  mg_segments :: "Loaded list"
  mg_totals :: Totals

definition newMerger :: Merger where
  "newMerger = \<lparr>mg_segments = [], mg_totals = \<lparr>tt_unreadableBytes = 0, tt_unwrittenBytes = 0,
     tt_undecodableRecords = 0, tt_skippedRecords = 0\<rparr>\<rparr>"

definition addSegment :: "bytes \<Rightarrow> Merger \<Rightarrow> SegmentError \<times> Merger" where
  "addSegment img m =
     (let reader = openSegment img
      in if sr_error reader \<noteq> Ok then (sr_error reader, m)
         else
           let (records, decoder) = decodeAll newDecoder reader;
               totals = mg_totals m
           in (Ok, \<lparr>mg_segments = mg_segments m @ [\<lparr>ld_decoder = decoder, ld_records = records,
                                                    ld_header = sr_header reader\<rparr>],
                    mg_totals = \<lparr>tt_unreadableBytes = tt_unreadableBytes totals + unreadableBytes reader,
                                 tt_unwrittenBytes = tt_unwrittenBytes totals + unwrittenBytes reader,
                                 tt_undecodableRecords = tt_undecodableRecords totals + dc_undecodable decoder,
                                 tt_skippedRecords = tt_skippedRecords totals + dc_skipped decoder\<rparr>\<rparr>))"

definition alignedNs :: "SegmentHeader \<Rightarrow> u64 \<Rightarrow> u64" where
  "alignedNs h mono' = (if sh_anchorMonoNs h \<le> mono' then sh_anchorWallNs h + (mono' - sh_anchorMonoNs h)
                        else sh_anchorWallNs h)"

definition tagged :: "Loaded \<Rightarrow> MergedRecord list" where
  "tagged seg = map (\<lambda>rec. \<lparr>mr_record = rec, mr_processId = sh_processId (ld_header seg),
                             mr_alignedNs = alignedNs (ld_header seg) (dr_monoNs rec)\<rparr>) (ld_records seg)"

definition lessMerged :: "MergedRecord \<Rightarrow> MergedRecord \<Rightarrow> bool" where
  "lessMerged a b =
     (if mr_alignedNs a \<noteq> mr_alignedNs b then mr_alignedNs a < mr_alignedNs b
      else if mr_processId a \<noteq> mr_processId b then mr_processId a < mr_processId b
      else if dr_ownerThread (mr_record a) \<noteq> dr_ownerThread (mr_record b)
      then dr_ownerThread (mr_record a) < dr_ownerThread (mr_record b)
      else dr_monoNs (mr_record a) < dr_monoNs (mr_record b))"

text \<open>The records are moved out: what stays behind has lost its arguments.\<close>

definition merged :: "Merger \<Rightarrow> MergedRecord list \<times> Merger" where
  "merged m =
     (stableSort lessMerged (concat (map tagged (mg_segments m))),
      m\<lparr>mg_segments := map (\<lambda>seg. seg\<lparr>ld_records := map (\<lambda>rec. rec\<lparr>dr_args := []\<rparr>) (ld_records seg)\<rparr>)
                          (mg_segments m)\<rparr>)"

fun firstName :: "Loaded list \<Rightarrow> u32 \<Rightarrow> bytes" where
  "firstName [] subsystem = []"
| "firstName (seg # segs) subsystem =
     (let name = subsystemName (ld_decoder seg) subsystem in if name \<noteq> [] then name else firstName segs subsystem)"

definition mergedSubsystemName :: "Merger \<Rightarrow> u32 \<Rightarrow> bytes" where
  "mergedSubsystemName m subsystem = firstName (mg_segments m) subsystem"

interpretation ms: strict_weak_order lessMerged
proof
  fix x y z :: MergedRecord
  show "\<not> lessMerged x x" by (simp add: lessMerged_def)
  show "lessMerged x y \<Longrightarrow> lessMerged y z \<Longrightarrow> lessMerged x z"
    by (auto simp: lessMerged_def split: if_splits)
  show "\<not> lessMerged x y \<Longrightarrow> \<not> lessMerged y z \<Longrightarrow> \<not> lessMerged x z"
    by (auto simp: lessMerged_def split: if_splits)
qed

section \<open>Properties\<close>

text \<open>
  C20. The merged stream holds every record of every added segment exactly once, ordered
  by aligned time and then process, thread and monotonic time, and records the order does
  not separate keep the order their segments and chunks gave them.
\<close>

theorem merged_ordered_and_stable:
  "let input = concat (map tagged (mg_segments m)); out = fst (merged m)
   in mset out = mset input
      \<and> sorted_wrt (\<lambda>a b. (mr_alignedNs a, mr_processId a, dr_ownerThread (mr_record a), dr_monoNs (mr_record a))
                      \<le> (mr_alignedNs b, mr_processId b, dr_ownerThread (mr_record b), dr_monoNs (mr_record b))) out
      \<and> filter (tied lessMerged r) out = filter (tied lessMerged r) input"
proof -
  have "sorted_wrt (\<lambda>a b. (mr_alignedNs a, mr_processId a, dr_ownerThread (mr_record a), dr_monoNs (mr_record a))
      \<le> (mr_alignedNs b, mr_processId b, dr_ownerThread (mr_record b), dr_monoNs (mr_record b)))
      (stableSort lessMerged xs)" for xs
    using ms.sort_sorted [of xs]
    by (rule sorted_wrt_mono_rel [rotated]) (auto simp: lessMerged_def less_eq_prod_def split: if_splits)
  then show ?thesis by (simp add: merged_def mset_stableSort ms.sort_stable)
qed

end
