(* ===== verification/Json.thy ===== *)
theory Json
  imports Merge
begin

unbundle bit_operations_syntax

text \<open>
  \<^verbatim>\<open>include/sub0log/json.hpp\<close>: the JSON form of a merged message.  Text is a list of
  bytes; an exception is the left side of a sum.  \<open>showGeneral\<close> is \<open>std::to_chars\<close> with
  \<open>chars_format::general\<close> and 17 digits on a finite double, \<open>showShortest\<close> the one
  \<open>Decoder::format\<close> uses.
\<close>

section \<open>Text\<close>

definition cHexDigits :: string where
  "cHexDigits = ''0123456789abcdef''"

definition hexByte :: "u8 \<Rightarrow> bytes" where
  "hexByte b = bytesOfString [cHexDigits ! unat (drop_bit 4 b), cHexDigits ! unat (b AND 0x0F)]"

text \<open>
  The inner loop of the UTF-8 check: \<open>more_bytes\<close> continuation bytes folded into \<open>code\<close>, and what
  follows them.
\<close>

fun utf8Tail :: "nat \<Rightarrow> u32 \<Rightarrow> bytes \<Rightarrow> (u32 \<times> bytes) option" where
  "utf8Tail 0 code text = Some (code, text)"
| "utf8Tail (Suc more_bytes) code [] = None"
| "utf8Tail (Suc more_bytes) code (next # text) =
     (if next AND 0xC0 \<noteq> 0x80 then None
      else utf8Tail more_bytes (push_bit 6 code OR ucast (next AND 0x3F)) text)"

lemma utf8Tail_shorter: "utf8Tail more_bytes code text = Some (c, rest) \<Longrightarrow> length rest \<le> length text"
  by (induction more_bytes code "text" rule: utf8Tail.induct) (auto split: if_splits)

definition utf8Lead :: "u8 \<Rightarrow> (nat \<times> u32 \<times> u32) option" where
  "utf8Lead first =
     (if 0xC2 \<le> first \<and> first \<le> 0xDF then Some (1, ucast (first AND 0x1F), 0x80)
      else if 0xE0 \<le> first \<and> first \<le> 0xEF then Some (2, ucast (first AND 0x0F), 0x800)
      else if 0xF0 \<le> first \<and> first \<le> 0xF4 then Some (3, ucast (first AND 0x07), 0x10000)
      else None)"

function validUtf8 :: "bytes \<Rightarrow> bool" where
  "validUtf8 [] = True"
| "validUtf8 (first # text) =
     (if first < 0x80 then validUtf8 text
      else case utf8Lead first of
        None \<Rightarrow> False
      | Some (more_bytes, code, minimum) \<Rightarrow>
          if length text < more_bytes then False
          else case utf8Tail more_bytes code text of
            None \<Rightarrow> False
          | Some (code, rest) \<Rightarrow>
              if code < minimum \<or> 0x10FFFF < code \<or> (0xD800 \<le> code \<and> code \<le> 0xDFFF) then False
              else validUtf8 rest)"
  by pat_completeness auto
termination
  by (relation "measure length") (auto dest: utf8Tail_shorter simp: less_Suc_eq_le)

text \<open>The quotation mark is 34, the backslash 92.\<close>

definition escapeByte :: "u8 \<Rightarrow> bytes" where
  "escapeByte b =
     (if b = 34 \<or> b = 92 then [92, b]
      else if b < 0x20 then [92, 117, 48, 48] @ hexByte b
      else [b])"

definition appendQuoted :: "bytes \<Rightarrow> bytes \<Rightarrow> bytes" where
  "appendQuoted out text = out @ [34] @ concat (map escapeByte text) @ [34]"

definition appendHex :: "bytes \<Rightarrow> bytes \<Rightarrow> bytes" where
  \<open>appendHex out bs = out @ bytesOfString ''{"encoding":"hex","value":"'' @ concat (map hexByte bs)
     @ bytesOfString ''"}''\<close>

definition appendText :: "bytes \<Rightarrow> bytes \<Rightarrow> bytes" where
  \<open>appendText out bs =
     (if \<not> validUtf8 bs then appendHex out bs
      else appendQuoted (out @ bytesOfString ''{"encoding":"utf8","value":'') bs @ bytesOfString ''}'')\<close>

section \<open>Numbers\<close>

definition decimal :: "nat \<Rightarrow> bytes" where
  "decimal n = bytesOfString (natToChars 10 n)"

definition signedDecimal :: "u64 \<Rightarrow> bytes" where
  "signedDecimal w =
     (if sint w < 0 then bytesOfString ''-'' @ decimal (nat (- sint w)) else decimal (nat (sint w)))"

text \<open>Classification of a double by its bits: sign 1, exponent 11, fraction 52.\<close>

definition signBit :: "u64 \<Rightarrow> bool" where "signBit w = bit w 63"
definition expBits :: "u64 \<Rightarrow> u64" where "expBits w = drop_bit 52 w AND 0x7FF"
definition fracBits :: "u64 \<Rightarrow> u64" where "fracBits w = take_bit 52 w"

definition appendFloat :: "(u64 \<Rightarrow> bytes) \<Rightarrow> bytes \<Rightarrow> u64 \<Rightarrow> bytes" where
  \<open>appendFloat showGeneral out w =
     (if expBits w = 0x7FF \<and> fracBits w \<noteq> 0 then out @ bytesOfString ''"nan"''
      else if expBits w = 0x7FF then out @ bytesOfString (if signBit w then ''"-inf"'' else ''"inf"'')
      else if expBits w = 0 \<and> fracBits w = 0 \<and> signBit w then out @ bytesOfString ''-0.0''
      else out @ showGeneral w)\<close>

section \<open>Records\<close>

datatype JsonError = InvalidArgument | BadVariantAccess

text \<open>
  The value part of one argument; \<open>std::get\<close> with the wrong alternative is
  \<open>BadVariantAccess\<close>.
\<close>

fun argValue :: "(u64 \<Rightarrow> bytes) \<Rightarrow> bytes \<Rightarrow> TypeCode \<Rightarrow> DecodedArg \<Rightarrow> JsonError + bytes" where
  "argValue showGeneral out code arg =
     (case code of
        TcBool \<Rightarrow> (case arg of DBool b \<Rightarrow> Inr (out @ bytesOfString (if b then ''true'' else ''false''))
                     | _ \<Rightarrow> Inl BadVariantAccess)
      | TcI8 \<Rightarrow> (case arg of DInt w \<Rightarrow> Inr (out @ [34] @ signedDecimal w @ [34]) | _ \<Rightarrow> Inl BadVariantAccess)
      | TcI16 \<Rightarrow> (case arg of DInt w \<Rightarrow> Inr (out @ [34] @ signedDecimal w @ [34]) | _ \<Rightarrow> Inl BadVariantAccess)
      | TcI32 \<Rightarrow> (case arg of DInt w \<Rightarrow> Inr (out @ [34] @ signedDecimal w @ [34]) | _ \<Rightarrow> Inl BadVariantAccess)
      | TcI64 \<Rightarrow> (case arg of DInt w \<Rightarrow> Inr (out @ [34] @ signedDecimal w @ [34]) | _ \<Rightarrow> Inl BadVariantAccess)
      | TcU8 \<Rightarrow> (case arg of DUint w \<Rightarrow> Inr (out @ [34] @ decimal (unat w) @ [34]) | _ \<Rightarrow> Inl BadVariantAccess)
      | TcU16 \<Rightarrow> (case arg of DUint w \<Rightarrow> Inr (out @ [34] @ decimal (unat w) @ [34]) | _ \<Rightarrow> Inl BadVariantAccess)
      | TcU32 \<Rightarrow> (case arg of DUint w \<Rightarrow> Inr (out @ [34] @ decimal (unat w) @ [34]) | _ \<Rightarrow> Inl BadVariantAccess)
      | TcU64 \<Rightarrow> (case arg of DUint w \<Rightarrow> Inr (out @ [34] @ decimal (unat w) @ [34]) | _ \<Rightarrow> Inl BadVariantAccess)
      | TcPointer \<Rightarrow> (case arg of DUint w \<Rightarrow> Inr (out @ [34] @ decimal (unat w) @ [34]) | _ \<Rightarrow> Inl BadVariantAccess)
      | TcF32 \<Rightarrow> (case arg of DDouble w \<Rightarrow> Inr (appendFloat showGeneral out w) | _ \<Rightarrow> Inl BadVariantAccess)
      | TcF64 \<Rightarrow> (case arg of DDouble w \<Rightarrow> Inr (appendFloat showGeneral out w) | _ \<Rightarrow> Inl BadVariantAccess)
      | TcChar \<Rightarrow> (case arg of DChar c \<Rightarrow> Inr (appendHex out [c]) | _ \<Rightarrow> Inl BadVariantAccess)
      | TcBytes \<Rightarrow> (case arg of DString bs \<Rightarrow> Inr (appendHex out bs) | _ \<Rightarrow> Inl BadVariantAccess)
      | _ \<Rightarrow> Inl InvalidArgument)"

definition appendArg :: "(u64 \<Rightarrow> bytes) \<Rightarrow> bytes \<Rightarrow> TypeCode \<Rightarrow> DecodedArg \<Rightarrow> JsonError + bytes" where
  \<open>appendArg showGeneral out code arg =
     (case argValue showGeneral (out @ bytesOfString ''{"type":'' @ decimal (unat (typeCodeByte code))
                                 @ bytesOfString '',"value":'') code arg of
        Inl e \<Rightarrow> Inl e
      | Inr out' \<Rightarrow> Inr (out' @ bytesOfString ''}''))\<close>

fun appendArgs :: "(u64 \<Rightarrow> bytes) \<Rightarrow> bool \<Rightarrow> bytes \<Rightarrow> TypeCode list \<Rightarrow> DecodedArg list \<Rightarrow> JsonError + bytes" where
  \<open>appendArgs showGeneral first out (code # codes) (arg # args) =
     (case appendArg showGeneral (if first then out else out @ bytesOfString '','') code arg of
        Inl e \<Rightarrow> Inl e
      | Inr out' \<Rightarrow> appendArgs showGeneral False out' codes args)\<close>
| "appendArgs showGeneral first out _ _ = Inr out"

text \<open>Everything in front of the argument array.\<close>

definition jsonFields :: "(u64 \<Rightarrow> bytes) \<Rightarrow> MergedRecord \<Rightarrow> DecodedSite \<Rightarrow> bytes \<Rightarrow> bytes" where
  \<open>jsonFields showShortest entry site name =
     (let rec = mr_record entry;
          out = bytesOfString ''{"schema":1,"kind":"message"''
            @ bytesOfString '',"process_id":"'' @ decimal (unat (mr_processId entry)) @ [34]
            @ bytesOfString '',"thread_id":"'' @ decimal (unat (dr_ownerThread rec)) @ [34]
            @ bytesOfString '',"site_id":"'' @ decimal (unat (ds_siteId site)) @ [34]
            @ bytesOfString '',"correlation_id":"'' @ decimal (unat (dr_correlationId rec)) @ [34]
            @ bytesOfString '',"mono_ns":"'' @ decimal (unat (dr_monoNs rec)) @ [34]
            @ bytesOfString '',"aligned_ns":"'' @ decimal (unat (mr_alignedNs entry)) @ [34]
            @ bytesOfString '',"severity":'' @ decimal (unat (sevCode (ds_severity site)))
            @ bytesOfString '',"subsystem_id":'' @ decimal (unat (ds_subsystem site))
            @ bytesOfString '',"source_line":'' @ decimal (unat (ds_line site))
            @ bytesOfString '',"truncated":'' @ bytesOfString (if dr_truncated rec then ''true'' else ''false'')
            @ bytesOfString '',"subsystem_name":'';
          out = appendText out name @ bytesOfString '',"format":'';
          out = appendText out (ds_format site) @ bytesOfString '',"file":'';
          out = appendText out (ds_file site) @ bytesOfString '',"message":''
      in appendText out (formatRecord showShortest rec)
         @ bytesOfString '',"segment_generation":"'' @ decimal (unat (dr_segmentGeneration rec))
         @ bytesOfString ''","record_offset":"'' @ decimal (dr_recordOffset rec) @ [34]
         @ bytesOfString '',"args":['')\<close>

definition formatJson ::
  "(u64 \<Rightarrow> bytes) \<Rightarrow> (u64 \<Rightarrow> bytes) \<Rightarrow> MergedRecord \<Rightarrow> bytes \<Rightarrow> JsonError + bytes" where
  \<open>formatJson showGeneral showShortest entry name =
     (let rec = mr_record entry
      in case dr_site rec of
           None \<Rightarrow> Inl InvalidArgument
         | Some site \<Rightarrow>
           if length (ds_argTypes site) \<noteq> length (dr_args rec) then Inl InvalidArgument
           else case appendArgs showGeneral True (jsonFields showShortest entry site name)
                       (ds_argTypes site) (dr_args rec) of
                  Inl e \<Rightarrow> Inl e
                | Inr out \<Rightarrow> Inr (out @ bytesOfString '']}''))\<close>

section \<open>Exceptions\<close>

lemma argValue_typed: "argTyped code arg \<Longrightarrow> \<exists>out'. argValue showGeneral out code arg = Inr out'"
  by (cases arg) auto

lemma appendArgs_typed: "list_all2 argTyped codes args \<Longrightarrow> \<exists>out'. appendArgs showGeneral first out codes args = Inr out'"
proof (induction codes args arbitrary: first out rule: list_all2_induct)
  case (Cons code codes arg args)
  let ?out = "if first then out else out @ bytesOfString '',''"
  obtain out1 where "appendArg showGeneral ?out code arg = Inr out1"
    using argValue_typed [OF Cons.hyps(1)] unfolding appendArg_def by (metis sum.simps(6))
  then show ?case using Cons.IH [of False out1] by simp
qed simp

lemma formatJson_typed:
  assumes "recTyped (mr_record entry)"
  shows "\<exists>json. formatJson showGeneral showShortest entry name = Inr json"
proof -
  obtain site where s: "dr_site (mr_record entry) = Some site"
    "list_all2 argTyped (ds_argTypes site) (dr_args (mr_record entry))" using assms by (auto simp: recTyped_def)
  then have "length (ds_argTypes site) = length (dr_args (mr_record entry))" by (simp add: list_all2_lengthD)
  moreover obtain out where "appendArgs showGeneral True (jsonFields showShortest entry site name)
      (ds_argTypes site) (dr_args (mr_record entry)) = Inr out"
    using appendArgs_typed [OF s(2)] by blast
  ultimately show ?thesis using s(1) by (simp add: formatJson_def)
qed

definition mergerOf :: "bytes list \<Rightarrow> Merger" where
  "mergerOf imgs = foldl (\<lambda>m img. snd (addSegment img m)) newMerger imgs"

lemma merger_typed: "seg \<in> set (mg_segments (mergerOf imgs)) \<Longrightarrow> rec \<in> set (ld_records seg) \<Longrightarrow> recTyped rec"
proof -
  have "\<forall>seg \<in> set (mg_segments (foldl (\<lambda>m img. snd (addSegment img m)) m imgs)). \<forall>rec \<in> set (ld_records seg). recTyped rec"
    if "\<forall>seg \<in> set (mg_segments m). \<forall>rec \<in> set (ld_records seg). recTyped rec" for m
    using that
  proof (induction imgs arbitrary: m)
    case (Cons img imgs)
    have "\<forall>seg \<in> set (mg_segments (snd (addSegment img m))). \<forall>rec \<in> set (ld_records seg). recTyped rec"
      using Cons.prems decodeAll_typed [of _ newDecoder "openSegment img"]
      by (auto simp: addSegment_def Let_def case_prod_beta)
    then show ?case using Cons.IH by simp
  qed simp
  from this [of newMerger] show "seg \<in> set (mg_segments (mergerOf imgs)) \<Longrightarrow> rec \<in> set (ld_records seg) \<Longrightarrow> recTyped rec"
    by (simp add: mergerOf_def newMerger_def)
qed

lemma merged_typed: "entry \<in> set (fst (merged (mergerOf imgs))) \<Longrightarrow> recTyped (mr_record entry)"
proof -
  assume "entry \<in> set (fst (merged (mergerOf imgs)))"
  then have "entry \<in> set (concat (map tagged (mg_segments (mergerOf imgs))))"
    by (simp add: merged_def set_stableSort)
  then show ?thesis by (auto simp: tagged_def intro: merger_typed)
qed

section \<open>UTF-8\<close>

lemma unat_low_bits:
  "unat ((b :: u8) AND 0x3F) = unat b mod 64" "unat (b AND 0x1F) = unat b mod 32"
  "unat (b AND 0x0F) = unat b mod 16" "unat (b AND 0x07) = unat b mod 8"
proof -
  have m: "unat (b AND mask n) = unat b mod 2 ^ n" for n
    by (simp only: take_bit_eq_mask [symmetric] unsigned_take_bit_eq) (simp add: take_bit_eq_mod)
  from m [of 6] m [of 5] m [of 4] m [of 3]
  show "unat (b AND 0x3F) = unat b mod 64" "unat (b AND 0x1F) = unat b mod 32"
    "unat (b AND 0x0F) = unat b mod 16" "unat (b AND 0x07) = unat b mod 8"
    by (simp_all add: mask_eq_exp_minus_1)
qed

lemma continuation_byte: "(b :: u8) AND 0xC0 = 0x80 \<longleftrightarrow> unat b div 64 = 2"
proof -
  have "b AND 0xC0 = push_bit 6 (drop_bit 6 b)"
  proof (rule bit_word_eqI)
    fix n assume "n < LENGTH(8)"
    then have "n \<in> {0, 1, 2, 3, 4, 5, 6, 7}" by auto
    then show "bit (b AND 0xC0) n = bit (push_bit 6 (drop_bit 6 b)) n"
      by (auto simp: bit_simps)
  qed
  moreover have "push_bit 6 (drop_bit 6 b) = 0x80 \<longleftrightarrow> drop_bit 6 b = 2"
  proof -
    have "drop_bit 6 (push_bit 6 (drop_bit 6 b)) = drop_bit 6 b"
      by (rule bit_word_eqI) (auto simp: bit_simps dest: bit_imp_le_length)
    then show ?thesis by auto
  qed
  moreover have "unat (drop_bit 6 b) = unat b div 64" by (simp only: unat_drop_bit_eq) (simp add: drop_bit_eq_div)
  moreover have "drop_bit 6 b = 2 \<longleftrightarrow> unat (drop_bit 6 b) = 2" by (simp add: word_unat_eq_iff)
  ultimately show ?thesis by simp
qed

lemma unat_join6:
  assumes "unat code < 2 ^ 26"
  shows "unat (push_bit 6 code OR ucast ((b :: u8) AND 0x3F) :: u32) = unat code * 64 + unat b mod 64"
proof -
  let ?x = "ucast (b AND 0x3F) :: u32"
  have "unat (b AND 0x3F) < 64" by (simp only: unat_low_bits)
  then have "unat ?x = unat (b AND 0x3F)" by (simp add: unsigned_ucast_eq take_bit_nat_eq_self)
  then have x: "unat ?x = unat b mod 64" by (simp only: unat_low_bits)
  have p: "unat (push_bit 6 code) = unat code * 64"
    using assms by (simp add: push_bit_eq_mult unat_mult_lem [THEN iffD1])
  have "?x = take_bit 6 ?x"
    by (simp only: word_unat_eq_iff unsigned_take_bit_eq x) (simp add: take_bit_eq_mod)
  then have "push_bit 6 code AND ?x = 0"
    by (metis (no_types) bit_eq_iff bit_and_iff bit_push_bit_iff bit_take_bit_iff bit_0_eq bot_apply bot_bool_def not_le)
  then have "push_bit 6 code OR ?x = push_bit 6 code + ?x" by (simp add: disjunctive_add_eq_or)
  moreover have "unat (push_bit 6 code) + unat ?x < 2 ^ 32" using assms x p by simp
  ultimately show ?thesis using x p by (simp add: unat_add_lem [THEN iffD1])
qed

definition scalarValue :: "nat \<Rightarrow> bool" where
  "scalarValue c \<longleftrightarrow> c \<le> 0x10FFFF \<and> \<not> (0xD800 \<le> c \<and> c \<le> 0xDFFF)"

text \<open>The encoding of one scalar value, as the standard tabulates it.\<close>

definition utf8Encode :: "nat \<Rightarrow> bytes" where
  "utf8Encode c = map word_of_nat
     (if c < 0x80 then [c]
      else if c < 0x800 then [0xC0 + c div 64, 0x80 + c mod 64]
      else if c < 0x10000 then [0xE0 + c div 4096, 0x80 + c div 64 mod 64, 0x80 + c mod 64]
      else [0xF0 + c div 262144, 0x80 + c div 4096 mod 64, 0x80 + c div 64 mod 64, 0x80 + c mod 64])"

definition joinTail :: "nat \<Rightarrow> bytes \<Rightarrow> nat" where
  "joinTail code bs = foldl (\<lambda>a b. a * 64 + unat b mod 64) code bs"

lemma utf8Tail_iff:
  assumes "Suc (unat code) * 64 ^ n \<le> 2 ^ 32"
  shows "utf8Tail n code text = Some (c, rest) \<longleftrightarrow>
    (\<exists>bs. length bs = n \<and> text = bs @ rest \<and> (\<forall>b \<in> set bs. unat b div 64 = 2) \<and> unat c = joinTail (unat code) bs)"
  using assms
proof (induction n code "text" rule: utf8Tail.induct)
  case (1 code "text")
  then show ?case by (auto simp: joinTail_def word_unat_eq_iff)
next
  case (2 n code)
  then show ?case by auto
next
  case (3 n code b "text")
  let ?code = "push_bit 6 code OR ucast (b AND 0x3F)"
  have "Suc (unat code) * 64 \<le> Suc (unat code) * 64 ^ Suc n" by (intro mult_le_mono) simp_all
  then have "Suc (unat code) * 64 \<le> 2 ^ 32" using 3(2) by linarith
  then have j: "unat ?code = unat code * 64 + unat b mod 64" by (intro unat_join6) simp
  have "Suc (unat ?code) \<le> Suc (unat code) * 64" using j mod_less_divisor [of 64 "unat b"] by simp
  then have "Suc (unat ?code) * 64 ^ n \<le> Suc (unat code) * 64 * 64 ^ n" by (rule mult_le_mono1)
  then have "Suc (unat ?code) * 64 ^ n \<le> Suc (unat code) * 64 ^ Suc n" by (simp only: power_Suc mult.assoc)
  then have le: "Suc (unat ?code) * 64 ^ n \<le> 2 ^ 32" using 3(2) by linarith
  show ?case
  proof (cases "unat b div 64 = 2")
    case True
    then have "utf8Tail (Suc n) code (b # text) = utf8Tail n ?code text" by (simp add: continuation_byte)
    moreover have "joinTail (unat ?code) bs = joinTail (unat code) (b # bs)" for bs by (simp add: joinTail_def j)
    ultimately show ?thesis
      using 3(1) [OF _ le] True continuation_byte [of b]
      by (auto simp: length_Suc_conv)
  next
    case False
    then show ?thesis by (auto simp: continuation_byte length_Suc_conv)
  qed
qed

lemma unat_small_byte: "n < 256 \<Longrightarrow> unat (word_of_nat n :: u8) = n"
  by (simp add: unat_of_nat)

lemma byte_eqI: "n < 256 \<Longrightarrow> unat (b :: u8) = n \<Longrightarrow> b = word_of_nat n"
  by (simp add: word_unat_eq_iff unat_small_byte)

lemma unat_ucast_u8_u32: "unat (ucast (b :: u8) :: u32) = unat b"
proof -
  have "unat b < 256" by (rule unat_byte_lt)
  then show ?thesis by (simp add: unsigned_ucast_eq take_bit_nat_eq_self)
qed

text \<open>A multi-byte sequence the check accepts, in numbers: lead and tail give the code point.\<close>

lemma utf8Lead_some:
  "utf8Lead first = Some (n, code, minimum) \<longleftrightarrow>
     (unat first \<in> {0xC2..0xDF} \<and> n = 1 \<and> unat code = unat first - 0xC0 \<and> minimum = 0x80)
     \<or> (unat first \<in> {0xE0..0xEF} \<and> n = 2 \<and> unat code = unat first - 0xE0 \<and> minimum = 0x800)
     \<or> (unat first \<in> {0xF0..0xF4} \<and> n = 3 \<and> unat code = unat first - 0xF0 \<and> minimum = 0x10000)"
proof -
  have c: "code = ucast x \<longleftrightarrow> unat code = unat x" "ucast x = code \<longleftrightarrow> unat code = unat x" for x :: u8
    by (auto simp: word_unat_eq_iff unat_ucast_u8_u32)
  have m: "unat first mod 32 = unat first - 0xC0" if "unat first \<in> {0xC2..0xDF}"
    using that by (auto simp: mod_nat_eqI)
  have m2: "unat first mod 16 = unat first - 0xE0" if "unat first \<in> {0xE0..0xEF}"
    using that by (auto simp: mod_nat_eqI)
  have m3: "unat first mod 8 = unat first - 0xF0" if "unat first \<in> {0xF0..0xF4}"
    using that by (auto simp: mod_nat_eqI)
  show ?thesis
    unfolding utf8Lead_def word_le_nat_alt
    using m m2 m3 by (auto simp: c unat_low_bits)
qed

lemma joinTail_simps:
  "joinTail code [b1] = code * 64 + unat b1 mod 64"
  "joinTail code [b1, b2] = (code * 64 + unat b1 mod 64) * 64 + unat b2 mod 64"
  "joinTail code [b1, b2, b3] = ((code * 64 + unat b1 mod 64) * 64 + unat b2 mod 64) * 64 + unat b3 mod 64"
  by (simp_all add: joinTail_def)

lemma tail_byte: "unat (b :: u8) div 64 = 2 \<longleftrightarrow> unat b = 0x80 + unat b mod 64"
  using div_mult_mod_eq [of "unat b" 64] by arith

lemma map_bytes_iff:
  "list_all (\<lambda>n. n < 256) ns \<Longrightarrow> bs = map (word_of_nat :: nat \<Rightarrow> u8) ns \<longleftrightarrow> map unat bs = ns"
proof (induction ns arbitrary: bs)
  case (Cons n ns)
  then show ?case by (cases bs) (auto simp: word_unat_eq_iff unat_small_byte)
qed simp

lemma encode_bytes:
  "scalarValue c \<Longrightarrow> bs = utf8Encode c \<longleftrightarrow> map unat bs =
     (if c < 0x80 then [c]
      else if c < 0x800 then [0xC0 + c div 64, 0x80 + c mod 64]
      else if c < 0x10000 then [0xE0 + c div 4096, 0x80 + c div 64 mod 64, 0x80 + c mod 64]
      else [0xF0 + c div 262144, 0x80 + c div 4096 mod 64, 0x80 + c div 64 mod 64, 0x80 + c mod 64])"
  unfolding utf8Encode_def
proof (rule map_bytes_iff)
  assume "scalarValue c"
  then have c: "c \<le> 0x10FFFF" by (simp add: scalarValue_def)
  have d: "c < 0x800 \<Longrightarrow> c div 64 < 32" "c < 0x10000 \<Longrightarrow> c div 4096 < 16" "c div 262144 < 5"
    using c by (simp_all add: less_mult_imp_div_less)
  have m: "x mod 64 < 128" for x :: nat using mod_less_divisor [of 64 x] by linarith
  show "list_all (\<lambda>n. n < 256)
      (if c < 0x80 then [c]
       else if c < 0x800 then [0xC0 + c div 64, 0x80 + c mod 64]
       else if c < 0x10000 then [0xE0 + c div 4096, 0x80 + c div 64 mod 64, 0x80 + c mod 64]
       else [0xF0 + c div 262144, 0x80 + c div 4096 mod 64, 0x80 + c div 64 mod 64, 0x80 + c mod 64])"
    using d m [of c] m [of "c div 64"] m [of "c div 4096"] by auto
qed

lemma tail_bytes:
  "(128 + x mod 64) div 64 = (2 :: nat)" "(128 + x mod 64) mod 64 = (x mod 64 :: nat)"
  by (simp_all add: div_add1_eq mod_add_eq [symmetric])

lemma digits64:
  "(c :: nat) = c div 64 * 64 + c mod 64"
  "c = (c div 64 div 64 * 64 + c div 64 mod 64) * 64 + c mod 64"
  "c = ((c div 64 div 64 div 64 * 64 + c div 64 div 64 mod 64) * 64 + c div 64 mod 64) * 64 + c mod 64"
  by simp_all

lemma digit64: "x < 64 \<Longrightarrow> (a * 64 + x) div 64 = (a :: nat)" "x < 64 \<Longrightarrow> (a * 64 + x) mod 64 = x"
  by simp_all

lemma div_4096: "(c :: nat) div 4096 = c div 64 div 64" "c div 262144 = c div 64 div 64 div 64"
  by (simp_all add: div_mult2_eq [symmetric])

lemma length_1: "length xs = 1 \<longleftrightarrow> (\<exists>a. xs = [a])" by (cases xs) auto

lemma length_2: "length xs = 2 \<longleftrightarrow> (\<exists>a b. xs = [a, b])" by (cases xs) (auto simp: length_1 [simplified])

lemma length_3: "length xs = 3 \<longleftrightarrow> (\<exists>a b c. xs = [a, b, c])"
proof (cases xs)
  case (Cons a ys)
  then show ?thesis using length_2 [of ys] by auto
qed simp

lemma encode_bound1: "c div 64 < 32 \<Longrightarrow> (c :: nat) < 0x800" by simp

lemma encode_bound2: "c div 64 div 64 < 16 \<Longrightarrow> (c :: nat) < 0x10000" by (simp add: div_mult2_eq [symmetric])

lemma encode_top: "scalarValue c \<Longrightarrow> c div 64 div 64 div 64 < 5" "c < 0x800 \<Longrightarrow> c div 64 < 32"
  "c < 0x10000 \<Longrightarrow> c div 64 div 64 < 16"
  by (simp_all add: scalarValue_def div_mult2_eq [symmetric] less_mult_imp_div_less)

lemma encode_1:
  assumes "scalarValue c" "unat first \<in> {0xC2..0xDF}"
  shows "first # bs = utf8Encode c \<and> 0x80 \<le> c \<longleftrightarrow>
    length bs = 1 \<and> (\<forall>b \<in> set bs. unat b div 64 = 2) \<and> c = joinTail (unat first - 0xC0) bs \<and> 0x80 \<le> c" (is "?L \<longleftrightarrow> ?R")
proof
  assume L: ?L
  then have m: "0x80 \<le> c" "first # bs = utf8Encode c" by blast+
  have "map unat (first # bs) = [0xC0 + c div 64, 0x80 + c mod 64]" "0x80 \<le> c"
    using m(2) [unfolded encode_bytes [OF assms(1)]] m(1) assms encode_top [of c]
    by (auto simp: div_4096 split: if_splits)
  then show ?R
    using digits64(1) [of c] by (auto simp: tail_bytes joinTail_simps)
next
  assume R: ?R
  then obtain b1 where "bs = [b1]" by (auto simp: length_1 [simplified])
  with R have b: "bs = [b1]" "unat b1 div 64 = 2" "c = joinTail (unat first - 0xC0) [b1]"
    by auto
  note c = b(3) [unfolded joinTail_simps]
  have d1: "c div 64 = (unat first - 0xC0)" "c mod 64 = unat b1 mod 64"
    unfolding c by (simp_all only: digit64 mod_less_divisor zero_less_numeral)
  have "0x80 \<le> c" using R by simp
  have "c < 0x800" using d1(1) assms(2) encode_bound1 [of c] by auto
  then have "map unat (first # bs) = [0xC0 + c div 64, 0x80 + c mod 64]"
    using b(1) assms(2) tail_byte [THEN iffD1, OF b(2)] by (simp add: d1)
  then show ?L using assms encode_bytes [of c "first # bs"] \<open>0x80 \<le> c\<close> \<open>c < 0x800\<close> by (simp add: div_4096)
qed

lemma encode_2:
  assumes "scalarValue c" "unat first \<in> {0xE0..0xEF}"
  shows "first # bs = utf8Encode c \<and> 0x80 \<le> c \<longleftrightarrow>
    length bs = 2 \<and> (\<forall>b \<in> set bs. unat b div 64 = 2) \<and> c = joinTail (unat first - 0xE0) bs \<and> 0x800 \<le> c" (is "?L \<longleftrightarrow> ?R")
proof
  assume L: ?L
  then have m: "0x80 \<le> c" "first # bs = utf8Encode c" by blast+
  have "map unat (first # bs) = [0xE0 + c div 64 div 64, 0x80 + c div 64 mod 64, 0x80 + c mod 64]" "0x800 \<le> c"
    using m(2) [unfolded encode_bytes [OF assms(1)]] m(1) assms encode_top [of c]
    by (auto simp: div_4096 split: if_splits)
  then show ?R
    using digits64(2) [of c] by (auto simp: tail_bytes joinTail_simps)
next
  assume R: ?R
  then obtain b1 b2 where "bs = [b1, b2]" by (auto simp: length_2)
  with R have b: "bs = [b1, b2]" "unat b1 div 64 = 2" "unat b2 div 64 = 2" "c = joinTail (unat first - 0xE0) [b1, b2]"
    by auto
  note c = b(4) [unfolded joinTail_simps]
  have d1: "c div 64 = ((unat first - 0xE0) * 64 + unat b1 mod 64)" "c mod 64 = unat b2 mod 64"
    unfolding c by (simp_all only: digit64 mod_less_divisor zero_less_numeral)
  have d2: "c div 64 div 64 = (unat first - 0xE0)" "c div 64 mod 64 = unat b1 mod 64"
    unfolding d1 by (simp_all only: digit64 mod_less_divisor zero_less_numeral)
  have "0x800 \<le> c" using R by simp
  have "c < 0x10000" using d2(1) assms(2) encode_bound2 [of c] by auto
  then have "map unat (first # bs) = [0xE0 + c div 64 div 64, 0x80 + c div 64 mod 64, 0x80 + c mod 64]"
    using b(1) assms(2) tail_byte [THEN iffD1, OF b(2)] tail_byte [THEN iffD1, OF b(3)] by (simp add: d1(2) d2)
  then show ?L using assms encode_bytes [of c "first # bs"] \<open>0x800 \<le> c\<close> \<open>c < 0x10000\<close> by (simp add: div_4096)
qed

lemma encode_3:
  assumes "scalarValue c" "unat first \<in> {0xF0..0xF4}"
  shows "first # bs = utf8Encode c \<and> 0x80 \<le> c \<longleftrightarrow>
    length bs = 3 \<and> (\<forall>b \<in> set bs. unat b div 64 = 2) \<and> c = joinTail (unat first - 0xF0) bs \<and> 0x10000 \<le> c" (is "?L \<longleftrightarrow> ?R")
proof
  assume L: ?L
  then have m: "0x80 \<le> c" "first # bs = utf8Encode c" by blast+
  have "map unat (first # bs) = [0xF0 + c div 64 div 64 div 64, 0x80 + c div 64 div 64 mod 64, 0x80 + c div 64 mod 64, 0x80 + c mod 64]" "0x10000 \<le> c"
    using m(2) [unfolded encode_bytes [OF assms(1)]] m(1) assms encode_top [of c]
    by (auto simp: div_4096 split: if_splits)
  then show ?R
    using digits64(3) [of c] by (auto simp: tail_bytes joinTail_simps)
next
  assume R: ?R
  then obtain b1 b2 b3 where "bs = [b1, b2, b3]" by (auto simp: length_3)
  with R have b: "bs = [b1, b2, b3]" "unat b1 div 64 = 2" "unat b2 div 64 = 2" "unat b3 div 64 = 2" "c = joinTail (unat first - 0xF0) [b1, b2, b3]"
    by auto
  note c = b(5) [unfolded joinTail_simps]
  have d1: "c div 64 = (((unat first - 0xF0) * 64 + unat b1 mod 64) * 64 + unat b2 mod 64)" "c mod 64 = unat b3 mod 64"
    unfolding c by (simp_all only: digit64 mod_less_divisor zero_less_numeral)
  have d2: "c div 64 div 64 = ((unat first - 0xF0) * 64 + unat b1 mod 64)" "c div 64 mod 64 = unat b2 mod 64"
    unfolding d1 by (simp_all only: digit64 mod_less_divisor zero_less_numeral)
  have d3: "c div 64 div 64 div 64 = (unat first - 0xF0)" "c div 64 div 64 mod 64 = unat b1 mod 64"
    unfolding d2 by (simp_all only: digit64 mod_less_divisor zero_less_numeral)
  have "0x10000 \<le> c" using R by simp
  have "\<not> c < 0x10000" using R by simp
  then have "map unat (first # bs) = [0xF0 + c div 64 div 64 div 64, 0x80 + c div 64 div 64 mod 64, 0x80 + c div 64 mod 64, 0x80 + c mod 64]"
    using b(1) assms(2) tail_byte [THEN iffD1, OF b(2)] tail_byte [THEN iffD1, OF b(3)] tail_byte [THEN iffD1, OF b(4)] by (simp add: d1(2) d2(2) d3)
  then show ?L using assms encode_bytes [of c "first # bs"] \<open>0x10000 \<le> c\<close> \<open>\<not> c < 0x10000\<close> by (simp add: div_4096)
qed

text \<open>A step of the check reads exactly one encoded scalar value.\<close>

lemma utf8_step:
  assumes l: "utf8Lead first = Some (n, code, minimum)"
  shows "utf8Tail n code text = Some (c, rest) \<and> \<not> (c < minimum \<or> 0x10FFFF < c \<or> (0xD800 \<le> c \<and> c \<le> 0xDFFF))
    \<longleftrightarrow> scalarValue (unat c) \<and> 0x80 \<le> unat c \<and> first # text = utf8Encode (unat c) @ rest"
    (is "?L \<longleftrightarrow> ?R")
proof -
  have "Suc (unat code) * 64 ^ n \<le> 2 ^ 32" using l by (auto simp: utf8Lead_some)
  note t = utf8Tail_iff [OF this]
  have b: "\<not> (c < minimum \<or> 0x10FFFF < c \<or> (0xD800 \<le> c \<and> c \<le> 0xDFFF)) \<longleftrightarrow> unat minimum \<le> unat c \<and> scalarValue (unat c)"
    by (auto simp: scalarValue_def word_le_nat_alt word_less_nat_alt)
  have k: "first # bs = utf8Encode (unat c) \<and> 0x80 \<le> unat c \<longleftrightarrow>
      length bs = n \<and> (\<forall>b \<in> set bs. unat b div 64 = 2) \<and> unat c = joinTail (unat code) bs \<and> unat minimum \<le> unat c"
    if "scalarValue (unat c)" for bs
    using l encode_1 [OF that, of first bs] encode_2 [OF that, of first bs] encode_3 [OF that, of first bs]
    unfolding utf8Lead_some by auto
  have "?R \<longleftrightarrow> scalarValue (unat c) \<and> (\<exists>bs. (first # bs = utf8Encode (unat c) \<and> 0x80 \<le> unat c) \<and> text = bs @ rest)"
    by (cases "utf8Encode (unat c)") (auto simp: utf8Encode_def split: if_splits)
  then show ?thesis using t [of "text" c rest] b k by blast
qed

lemma utf8Encode_lead:
  assumes "scalarValue c" "0x80 \<le> c"
  obtains first bs n code minimum where "utf8Encode c = first # bs" "utf8Lead first = Some (n, code, minimum)" "\<not> first < 0x80"
proof -
  obtain first bs where f: "utf8Encode c = first # bs" by (cases "utf8Encode c") (auto simp: utf8Encode_def split: if_splits)
  have d: "2 \<le> c div 64" "c < 0x800 \<Longrightarrow> c div 64 < 32" "c < 0x10000 \<Longrightarrow> c div 4096 < 16" "c div 262144 < 5"
    using assms by (auto simp: scalarValue_def less_mult_imp_div_less)
  then have "unat first \<in> {0xC2..0xDF} \<or> unat first \<in> {0xE0..0xEF} \<or> unat first \<in> {0xF0..0xF4}"
    using encode_bytes [OF assms(1), of "first # bs"] f assms(2) by (auto split: if_splits)
  then obtain n code minimum where "utf8Lead first = Some (n, code, minimum)"
    by (auto simp: utf8Lead_def word_le_nat_alt)
  moreover have "\<not> first < 0x80"
    using \<open>unat first \<in> {0xC2..0xDF} \<or> unat first \<in> {0xE0..0xEF} \<or> unat first \<in> {0xF0..0xF4}\<close>
    by (auto simp: word_less_nat_alt)
  ultimately show ?thesis using f that by blast
qed

lemma validUtf8_encode: 
  assumes "scalarValue c"
  shows "validUtf8 (utf8Encode c @ rest) = validUtf8 rest"
proof (cases "c < 0x80")
  case True
  then have "(word_of_nat c :: u8) < 0x80" by (simp add: word_less_nat_alt unat_of_nat)
  with True show ?thesis by (simp add: utf8Encode_def)
next
  case False
  then have "0x80 \<le> c" by simp
  then obtain first bs n code minimum where f: "utf8Encode c = first # bs" "utf8Lead first = Some (n, code, minimum)" "\<not> first < 0x80"
    by (rule utf8Encode_lead [OF assms])
  have "c < 2 ^ 32" using assms by (simp add: scalarValue_def)
  then have u: "unat (word_of_nat c :: u32) = c" by (simp add: unat_of_nat)
  have s: "utf8Tail n code (bs @ rest) = Some (word_of_nat c, rest)"
    "\<not> (word_of_nat c < minimum \<or> 0x10FFFF < (word_of_nat c :: u32) \<or> (0xD800 \<le> (word_of_nat c :: u32) \<and> (word_of_nat c :: u32) \<le> 0xDFFF))"
    using utf8_step [OF f(2), of "bs @ rest" "word_of_nat c" rest] u f(1) assms \<open>0x80 \<le> c\<close> by simp_all
  have "Suc (unat code) * 64 ^ n \<le> 2 ^ 32" using f(2) by (auto simp: utf8Lead_some)
  with s(1) have "\<not> length (bs @ rest) < n" by (auto simp: utf8Tail_iff)
  then show ?thesis using f s(1) by (simp only: append_Cons validUtf8.simps option.case prod.case if_False s(2))
qed

lemma validUtf8_decode: "validUtf8 text \<Longrightarrow> \<exists>cs. list_all scalarValue cs \<and> text = concat (map utf8Encode cs)"
proof (induction "text" rule: validUtf8.induct)
  case 1
  show ?case by (intro exI [of _ "[]"]) simp
next
  case (2 first "text")
  show ?case
  proof (cases "first < 0x80")
    case True
    then obtain cs where "list_all scalarValue cs" "text = concat (map utf8Encode cs)" using 2 by auto
    moreover have "scalarValue (unat first)" "utf8Encode (unat first) = [first]"
      using True by (auto simp: scalarValue_def utf8Encode_def word_less_nat_alt)
    ultimately show ?thesis by (intro exI [of _ "unat first # cs"]) simp
  next
    case False
    then obtain n code minimum c rest where l: "utf8Lead first = Some (n, code, minimum)"
      and t: "utf8Tail n code text = Some (c, rest)" "\<not> (c < minimum \<or> 0x10FFFF < c \<or> (0xD800 \<le> c \<and> c \<le> 0xDFFF))"
      and v: "validUtf8 rest" "\<not> length text < n"
      using 2(3) by (auto split: option.splits prod.splits if_splits)
    then obtain cs where "list_all scalarValue cs" "rest = concat (map utf8Encode cs)"
      using 2(2) [OF False l refl refl v(2) t(1) refl t(2) v(1)] by auto
    moreover have "scalarValue (unat c)" "first # text = utf8Encode (unat c) @ rest"
      using utf8_step [OF l, of "text" c rest] t by blast+
    ultimately show ?thesis by (intro exI [of _ "unat c # cs"]) simp
  qed
qed

lemma validUtf8_concat: "list_all scalarValue cs \<Longrightarrow> validUtf8 (concat (map utf8Encode cs))"
  by (induction cs) (simp_all add: validUtf8_encode)

section \<open>Reading text back\<close>

text \<open>
  The reading side of a text field: a JSON string with the escapes of the standard that matter
  here, a hexadecimal string, and the two objects the encoder writes.
\<close>

definition unhexDigit :: "u8 \<Rightarrow> nat option" where
  "unhexDigit c = (if 48 \<le> c \<and> c \<le> 57 then Some (unat c - 48)
                   else if 97 \<le> c \<and> c \<le> 102 then Some (unat c - 87) else None)"

definition unhexPair :: "u8 \<Rightarrow> u8 \<Rightarrow> u8 option" where
  "unhexPair h l = (case unhexDigit h of None \<Rightarrow> None | Some a \<Rightarrow>
     (case unhexDigit l of None \<Rightarrow> None | Some b \<Rightarrow> Some (word_of_nat (a * 16 + b))))"

definition consTo :: "u8 \<Rightarrow> (bytes \<times> bytes) option \<Rightarrow> (bytes \<times> bytes) option" where
  "consTo b r = map_option (\<lambda>(bs, rest). (b # bs, rest)) r"

fun unhexString :: "bytes \<Rightarrow> (bytes \<times> bytes) option" where
  "unhexString (h # l # s) =
     (if h = 34 then Some ([], l # s)
      else case unhexPair h l of None \<Rightarrow> None | Some b \<Rightarrow> consTo b (unhexString s))"
| "unhexString [h] = (if h = 34 then Some ([], []) else None)"
| "unhexString [] = None"

fun unquote :: "bytes \<Rightarrow> (bytes \<times> bytes) option" where
  "unquote [] = None"
| "unquote (b # s) =
     (if b = 34 then Some ([], s)
      else if b = 92 then
        (case s of
           [] \<Rightarrow> None
         | c # s1 \<Rightarrow>
             if c \<noteq> 117 then (if c = 34 \<or> c = 92 then consTo c (unquote s1) else None)
             else case s1 of
               z1 # z2 # h # l # s2 \<Rightarrow>
                 (if z1 = 48 \<and> z2 = 48
                  then case unhexPair h l of None \<Rightarrow> None | Some b \<Rightarrow> consTo b (unquote s2)
                  else None)
             | _ \<Rightarrow> None)
      else if b < 0x20 then None
      else consTo b (unquote s))"

definition stripPrefix :: "bytes \<Rightarrow> bytes \<Rightarrow> bytes option" where
  "stripPrefix p s = (if take (length p) s = p then Some (drop (length p) s) else None)"

definition readText :: "bytes \<Rightarrow> (bytes \<times> bytes) option" where
  \<open>readText s =
     (case stripPrefix (bytesOfString ''{"encoding":"utf8","value":"'') s of
        Some body \<Rightarrow>
          (case unquote body of None \<Rightarrow> None
           | Some (bs, rest) \<Rightarrow> map_option (Pair bs) (stripPrefix (bytesOfString ''}'') rest))
      | None \<Rightarrow>
          (case stripPrefix (bytesOfString ''{"encoding":"hex","value":"'') s of
             None \<Rightarrow> None
           | Some body \<Rightarrow>
               (case unhexString body of None \<Rightarrow> None
                | Some (bs, rest) \<Rightarrow> map_option (Pair bs) (stripPrefix (bytesOfString ''}'') rest))))\<close>

lemma hexDigit_value:
  assumes "n < 16"
  shows "unhexDigit (hd (bytesOfString [cHexDigits ! n])) = Some n \<and> hd (bytesOfString [cHexDigits ! n]) \<noteq> 34"
proof -
  have "\<forall>n \<in> {..<16}. unhexDigit (hd (bytesOfString [cHexDigits ! n])) = Some n
      \<and> hd (bytesOfString [cHexDigits ! n]) \<noteq> 34"
    by code_simp
  then show ?thesis using assms by blast
qed

lemma hexByte_shape: obtains h l where "hexByte b = [h, l]" "unhexPair h l = Some b" "h \<noteq> 34"
proof -
  have hi: "unat (drop_bit 4 b) = unat b div 16" by (simp only: unat_drop_bit_eq) (simp add: drop_bit_eq_div)
  have "unat b < 256" by (rule unat_byte_lt)
  then have "unat b div 16 < 16" "unat b mod 16 < 16" by auto
  note d = this [THEN hexDigit_value]
  have "word_of_nat (unat b div 16 * 16 + unat b mod 16) = b" by (simp only: div_mult_mod_eq) simp
  then show ?thesis using d
    by (intro that [of "hd (bytesOfString [cHexDigits ! (unat b div 16)])" "hd (bytesOfString [cHexDigits ! (unat b mod 16)])"])
      (simp_all add: hexByte_def hi unat_low_bits bytesOfString_def unhexPair_def)
qed

lemma unhexString_hex: "unhexString (concat (map hexByte bs) @ 34 # rest) = Some (bs, rest)"
proof (induction bs)
  case Nil
  show ?case by (cases rest) simp_all
next
  case (Cons b bs)
  obtain h l where "hexByte b = [h, l]" "unhexPair h l = Some b" "h \<noteq> 34" by (rule hexByte_shape)
  then show ?case using Cons by (simp add: consTo_def)
qed

lemma unquote_escape: "unquote (escapeByte b @ s) = consTo b (unquote s)"
proof -
  obtain h l where "hexByte b = [h, l]" "unhexPair h l = Some b" by (rule hexByte_shape)
  then show ?thesis by (simp add: escapeByte_def)
qed

lemma unquote_quoted: "unquote (concat (map escapeByte bs) @ 34 # rest) = Some (bs, rest)"
  by (induction bs) (simp_all add: unquote_escape, simp add: consTo_def)

lemma stripPrefix_append [simp]: "stripPrefix p (p @ s) = Some s"
  by (simp add: stripPrefix_def)

lemma readText_utf8:
  \<open>readText (bytesOfString ''{"encoding":"utf8","value":"'' @ body) =
     (case unquote body of None \<Rightarrow> None
      | Some (bs, rest) \<Rightarrow> map_option (Pair bs) (stripPrefix (bytesOfString ''}'') rest))\<close>
  by (simp add: readText_def)

lemma readText_hex:
  \<open>readText (bytesOfString ''{"encoding":"hex","value":"'' @ body) =
     (case unhexString body of None \<Rightarrow> None
      | Some (bs, rest) \<Rightarrow> map_option (Pair bs) (stripPrefix (bytesOfString ''}'') rest))\<close>
proof -
  have \<open>stripPrefix (bytesOfString ''{"encoding":"utf8","value":"'') (bytesOfString ''{"encoding":"hex","value":"'' @ body) = None\<close>
    by (simp add: stripPrefix_def bytesOfString_def)
  then show ?thesis by (simp add: readText_def)
qed

lemma bytesOfString_append: "bytesOfString (a @ b) = bytesOfString a @ bytesOfString b"
  by (simp add: bytesOfString_def)

lemma readText_appendText: "readText (appendText [] bs @ rest) = Some (bs, rest)"
proof (cases "validUtf8 bs")
  case True
  have \<open>appendText [] bs @ rest = bytesOfString ''{"encoding":"utf8","value":"'' @
      concat (map escapeByte bs) @ 34 # bytesOfString ''}'' @ rest\<close>
    using True by (simp add: appendQuoted_def appendText_def bytesOfString_def)
  then show ?thesis by (simp only: readText_utf8 unquote_quoted) (simp add: stripPrefix_append)
next
  case False
  have \<open>bytesOfString ''"}'' = 34 # bytesOfString ''}''\<close> by (simp add: bytesOfString_def)
  then have \<open>appendText [] bs @ rest = bytesOfString ''{"encoding":"hex","value":"'' @
      concat (map hexByte bs) @ 34 # bytesOfString ''}'' @ rest\<close>
    using False by (simp add: appendText_def appendHex_def)
  then show ?thesis by (simp only: readText_hex unhexString_hex) (simp add: stripPrefix_append)
qed

section \<open>Properties\<close>

text \<open>
  C15. The UTF-8 check accepts exactly the encodings of sequences of Unicode scalar values:
  overlong forms, surrogates, values past 10FFFF and truncated sequences are all refused,
  and nothing well formed is.
\<close>

theorem utf8_check_exact:
  "validUtf8 text \<longleftrightarrow> (\<exists>cs. list_all scalarValue cs \<and> text = concat (map utf8Encode cs))"
  using validUtf8_concat validUtf8_decode by blast

text \<open>
  C16. A text field of the JSON form loses nothing: whatever the bytes, the object written
  for them reads back as the same bytes and leaves what follows it untouched, through the
  quoted form for UTF-8 and the hexadecimal one for everything else.
\<close>

theorem text_field_roundtrip: "readText (appendText [] bs @ rest) = Some (bs, rest)"
  by (rule readText_appendText)

text \<open>
  The JSON form never throws on merged output: for any set of images, damaged or not,
  every entry of the merged stream formats, so neither the missing-site and
  argument-count checks nor a variant access can fail.
\<close>

theorem merged_entries_format:
  "list_all (\<lambda>entry. \<exists>json. formatJson showGeneral showShortest entry name = Inr json)
     (fst (merged (mergerOf imgs)))"
  by (auto simp: list_all_iff intro: formatJson_typed merged_typed)

end
