(* ===== verification/FileMapping.thy ===== *)
theory FileMapping
  imports Segment "HOL-Library.Multiset"
begin

text \<open>
  \<open>FileMapping\<close> of \<^verbatim>\<open>include/sub0log/detail/platform.hpp\<close>, POSIX arm.  The file system maps
  paths to contents; a shared mapping is the file's contents themselves.  What the
  operating system answers beyond the documented rules (an exclusive open of an existing
  file fails, a mapping of no bytes fails) is an argument.
\<close>

section \<open>The system\<close>

record FileSystem =
  fs_files :: "string \<rightharpoonup> bytes"
  fs_open :: "nat list"
  fs_mapped :: "nat list"

text \<open>The answers of one call: \<open>Inl errno\<close>, or the descriptor and the address.\<close>

record MapAnswers =
  ma_open :: "int + nat"
  ma_size :: "int + unit"
  ma_mmap :: "int + nat"

abbreviation cEEXIST :: int where "cEEXIST \<equiv> 17"
abbreviation cENOENT :: int where "cENOENT \<equiv> 2"
abbreviation cEINVAL :: int where "cEINVAL \<equiv> 22"

definition openExclusive :: "string \<Rightarrow> int + nat \<Rightarrow> FileSystem \<Rightarrow> int + nat \<times> FileSystem" where
  "openExclusive path answer fs =
     (if path \<in> dom (fs_files fs) then Inl cEEXIST
      else case answer of
             Inl errno \<Rightarrow> Inl errno
           | Inr fd \<Rightarrow> Inr (fd, fs\<lparr>fs_files := (fs_files fs)(path \<mapsto> []), fs_open := fd # fs_open fs\<rparr>))"

definition openExisting :: "string \<Rightarrow> int + nat \<Rightarrow> FileSystem \<Rightarrow> int + nat \<times> FileSystem" where
  "openExisting path answer fs =
     (if path \<notin> dom (fs_files fs) then Inl cENOENT
      else case answer of
             Inl errno \<Rightarrow> Inl errno
           | Inr fd \<Rightarrow> Inr (fd, fs\<lparr>fs_open := fd # fs_open fs\<rparr>))"

definition ftruncate :: "string \<Rightarrow> u64 \<Rightarrow> int + unit \<Rightarrow> FileSystem \<Rightarrow> int + FileSystem" where
  "ftruncate path len answer fs =
     (if sint len < 0 then Inl cEINVAL
      else case answer of
             Inl errno \<Rightarrow> Inl errno
           | Inr u \<Rightarrow> Inr (fs\<lparr>fs_files := (fs_files fs)(path \<mapsto> replicate (unat len) 0)\<rparr>))"

definition mmap :: "nat \<Rightarrow> int + nat \<Rightarrow> FileSystem \<Rightarrow> int + nat \<times> FileSystem" where
  "mmap len answer fs =
     (if len = 0 then Inl cEINVAL
      else case answer of
             Inl errno \<Rightarrow> Inl errno
           | Inr base \<Rightarrow> Inr (base, fs\<lparr>fs_mapped := base # fs_mapped fs\<rparr>))"

definition closeFile :: "nat \<Rightarrow> FileSystem \<Rightarrow> FileSystem" where
  "closeFile fd fs = fs\<lparr>fs_open := remove1 fd (fs_open fs)\<rparr>"

definition munmap :: "nat \<Rightarrow> FileSystem \<Rightarrow> FileSystem" where
  "munmap base fs = fs\<lparr>fs_mapped := remove1 base (fs_mapped fs)\<rparr>"

section \<open>The mapping object\<close>

record Mapping =
  fm_base :: nat
  fm_size :: nat
  fm_file :: "nat option"
  fm_error :: PlatformError

definition emptyMapping :: Mapping where
  "emptyMapping = \<lparr>fm_base = 0, fm_size = 0, fm_file = None, fm_error = noError\<rparr>"

definition mappingValid :: "Mapping \<Rightarrow> bool" where
  "mappingValid m \<longleftrightarrow> fm_base m \<noteq> 0"

definition mappingFailed :: "int \<Rightarrow> string \<Rightarrow> Mapping" where
  "mappingFailed errno what = emptyMapping\<lparr>fm_error := \<lparr>pe_code = errno, pe_what = what\<rparr>\<rparr>"

definition releaseMapping :: "Mapping \<Rightarrow> FileSystem \<Rightarrow> Mapping \<times> FileSystem" where
  "releaseMapping m fs =
     (let fs1 = (if fm_base m \<noteq> 0 then munmap (fm_base m) fs else fs);
          fs2 = (case fm_file m of Some fd \<Rightarrow> closeFile fd fs1 | None \<Rightarrow> fs1)
      in (m\<lparr>fm_base := 0, fm_size := 0, fm_file := None\<rparr>, fs2))"

text \<open>Move construction: the new object and the emptied one; move assignment releases first.\<close>

definition moveMapping :: "Mapping \<Rightarrow> Mapping \<times> Mapping" where
  "moveMapping other = (other, other\<lparr>fm_base := 0, fm_size := 0, fm_file := None\<rparr>)"

definition assignMapping :: "Mapping \<Rightarrow> Mapping \<Rightarrow> FileSystem \<Rightarrow> Mapping \<times> Mapping \<times> FileSystem" where
  "assignMapping self other fs =
     (let (released, fs1) = releaseMapping self fs
      in (released\<lparr>fm_base := fm_base other, fm_size := fm_size other, fm_file := fm_file other, fm_error := fm_error other\<rparr>,
          other\<lparr>fm_base := 0, fm_size := 0, fm_file := None\<rparr>, fs1))"

definition createMapping :: "MapAnswers \<Rightarrow> string \<Rightarrow> u64 \<Rightarrow> FileSystem \<Rightarrow> Mapping \<times> FileSystem" where
  "createMapping answers path len fs =
     (case openExclusive path (ma_open answers) fs of
        Inl errno \<Rightarrow> (mappingFailed errno ''open'', fs)
      | Inr (fd, fs1) \<Rightarrow>
        case ftruncate path len (ma_size answers) fs1 of
          Inl errno \<Rightarrow> (mappingFailed errno ''ftruncate'', closeFile fd fs1)
        | Inr fs2 \<Rightarrow>
          case mmap (unat len) (ma_mmap answers) fs2 of
            Inl errno \<Rightarrow> (mappingFailed errno ''mmap'', closeFile fd fs2)
          | Inr (base, fs3) \<Rightarrow>
              (\<lparr>fm_base = base, fm_size = unat len, fm_file = Some fd, fm_error = noError\<rparr>, fs3))"

definition openReadOnly :: "MapAnswers \<Rightarrow> string \<Rightarrow> FileSystem \<Rightarrow> Mapping \<times> FileSystem" where
  "openReadOnly answers path fs =
     (case openExisting path (ma_open answers) fs of
        Inl errno \<Rightarrow> (mappingFailed errno ''open'', fs)
      | Inr (fd, fs1) \<Rightarrow>
        case ma_size answers of
          Inl errno \<Rightarrow> (mappingFailed errno ''fstat'', closeFile fd fs1)
        | Inr u \<Rightarrow>
          let len = length (the (fs_files fs1 path))
          in case mmap len (ma_mmap answers) fs1 of
               Inl errno \<Rightarrow> (mappingFailed errno ''mmap'', closeFile fd fs1)
             | Inr (base, fs2) \<Rightarrow>
                 (\<lparr>fm_base = base, fm_size = len, fm_file = Some fd, fm_error = noError\<rparr>, fs2))"

text \<open>What \<open>Segment.create\<close> gets from \<open>FileMapping::create\<close>: an error, or the mapped bytes.\<close>

definition mapFor :: "MapAnswers \<Rightarrow> FileSystem \<Rightarrow> string \<Rightarrow> u64 \<Rightarrow> PlatformError + bytes" where
  "mapFor answers fs path len =
     (let (m, fs') = createMapping answers path len fs
      in if mappingValid m then Inr (take (fm_size m) (the (fs_files fs' path))) else Inl (fm_error m))"

section \<open>Ownership\<close>

text \<open>What an object owns of the system.\<close>

definition owned :: "Mapping \<Rightarrow> nat multiset \<times> nat multiset" where
  "owned m = (case fm_file m of None \<Rightarrow> {#} | Some fd \<Rightarrow> {#fd#}, if fm_base m = 0 then {#} else {#fm_base m#})"

definition ownership :: "FileSystem \<Rightarrow> Mapping \<Rightarrow> FileSystem \<Rightarrow> bool" where
  "ownership fs m fs' \<longleftrightarrow>
     mset (fs_open fs') = mset (fs_open fs) + fst (owned m) \<and> mset (fs_mapped fs') = mset (fs_mapped fs) + snd (owned m)"

definition mapped :: "MapAnswers \<Rightarrow> bool" where
  "mapped answers \<longleftrightarrow> (case ma_mmap answers of Inr base \<Rightarrow> base \<noteq> 0 | Inl _ \<Rightarrow> True)"

lemma createMapping_ownership:
  assumes "createMapping answers path len fs = (m, fs')" and "mapped answers"
  shows "ownership fs m fs'" "mappingValid m \<longleftrightarrow> \<not> hasError (fm_error m)"
    and "\<forall>p. p \<noteq> path \<longrightarrow> fs_files fs' p = fs_files fs p"
    and "path \<in> dom (fs_files fs) \<Longrightarrow> fs_files fs' path = fs_files fs path \<and> \<not> mappingValid m"
    and "mappingValid m \<Longrightarrow> path \<notin> dom (fs_files fs) \<and> fs_files fs' path = Some (replicate (unat len) 0) \<and> fm_size m = unat len \<and> len \<noteq> 0"
  using assms
  by (auto simp: createMapping_def openExclusive_def ftruncate_def mmap_def mappingFailed_def emptyMapping_def ownership_def
      owned_def mappingValid_def closeFile_def hasError_def noError_def mapped_def unat_eq_0
      split: sum.splits if_splits)

lemma openReadOnly_ownership:
  assumes "openReadOnly answers path fs = (m, fs')" and "mapped answers"
  shows "ownership fs m fs'" "fs_files fs' = fs_files fs" "mappingValid m \<longleftrightarrow> \<not> hasError (fm_error m)"
    and "mappingValid m \<Longrightarrow> \<exists>bs. fs_files fs path = Some bs \<and> fm_size m = length bs \<and> bs \<noteq> []"
  using assms
  by (auto simp: openReadOnly_def openExisting_def mmap_def mappingFailed_def emptyMapping_def ownership_def Let_def
      owned_def mappingValid_def closeFile_def hasError_def noError_def mapped_def
      split: sum.splits if_splits)

lemma releaseMapping_returns:
  assumes "ownership fs m fs'" and "releaseMapping m fs' = (m', fs'')"
  shows "mset (fs_open fs'') = mset (fs_open fs)" "mset (fs_mapped fs'') = mset (fs_mapped fs)" "owned m' = ({#}, {#})"
    "fs_files fs'' = fs_files fs'"
  using assms
  by (auto simp: ownership_def releaseMapping_def Let_def owned_def munmap_def closeFile_def split: option.splits if_splits)

definition exampleFs :: FileSystem where
  "exampleFs = \<lparr>fs_files = Map.empty, fs_open = [0, 1, 2], fs_mapped = []\<rparr>"

definition exampleMapAnswers :: MapAnswers where
  "exampleMapAnswers = \<lparr>ma_open = Inr 3, ma_size = Inr (), ma_mmap = Inr 4096\<rparr>"

section \<open>Properties\<close>

text \<open>
  C35. Creating a mapped file is exclusive and leaves nothing behind it does not own: an
  existing file is refused and keeps its contents, no other file changes, success means a
  new file of exactly the requested size, all zero; in every case the descriptors and
  mappings open afterwards are those from before plus the object's own, and releasing the
  object gives them back without touching a file.
\<close>

theorem mapping_exclusive:
  assumes "mapped answers" and "createMapping answers path len fs = (m, fs')" and "releaseMapping m fs' = (m', fs'')"
  shows "ownership fs m fs' \<and> (mappingValid m = (\<not> hasError (fm_error m)))
    \<and> (\<forall>p. p \<noteq> path \<longrightarrow> fs_files fs' p = fs_files fs p)
    \<and> (case fs_files fs path of
         Some bs \<Rightarrow> fs_files fs' path = Some bs \<and> \<not> mappingValid m
       | None \<Rightarrow> mappingValid m \<longrightarrow> fs_files fs' path = Some (replicate (unat len) 0) \<and> fm_size m = unat len)
    \<and> mset (fs_open fs'') = mset (fs_open fs) \<and> mset (fs_mapped fs'') = mset (fs_mapped fs) \<and> fs_files fs'' = fs_files fs'"
  using createMapping_ownership [OF assms(2,1)] releaseMapping_returns [OF _ assms(3), of fs]
  by (cases "fs_files fs path") (auto simp: domIff)

theorem mapping_exclusive_witness:
  "mset (fs_open (snd (releaseMapping (fst (createMapping exampleMapAnswers ''a'' 64 exampleFs))
      (snd (createMapping exampleMapAnswers ''a'' 64 exampleFs))))) = {#0, 1, 2#}"
proof -
  obtain m fs' where m: "createMapping exampleMapAnswers ''a'' 64 exampleFs = (m, fs')" by fastforce
  obtain m' fs'' where r: "releaseMapping m fs' = (m', fs'')" by fastforce
  have "mapped exampleMapAnswers" by (simp add: mapped_def exampleMapAnswers_def)
  from mapping_exclusive [OF this m r] have "mset (fs_open fs'') = mset (fs_open exampleFs)" by blast
  then show ?thesis unfolding m fst_conv snd_conv r by (simp add: exampleFs_def)
qed

end
