(* ===== verification/CommandLine.thy ===== *)
theory CommandLine
  imports Prelude
begin

text \<open>
  The Windows command line of \<^verbatim>\<open>include/sub0log/child.hpp\<close>: quoting one argument and joining
  an argument vector, against the documented splitting rules as the test suite writes them
  down (\<^verbatim>\<open>tests/system/child.test.cpp\<close>).  Text is a list of bytes: the quotation mark is 34,
  the backslash 92, space 32 and tab 9.
\<close>

section \<open>Quoting\<close>

abbreviation Quote :: byte where "Quote \<equiv> 34"
abbreviation Backslash :: byte where "Backslash \<equiv> 92"
abbreviation Space :: byte where "Space \<equiv> 32"
abbreviation Tab :: byte where "Tab \<equiv> 9"

definition plainChar :: "byte \<Rightarrow> bool" where
  "plainChar c \<longleftrightarrow> c \<noteq> Space \<and> c \<noteq> Tab \<and> c \<noteq> Quote"

text \<open>The loop over the argument with the count of pending backslashes, and what follows it.\<close>

fun quoteLoop :: "nat \<Rightarrow> bytes \<Rightarrow> bytes \<Rightarrow> bytes" where
  "quoteLoop backslashes out [] = out @ replicate (backslashes * 2) Backslash @ [Quote]"
| "quoteLoop backslashes out (c # arg) =
     (if c = Backslash then quoteLoop (backslashes + 1) out arg
      else if c = Quote
      then quoteLoop 0 (out @ replicate (backslashes * 2 + 1) Backslash @ [Quote]) arg
      else quoteLoop 0 (out @ replicate backslashes Backslash @ [c]) arg)"

definition quoteWindowsCommandLineArgument :: "bytes \<Rightarrow> bytes" where
  "quoteWindowsCommandLineArgument arg =
     (if arg \<noteq> [] \<and> list_all plainChar arg then arg else quoteLoop 0 [Quote] arg)"

fun buildLoop :: "bool \<Rightarrow> bytes \<Rightarrow> bytes list \<Rightarrow> bytes" where
  "buildLoop first result [] = result"
| "buildLoop first result (arg # argv) =
     buildLoop False ((if first then result else result @ [Space]) @ quoteWindowsCommandLineArgument arg) argv"

definition buildWindowsCommandLine :: "bytes list \<Rightarrow> bytes" where
  "buildWindowsCommandLine argv = buildLoop True [] argv"

section \<open>Splitting\<close>

text \<open>The arguments so far, the current one, whether inside quotes, whether one is open.\<close>

function splitLoop :: "bytes list \<Rightarrow> bytes \<Rightarrow> bool \<Rightarrow> bool \<Rightarrow> bytes \<Rightarrow> bytes list" where
  "splitLoop args current inQuotes haveArg [] = (if haveArg then args @ [current] else args)"
| "splitLoop args current inQuotes haveArg (c # s) =
     (if \<not> inQuotes \<and> (c = Space \<or> c = Tab)
      then if haveArg then splitLoop (args @ [current]) [] inQuotes False s
           else splitLoop args current inQuotes haveArg s
      else if c = Backslash
      then let backslashes = Suc (length (takeWhile (\<lambda>b. b = Backslash) s));
               rest = dropWhile (\<lambda>b. b = Backslash) s
           in if rest \<noteq> [] \<and> hd rest = Quote
              then if odd backslashes
                   then splitLoop args (current @ replicate (backslashes div 2) Backslash @ [Quote]) inQuotes True (tl rest)
                   else splitLoop args (current @ replicate (backslashes div 2) Backslash) (\<not> inQuotes) True (tl rest)
              else splitLoop args (current @ replicate backslashes Backslash) inQuotes True rest
      else if c = Quote then splitLoop args current (\<not> inQuotes) True s
      else splitLoop args (current @ [c]) inQuotes True s)"
  by pat_completeness auto
termination
proof (relation "measure (\<lambda>(_, _, _, _, s). length s)", goal_cases)
  case (4 args current inQuotes haveArg c s n rest)
  then show ?case using length_dropWhile_le [of "\<lambda>b. b = Backslash" s] by (simp add: less_Suc_eq_le le_diff_conv)
next
  case (5 args current inQuotes haveArg c s n rest)
  then show ?case using length_dropWhile_le [of "\<lambda>b. b = Backslash" s] by (simp add: less_Suc_eq_le le_diff_conv)
qed (simp_all add: length_dropWhile_le less_Suc_eq_le)

declare splitLoop.simps(2) [simp del]

definition splitWindowsCommandLine :: "bytes \<Rightarrow> bytes list" where
  "splitWindowsCommandLine commandLine = splitLoop [] [] False False commandLine"

section \<open>Splitting what was quoted\<close>

lemma split_ordinary:
  "c \<noteq> Backslash \<Longrightarrow> c \<noteq> Quote \<Longrightarrow> inQuotes \<or> (c \<noteq> Space \<and> c \<noteq> Tab) \<Longrightarrow>
   splitLoop args current inQuotes haveArg (c # s) = splitLoop args (current @ [c]) inQuotes True s"
  by (auto simp: splitLoop.simps(2))

lemma split_quote: "splitLoop args current inQuotes haveArg (Quote # s) = splitLoop args current (\<not> inQuotes) True s"
  by (simp add: splitLoop.simps(2))

lemma split_space:
  "splitLoop args current False True (Space # s) = splitLoop (args @ [current]) [] False False s"
  by (simp add: splitLoop.simps(2))

lemma run_simps [simp]:
  "c \<noteq> b \<Longrightarrow> takeWhile (\<lambda>x. x = b) (replicate n b @ c # s) = replicate n b"
  "c \<noteq> b \<Longrightarrow> dropWhile (\<lambda>x. x = b) (replicate n b @ c # s) = c # s"
  by (induction n) simp_all

text \<open>A run of backslashes in front of a quotation mark: the two documented cases.\<close>

lemma split_even:
  "splitLoop args current inQuotes haveArg (replicate (n * 2) Backslash @ Quote # s)
    = splitLoop args (current @ replicate n Backslash) (\<not> inQuotes) True s"
proof (cases n)
  case (Suc m)
  then have "n * 2 = Suc (m * 2 + 1)" by simp
  then show ?thesis using Suc by (simp only: replicate_Suc append_Cons splitLoop.simps(2)) (simp add: Let_def)
qed (simp add: split_quote)

lemma split_odd:
  "splitLoop args current inQuotes haveArg (replicate (n * 2 + 1) Backslash @ Quote # s)
    = splitLoop args (current @ replicate n Backslash @ [Quote]) inQuotes True s"
  by (simp only: Suc_eq_plus1 [symmetric] replicate_Suc append_Cons splitLoop.simps(2)) (simp add: Let_def)

text \<open>Away from a quotation mark a backslash is literal.\<close>

lemma split_literal:
  assumes "\<nexists>r. dropWhile (\<lambda>b. b = Backslash) s = Quote # r"
  shows "splitLoop args current inQuotes haveArg (Backslash # s) = splitLoop args (current @ [Backslash]) inQuotes True s"
proof -
  have r: "\<not> (dropWhile (\<lambda>b. b = Backslash) s \<noteq> [] \<and> hd (dropWhile (\<lambda>b. b = Backslash) s) = Quote)"
    using assms by (metis list.collapse)
  have l: "splitLoop args current inQuotes haveArg (Backslash # s)
      = splitLoop args (current @ replicate (Suc (length (takeWhile (\<lambda>b. b = Backslash) s))) Backslash) inQuotes True
          (dropWhile (\<lambda>b. b = Backslash) s)"
    if "\<not> (dropWhile (\<lambda>b. b = Backslash) s \<noteq> [] \<and> hd (dropWhile (\<lambda>b. b = Backslash) s) = Quote)"
    for s current haveArg
    unfolding splitLoop.simps(2) Let_def if_not_P [OF that] by simp
  show ?thesis
  proof (cases s)
    case (Cons c s')
    then show ?thesis using l [OF r] l [of s'] r by (cases "c = Backslash") simp_all
  qed (simp add: l)
qed

lemma split_run:
  assumes "c \<noteq> Backslash" and "c \<noteq> Quote"
  shows "splitLoop args current True haveArg (replicate n Backslash @ c # s)
    = splitLoop args (current @ replicate n Backslash @ [c]) True True s"
proof (induction n arbitrary: current haveArg)
  case 0
  then show ?case using assms by (simp add: split_ordinary)
next
  case (Suc n)
  have "\<nexists>r. dropWhile (\<lambda>b. b = Backslash) (replicate n Backslash @ c # s) = Quote # r" using assms by simp
  from split_literal [OF this] show ?case using Suc by simp
qed

lemma quoteLoop_append: "quoteLoop n out arg = out @ quoteLoop n [] arg"
proof (induction arg arbitrary: n out)
  case (Cons c arg)
  show ?case
    using Cons [of 0 "out @ replicate n Backslash @ [c]"] Cons [of 0 "replicate n Backslash @ [c]"]
      Cons [of 0 "out @ replicate (n * 2 + 1) Backslash @ [Quote]"] Cons [of 0 "replicate (n * 2 + 1) Backslash @ [Quote]"]
      Cons [of "n + 1" out]
    by simp
qed simp

lemma split_quoted:
  "splitLoop args current True haveArg (quoteLoop n [] arg @ rest)
    = splitLoop args (current @ replicate n Backslash @ arg) False True rest"
proof (induction arg arbitrary: n current haveArg)
  case Nil
  show ?case using split_even [of args current True haveArg n rest] by simp
next
  case (Cons c arg)
  consider "c = Backslash" | "c = Quote" | "c \<noteq> Backslash" "c \<noteq> Quote" by blast
  then show ?case
  proof cases
    case 1
    then show ?thesis using Cons.IH [of current haveArg "n + 1"] by (simp add: replicate_app_Cons_same)
  next
    case 2
    then have "quoteLoop n [] (c # arg) @ rest = replicate (n * 2 + 1) Backslash @ Quote # quoteLoop 0 [] arg @ rest"
      using quoteLoop_append [of 0 "replicate (n * 2 + 1) Backslash @ [Quote]" arg] by simp
    then show ?thesis using 2 Cons.IH [of _ _ 0] by (simp only: split_odd) simp
  next
    case 3
    then have "quoteLoop n [] (c # arg) @ rest = replicate n Backslash @ c # quoteLoop 0 [] arg @ rest"
      using quoteLoop_append [of 0 "replicate n Backslash @ [c]" arg] by simp
    then show ?thesis using 3 Cons.IH [of _ _ 0] by (simp add: split_run)
  qed
qed

definition separated :: "bytes \<Rightarrow> bool" where
  "separated rest \<longleftrightarrow> rest = [] \<or> hd rest = Space"

lemma plain_no_quote:
  assumes "list_all plainChar arg" and "separated rest"
  shows "\<nexists>r. dropWhile (\<lambda>b. b = Backslash) (arg @ rest) = Quote # r"
  using assms
proof (induction arg)
  case Nil
  then show ?case by (cases rest) (auto simp: separated_def)
next
  case (Cons c arg)
  then show ?case by (auto simp: plainChar_def)
qed

lemma split_plain:
  "list_all plainChar arg \<Longrightarrow> separated rest \<Longrightarrow>
   splitLoop args current False haveArg (arg @ rest) = splitLoop args (current @ arg) False (haveArg \<or> arg \<noteq> []) rest"
proof (induction arg arbitrary: current haveArg)
  case (Cons c arg)
  show ?case
  proof (cases "c = Backslash")
    case True
    then show ?thesis using Cons split_literal [OF plain_no_quote [of arg rest]] by simp
  next
    case False
    then show ?thesis using Cons by (simp add: split_ordinary plainChar_def)
  qed
qed simp

lemma split_argument:
  assumes "separated rest"
  shows "splitLoop args [] False False (quoteWindowsCommandLineArgument arg @ rest) = splitLoop args arg False True rest"
proof (cases "arg \<noteq> [] \<and> list_all plainChar arg")
  case True
  then show ?thesis using split_plain [OF _ assms, of arg args "[]" False]
    by (simp add: quoteWindowsCommandLineArgument_def)
next
  case False
  have "quoteLoop 0 [Quote] arg = Quote # quoteLoop 0 [] arg" using quoteLoop_append [of 0 "[Quote]" arg] by simp
  then show ?thesis using False split_quoted [of args "[]" True 0 arg rest]
    by (auto simp: quoteWindowsCommandLineArgument_def split_quote)
qed

lemma buildLoop_append: "buildLoop first result argv = result @ buildLoop first [] argv"
proof (induction argv arbitrary: first result)
  case (Cons arg argv)
  show ?case
    using Cons [of False "(if first then result else result @ [Space]) @ quoteWindowsCommandLineArgument arg"]
      Cons [of False "(if first then [] else [Space]) @ quoteWindowsCommandLineArgument arg"]
    by (cases first) simp_all
qed simp

lemma separated_buildLoop: "separated (buildLoop False [] argv)"
  by (cases argv) (auto simp: separated_def buildLoop_append [of False "Space # xs" for xs])

lemma split_joined:
  "splitLoop args arg False True (buildLoop False [] argv) = args @ arg # argv"
proof (induction argv arbitrary: args arg)
  case (Cons a argv)
  have "buildLoop False [] (a # argv) = Space # quoteWindowsCommandLineArgument a @ buildLoop False [] argv"
    using buildLoop_append [of False "Space # quoteWindowsCommandLineArgument a" argv] by simp
  then show ?case
    using Cons.IH [of "args @ [arg]" a] split_argument [OF separated_buildLoop, of "args @ [arg]" a argv]
    by (simp add: split_space)
qed simp

section \<open>Properties\<close>

text \<open>
  C19. The Windows command line round-trips: splitting what \<open>buildWindowsCommandLine\<close>
  joins gives back the argument vector, whatever spaces, tabs, quotation marks, runs of
  backslashes and empty arguments it holds.
\<close>

theorem command_line_roundtrip:
  "splitWindowsCommandLine (buildWindowsCommandLine argv) = argv"
proof (cases argv)
  case (Cons a rest)
  have "buildLoop True [] (a # rest) = quoteWindowsCommandLineArgument a @ buildLoop False [] rest"
    using buildLoop_append [of False "quoteWindowsCommandLineArgument a" rest] by simp
  then show ?thesis
    using Cons split_argument [OF separated_buildLoop, of "[]" a rest] split_joined [of "[]" a rest]
    by (simp add: splitWindowsCommandLine_def buildWindowsCommandLine_def)
qed (simp add: splitWindowsCommandLine_def buildWindowsCommandLine_def)

end
