(* ===== verification/Child.thy ===== *)
theory Child
  imports Instance CommandLine "HOL-Library.Sublist" "HOL-Library.Multiset"
begin

text \<open>
  \<^verbatim>\<open>include/sub0log/child.hpp\<close>: the records of a captured child, the capture loop that turns
  a stream into lines, spawning and reaping (POSIX arm).  What the operating system
  answers is an argument: the results of the reads, of the pipes, of \<open>fork\<close>, of thread
  creation, of \<open>waitpid\<close>.  The Logger a capture works with is a \<open>Producer\<close> seen from the
  capturing thread; \<open>None\<close> is the null pointer.
\<close>

section \<open>Payloads\<close>

record ChildStartPayload =
  csp_childId :: u64
  csp_childPid :: u64
  csp_correlationId :: u64
  csp_monoNs :: u64

definition ChildStartPayload_bytes :: "ChildStartPayload \<Rightarrow> bytes" where
  "ChildStartPayload_bytes p =
     wordBytes (csp_childId p) @ wordBytes (csp_childPid p) @ wordBytes (csp_correlationId p) @ wordBytes (csp_monoNs p)"

definition ChildStartPayload_load :: "bytes \<Rightarrow> ChildStartPayload" where
  "ChildStartPayload_load bs = \<lparr>csp_childId = loadWord 0 bs, csp_childPid = loadWord 8 bs,
     csp_correlationId = loadWord 16 bs, csp_monoNs = loadWord 24 bs\<rparr>"

type_synonym ChildStream = u8

definition cChildStdout :: ChildStream where "cChildStdout = 1"
definition cChildStderr :: ChildStream where "cChildStderr = 2"

record ChildOutputPayload =
  cop_childId :: u64
  cop_monoNs :: u64
  cop_stream :: u8
  cop_reserved0 :: u8
  cop_reserved1 :: u16
  cop_reserved2 :: u32

definition ChildOutputPayload_bytes :: "ChildOutputPayload \<Rightarrow> bytes" where
  "ChildOutputPayload_bytes p =
     wordBytes (cop_childId p) @ wordBytes (cop_monoNs p) @ wordBytes (cop_stream p) @ wordBytes (cop_reserved0 p)
     @ wordBytes (cop_reserved1 p) @ wordBytes (cop_reserved2 p)"

definition ChildOutputPayload_load :: "bytes \<Rightarrow> ChildOutputPayload" where
  "ChildOutputPayload_load bs = \<lparr>cop_childId = loadWord 0 bs, cop_monoNs = loadWord 8 bs, cop_stream = loadWord 16 bs,
     cop_reserved0 = loadWord 17 bs, cop_reserved1 = loadWord 18 bs, cop_reserved2 = loadWord 20 bs\<rparr>"

record ChildExitPayload =
  cep_childId :: u64
  cep_monoNs :: u64
  cep_exitCode :: u32
  cep_signal :: u32

definition ChildExitPayload_bytes :: "ChildExitPayload \<Rightarrow> bytes" where
  "ChildExitPayload_bytes p =
     wordBytes (cep_childId p) @ wordBytes (cep_monoNs p) @ wordBytes (cep_exitCode p) @ wordBytes (cep_signal p)"

definition ChildExitPayload_load :: "bytes \<Rightarrow> ChildExitPayload" where
  "ChildExitPayload_load bs = \<lparr>cep_childId = loadWord 0 bs, cep_monoNs = loadWord 8 bs,
     cep_exitCode = loadWord 16 bs, cep_signal = loadWord 20 bs\<rparr>"

definition cChildStartPayloadSize :: nat where "cChildStartPayloadSize = 32"
definition cChildOutputPayloadSize :: nat where "cChildOutputPayloadSize = 24"
definition cChildExitPayloadSize :: nat where "cChildExitPayloadSize = 24"

section \<open>Interception and capture state\<close>

datatype InterceptAction = Log | Suppress

record ChildLine =
  cl_childId :: u64
  cl_stream :: ChildStream
  cl_text :: bytes
  cl_truncated :: bool

text \<open>\<open>None\<close> as the interceptor's answer is an exception that escapes it.\<close>

type_synonym LineInterceptor = "ChildLine \<Rightarrow> InterceptAction option"

record ChildOptions =
  co_argv :: "bytes list"
  co_workingDirectory :: bytes
  co_captureStdout :: bool
  co_captureStderr :: bool
  co_propagateCorrelation :: bool
  co_onLine :: "LineInterceptor option"

definition cCommandLineCap :: nat where "cCommandLineCap = cInlineBytesCap"
definition cLineCap :: nat where "cLineCap = cInlineBytesCap * 8"

text \<open>\<open>cs_tick\<close> counts the clock readings drawn, three to a written line.\<close>

record ChildCaptureState =
  cs_logger :: "Producer option"
  cs_onLine :: "LineInterceptor option"
  cs_childId :: u64
  cs_capturedLines :: u64
  cs_suppressedLines :: u64
  cs_unloggedLines :: u64
  cs_truncatedLines :: u64
  cs_tick :: nat

record CaptureStats =
  ct_capturedLines :: u64
  ct_suppressedLines :: u64
  ct_unloggedLines :: u64
  ct_truncatedLines :: u64

record ExitStatus =
  es_exitCode :: u32
  es_signal :: u32

section \<open>Writing records\<close>

text \<open>The part the three writers share: reserve, or leave the drop counted; store; commit.\<close>

definition putRecord :: "Caller \<Rightarrow> u64 \<Rightarrow> u64 \<Rightarrow> nat \<Rightarrow> bytes \<Rightarrow> RecordHead \<Rightarrow> Producer \<Rightarrow> Producer" where
  "putRecord ca now now' payloadBytes payload head P =
     (let (slot, P1) = reserveRecord ca now now' payloadBytes P
      in case slot of None \<Rightarrow> P1 | Some s \<Rightarrow> commitIn ca s head (storePayload s payload P1))"

definition childHead :: "nat \<Rightarrow> RecordKind \<Rightarrow> bool \<Rightarrow> RecordHead" where
  "childHead payloadBytes kind truncated =
     \<lparr>rh_payloadBytes = word_of_nat payloadBytes, rh_kind = kind,
      rh_flags = (if truncated then cFlagTruncated else 0), rh_sequence = 0\<rparr>"

definition childStartBytes :: "u64 \<Rightarrow> u64 \<Rightarrow> u64 \<Rightarrow> u64 \<Rightarrow> bytes \<Rightarrow> bytes" where
  "childStartBytes childId pid correlationId mono' command =
     ChildStartPayload_bytes \<lparr>csp_childId = childId, csp_childPid = pid, csp_correlationId = correlationId, csp_monoNs = mono'\<rparr>
     @ wordBytes (word_of_nat (length command) :: u16) @ command"

definition writeChildStart ::
  "Caller \<Rightarrow> (nat \<Rightarrow> u64) \<Rightarrow> u64 \<Rightarrow> u64 \<Rightarrow> u64 \<Rightarrow> bytes \<Rightarrow> bool \<Rightarrow> Producer option \<Rightarrow> Producer option" where
  "writeChildStart ca clock childId pid correlationId command commandTruncated logger =
     (case logger of
        None \<Rightarrow> None
      | Some P \<Rightarrow>
        let overlong = cCommandLineCap < length command;
            commandLen = (if overlong then cCommandLineCap else length command);
            truncated = (overlong \<or> commandTruncated);
            payloadBytes = cChildStartPayloadSize + 2 + commandLen
        in Some (putRecord ca (clock 0) (clock 1) payloadBytes
                   (childStartBytes childId pid correlationId (clock 2) (take commandLen command))
                   (childHead payloadBytes ChildStart truncated) P))"

definition writeChildExit ::
  "Caller \<Rightarrow> (nat \<Rightarrow> u64) \<Rightarrow> u64 \<Rightarrow> ExitStatus \<Rightarrow> Producer option \<Rightarrow> Producer option" where
  "writeChildExit ca clock childId status logger =
     (case logger of
        None \<Rightarrow> None
      | Some P \<Rightarrow>
        Some (putRecord ca (clock 0) (clock 1) cChildExitPayloadSize
                (ChildExitPayload_bytes \<lparr>cep_childId = childId, cep_monoNs = clock 2,
                   cep_exitCode = es_exitCode status, cep_signal = es_signal status\<rparr>)
                (childHead cChildExitPayloadSize ChildExit False) P))"

definition childOutputBytes :: "u64 \<Rightarrow> u64 \<Rightarrow> ChildStream \<Rightarrow> bytes \<Rightarrow> bytes" where
  "childOutputBytes childId mono' stream text =
     ChildOutputPayload_bytes \<lparr>cop_childId = childId, cop_monoNs = mono', cop_stream = stream,
       cop_reserved0 = 0, cop_reserved1 = 0, cop_reserved2 = 0\<rparr> @ text"

text \<open>What the interceptor decides for a line.\<close>

definition intercept :: "LineInterceptor option \<Rightarrow> ChildLine \<Rightarrow> InterceptAction" where
  "intercept onLine line =
     (case onLine of
        None \<Rightarrow> Log
      | Some f \<Rightarrow> (case f line of None \<Rightarrow> Log | Some action \<Rightarrow> action))"

definition writeChildOutputLine ::
  "Caller \<Rightarrow> (nat \<Rightarrow> u64) \<Rightarrow> ChildStream \<Rightarrow> ChildCaptureState \<Rightarrow> bytes \<Rightarrow> bool \<Rightarrow> ChildCaptureState" where
  "writeChildOutputLine ca clock stream state text truncated =
     (let state1 = state\<lparr>cs_capturedLines := cs_capturedLines state + 1,
                         cs_truncatedLines := (if truncated then cs_truncatedLines state + 1 else cs_truncatedLines state)\<rparr>;
          line = \<lparr>cl_childId = cs_childId state, cl_stream = stream, cl_text = text, cl_truncated = truncated\<rparr>
      in if intercept (cs_onLine state) line = Suppress
         then state1\<lparr>cs_suppressedLines := cs_suppressedLines state1 + 1\<rparr>
         else case cs_logger state1 of
           None \<Rightarrow> state1\<lparr>cs_unloggedLines := cs_unloggedLines state1 + 1\<rparr>
         | Some P \<Rightarrow>
           let payloadBytes = unat (word_of_nat cChildOutputPayloadSize + word_of_nat (length text) :: u32);
               i = cs_tick state1
           in state1\<lparr>cs_logger := Some (putRecord ca (clock i) (clock (i + 1)) payloadBytes
                                         (childOutputBytes (cs_childId state) (clock (i + 2)) stream text)
                                         (childHead payloadBytes ChildOutput truncated) P),
                    cs_tick := i + 3\<rparr>)"

section \<open>The capture loop\<close>

text \<open>Newline is 10, carriage return 13.\<close>

fun processCapturedChunk ::
  "Caller \<Rightarrow> (nat \<Rightarrow> u64) \<Rightarrow> ChildStream \<Rightarrow> bytes \<Rightarrow> ChildCaptureState \<times> bytes \<times> bool
    \<Rightarrow> ChildCaptureState \<times> bytes \<times> bool" where
  "processCapturedChunk ca clock stream [] (state, carry, discardingOverlong) = (state, carry, discardingOverlong)"
| "processCapturedChunk ca clock stream (c # chunk) (state, carry, discardingOverlong) =
     (if c = 10 then
        if discardingOverlong then processCapturedChunk ca clock stream chunk (state, [], False)
        else
          let carry = (if carry \<noteq> [] \<and> last carry = 13 then butlast carry else carry)
          in processCapturedChunk ca clock stream chunk
               (writeChildOutputLine ca clock stream state carry False, [], discardingOverlong)
      else if discardingOverlong then processCapturedChunk ca clock stream chunk (state, carry, discardingOverlong)
      else
        let carry = carry @ [c]
        in if cLineCap < length carry
           then processCapturedChunk ca clock stream chunk
                  (writeChildOutputLine ca clock stream state (take cLineCap carry) True, [], True)
           else processCapturedChunk ca clock stream chunk (state, carry, discardingOverlong))"

text \<open>What \<open>read\<close> answers: data (no data is the end of the stream), an interruption, an error.\<close>

datatype ReadResult = ReadData bytes | ReadInterrupted | ReadFailed

definition flushCarry ::
  "Caller \<Rightarrow> (nat \<Rightarrow> u64) \<Rightarrow> ChildStream \<Rightarrow> ChildCaptureState \<times> bytes \<times> bool \<Rightarrow> ChildCaptureState" where
  "flushCarry ca clock stream = (\<lambda>(state, carry, discardingOverlong).
     if \<not> discardingOverlong \<and> carry \<noteq> [] then writeChildOutputLine ca clock stream state carry False else state)"

text \<open>\<open>None\<close>: the answers ran out while the loop still waits for one.\<close>

fun captureReads ::
  "Caller \<Rightarrow> (nat \<Rightarrow> u64) \<Rightarrow> ChildStream \<Rightarrow> ReadResult list \<Rightarrow> ChildCaptureState \<times> bytes \<times> bool
    \<Rightarrow> ChildCaptureState option" where
  "captureReads ca clock stream [] loop = None"
| "captureReads ca clock stream (r # reads) loop =
     (case r of
        ReadInterrupted \<Rightarrow> captureReads ca clock stream reads loop
      | ReadFailed \<Rightarrow> Some (flushCarry ca clock stream loop)
      | ReadData buffer \<Rightarrow>
          if buffer = [] then Some (flushCarry ca clock stream loop)
          else captureReads ca clock stream reads (processCapturedChunk ca clock stream buffer loop))"

definition captureLoop ::
  "Caller \<Rightarrow> (nat \<Rightarrow> u64) \<Rightarrow> ChildStream \<Rightarrow> ReadResult list \<Rightarrow> ChildCaptureState \<Rightarrow> ChildCaptureState option" where
  "captureLoop ca clock stream reads state = captureReads ca clock stream reads (state, [], False)"

section \<open>Lines, as a reference\<close>

text \<open>
  The whole stream at once: cut at newlines, a trailing carriage return dropped, a line
  past the cap cut and flagged, an unterminated rest kept.
\<close>

definition stripReturn :: "bytes \<Rightarrow> bytes" where
  "stripReturn line = (if line \<noteq> [] \<and> last line = 13 then butlast line else line)"

definition wholeLine :: "bytes \<Rightarrow> bytes \<times> bool" where
  "wholeLine line = (if cLineCap < length line then (take cLineCap line, True) else (stripReturn line, False))"

definition lastLine :: "bytes \<Rightarrow> (bytes \<times> bool) list" where
  "lastLine line =
     (if line = [] then [] else if cLineCap < length line then [(take cLineCap line, True)] else [(line, False)])"

definition afterLine :: "bytes \<Rightarrow> bytes" where
  "afterLine s = tl (dropWhile (\<lambda>c. c \<noteq> 10) s)"

lemma afterLine_shorter: "10 \<in> set s \<Longrightarrow> length (afterLine s) < length s"
  using length_dropWhile_le [of "\<lambda>c. c \<noteq> 10" s]
  by (cases "dropWhile (\<lambda>c. c \<noteq> 10) s") (auto simp: afterLine_def)

function refLines :: "bytes \<Rightarrow> (bytes \<times> bool) list" where
  "refLines s = (if 10 \<in> set s then wholeLine (takeWhile (\<lambda>c. c \<noteq> 10) s) # refLines (afterLine s) else lastLine s)"
  by pat_completeness auto
termination
  by (relation "measure length") (simp_all add: afterLine_shorter)

declare refLines.simps [simp del]

lemma refLines_plain: "10 \<notin> set s \<Longrightarrow> refLines s = lastLine s"
  by (simp add: refLines.simps)

lemma until_simps:
  "x \<notin> set xs \<Longrightarrow> takeWhile (\<lambda>c. c \<noteq> x) (xs @ x # ys) = xs"
  "x \<notin> set xs \<Longrightarrow> dropWhile (\<lambda>c. c \<noteq> x) (xs @ x # ys) = x # ys"
  by (induction xs) auto

lemma line_simps:
  "10 \<notin> set line \<Longrightarrow> takeWhile (\<lambda>c. c \<noteq> 10) (line @ 10 # s) = line"
  "10 \<notin> set line \<Longrightarrow> afterLine (line @ 10 # s) = s"
  by (simp_all add: afterLine_def until_simps)

lemma refLines_line: "10 \<notin> set line \<Longrightarrow> refLines (line @ 10 # s) = wholeLine line # refLines s"
  by (subst refLines.simps) (simp add: line_simps)

fun writeLines :: "Caller \<Rightarrow> (nat \<Rightarrow> u64) \<Rightarrow> ChildStream \<Rightarrow> ChildCaptureState \<Rightarrow> (bytes \<times> bool) list \<Rightarrow> ChildCaptureState" where
  "writeLines ca clock stream state [] = state"
| "writeLines ca clock stream state ((text, truncated) # lines) =
     writeLines ca clock stream (writeChildOutputLine ca clock stream state text truncated) lines"

lemma capture_reference:
  "10 \<notin> set carry \<Longrightarrow> length carry \<le> cLineCap \<Longrightarrow>
     flushCarry ca clock stream (processCapturedChunk ca clock stream s (state, carry, False))
       = writeLines ca clock stream state (refLines (carry @ s))"
  "flushCarry ca clock stream (processCapturedChunk ca clock stream s (state, [], True))
       = writeLines ca clock stream state (if 10 \<in> set s then refLines (afterLine s) else [])"
proof (induction s arbitrary: state carry)
  case Nil
  case 1
  then show ?case by (simp add: refLines_plain lastLine_def flushCarry_def)
next
  case Nil
  case 2
  show ?case by (simp add: flushCarry_def)
next
  case (Cons c s)
  case 1
  show ?case
  proof (cases "c = 10")
    case True
    have "wholeLine carry = (stripReturn carry, False)" using 1 by (simp add: wholeLine_def)
    then show ?thesis using True 1 Cons.IH(1) [of "[]"] by (simp add: refLines_line stripReturn_def Let_def)
  next
    case c: False
    show ?thesis
    proof (cases "cLineCap < length (carry @ [c])")
      case False
      then show ?thesis using c 1 Cons.IH(1) [of "carry @ [c]"] by (simp add: Let_def)
    next
      case True
      have t: "take cLineCap (carry @ c # xs) = take cLineCap (carry @ [c])" for xs
        using True 1 by (simp add: take_Cons')
      have "refLines (carry @ c # s) = (take cLineCap (carry @ [c]), True) # (if 10 \<in> set s then refLines (afterLine s) else [])"
      proof (cases "10 \<in> set s")
        case nl: True
        then obtain l r where s: "s = l @ 10 # r" "10 \<notin> set l" by (metis split_list_first)
        have "afterLine s = r" using s by (simp add: line_simps)
        moreover have "wholeLine (carry @ c # l) = (take cLineCap (carry @ [c]), True)"
          using True t by (simp add: wholeLine_def)
        ultimately show ?thesis using nl s c 1 refLines_line [of "carry @ c # l" r] by simp
      next
        case nl: False
        then show ?thesis using c 1 True t by (simp add: refLines_plain lastLine_def)
      qed
      then show ?thesis using c True Cons.IH(2) by (simp add: Let_def)
    qed
  qed
next
  case (Cons c s)
  case 2
  show ?case using Cons.IH(1) [of "[]"] Cons.IH(2) by (simp add: afterLine_def)
qed

lemma processCapturedChunk_append:
  "processCapturedChunk ca clock stream (a @ b) loop
    = processCapturedChunk ca clock stream b (processCapturedChunk ca clock stream a loop)"
  by (induction ca clock stream a loop rule: processCapturedChunk.induct) (simp_all add: Let_def)

text \<open>The bytes a sequence of answers delivers before the stream ends; \<open>None\<close> if it never does.\<close>

fun streamOf :: "ReadResult list \<Rightarrow> bytes option" where
  "streamOf [] = None"
| "streamOf (ReadInterrupted # reads) = streamOf reads"
| "streamOf (ReadFailed # reads) = Some []"
| "streamOf (ReadData buffer # reads) = (if buffer = [] then Some [] else map_option (append buffer) (streamOf reads))"

lemma captureReads_stream:
  "captureReads ca clock stream reads loop =
     map_option (\<lambda>data. flushCarry ca clock stream (processCapturedChunk ca clock stream data loop)) (streamOf reads)"
proof (induction reads arbitrary: loop rule: streamOf.induct)
  case (3 reads)
  then show ?case by (cases loop) simp
next
  case (4 buffer reads)
  then show ?case by (cases loop) (auto simp: option.map_comp o_def processCapturedChunk_append)
qed simp_all

lemma captureLoop_lines:
  "captureLoop ca clock stream reads state =
     map_option (\<lambda>data. writeLines ca clock stream state (refLines data)) (streamOf reads)"
  using capture_reference(1) [of "[]"] by (simp add: captureLoop_def captureReads_stream)

text \<open>Lines printed with either ending.\<close>

definition printLine :: "bytes \<times> bool \<Rightarrow> bytes" where
  "printLine l = fst l @ (if snd l then [13, 10] else [10])"

definition printable :: "bytes \<times> bool \<Rightarrow> bool" where
  "printable l \<longleftrightarrow> 10 \<notin> set (fst l) \<and>
     (if snd l then length (fst l) < cLineCap
      else length (fst l) \<le> cLineCap \<and> (fst l = [] \<or> last (fst l) \<noteq> 13))"

lemma refLines_printed:
  "list_all printable ls \<Longrightarrow> refLines (concat (map printLine ls)) = map (\<lambda>l. (fst l, False)) ls"
proof (induction ls)
  case Nil
  show ?case by (simp add: refLines_plain lastLine_def)
next
  case (Cons l ls)
  have "wholeLine (fst l @ (if snd l then [13] else [])) = (fst l, False)"
    using Cons.prems by (auto simp: wholeLine_def printable_def stripReturn_def)
  moreover have "printLine l @ s = (fst l @ (if snd l then [13] else [])) @ 10 # s" for s by (simp add: printLine_def)
  moreover have "10 \<notin> set (fst l @ (if snd l then [13] else []))" using Cons.prems by (simp add: printable_def)
  ultimately show ?case using Cons refLines_line [of "fst l @ (if snd l then [13] else [])"] by simp
qed

lemma refLines_short: "(line, b) \<in> set (refLines s) \<Longrightarrow> length line \<le> cLineCap"
proof (induction s rule: refLines.induct)
  case (1 s)
  show ?case
  proof (cases "10 \<in> set s")
    case True
    then have "refLines s = wholeLine (takeWhile (\<lambda>c. c \<noteq> 10) s) # refLines (afterLine s)" by (subst refLines.simps) simp
    then show ?thesis using 1 True by (auto simp: wholeLine_def stripReturn_def split: if_splits)
  next
    case False
    then show ?thesis using 1 by (auto simp: refLines_plain lastLine_def split: if_splits)
  qed
qed

section \<open>What capture leaves in the log\<close>

lemma child_payload_lengths [simp]:
  "length (ChildStartPayload_bytes sp) = 32" "length (ChildOutputPayload_bytes op) = 24"
  "length (ChildExitPayload_bytes ep) = 24"
  by (simp_all add: ChildStartPayload_bytes_def ChildOutputPayload_bytes_def ChildExitPayload_bytes_def)

lemma ChildStartPayload_load_bytes: "ChildStartPayload_load (ChildStartPayload_bytes p @ rest) = p"
  by (cases p) (simp add: ChildStartPayload_load_def ChildStartPayload_bytes_def byte_simps)

lemma ChildOutputPayload_load_bytes: "ChildOutputPayload_load (ChildOutputPayload_bytes p @ rest) = p"
  by (cases p) (simp add: ChildOutputPayload_load_def ChildOutputPayload_bytes_def byte_simps)

lemma ChildExitPayload_load_bytes: "ChildExitPayload_load (ChildExitPayload_bytes p @ rest) = p"
  by (cases p) (simp add: ChildExitPayload_load_def ChildExitPayload_bytes_def byte_simps)

lemma not_continuation: "ChildOutput \<noteq> Continuation"
  by simp

lemma putRecord_outcome:
  assumes inv: "prod_inv ca (Suc (Suc k)) P cs" and n: "length p \<le> 0xFFFF" and kind: "kindCanonical kind" "kind \<noteq> Continuation"
  obtains (put) cs' h where "outcome ca k P cs (putRecord ca now now' (length p) p (childHead (length p) kind tr) P) cs' [(h, p)] 0 0"
      "rh_kind h = kind" "rh_flags h = (if tr then cFlagTruncated else 0)"
    | (dropped) cs' where "outcome ca k P cs (putRecord ca now now' (length p) p (childHead (length p) kind tr) P) cs' [] 1 0"
      "length cs' = unat (sg_chunkCount (seg P)) \<or> \<not> fitsEmpty P (length p)"
proof -
  obtain res P1 where r: "reserveRecord ca now now' (length p) P = (res, P1)" by (metis surj_pair)
  have h: "unat (rh_payloadBytes (childHead (length p) kind tr)) = length p"
    "kindCanonical (rh_kind (childHead (length p) kind tr))" "singleHead (childHead (length p) kind tr)"
    using n kind by (simp_all add: childHead_def unat_of_nat singleHead_def flags_continued)
  show thesis
    using inv r
  proof (cases rule: reserveRecord_cases)
    case (got P0 cs0 slot)
    obtain cs' where "outcome ca k P cs (commitIn ca slot (childHead (length p) kind tr) (storePayload slot p P1)) cs'
        ([] @ [(headFor (childHead (length p) kind tr) (writer P0) 0, p)]) 0 0"
      by (rule reserved_append [OF got(3,4,2) h])
    then show thesis using put [of cs'] r got(1) by (simp add: putRecord_def headFor_def childHead_def)
  next
    case (dropped cs')
    then show thesis using that(2) r by (simp add: putRecord_def)
  qed
qed

definition keptLines :: "LineInterceptor option \<Rightarrow> u64 \<Rightarrow> ChildStream \<Rightarrow> (bytes \<times> bool) list \<Rightarrow> (bytes \<times> bool) list" where
  "keptLines onLine childId stream lines =
     filter (\<lambda>(text, truncated). intercept onLine \<lparr>cl_childId = childId, cl_stream = stream, cl_text = text,
                                                cl_truncated = truncated\<rparr> \<noteq> Suppress) lines"

definition suppressed :: "ChildCaptureState \<Rightarrow> ChildStream \<Rightarrow> bytes \<Rightarrow> bool \<Rightarrow> bool" where
  "suppressed state stream text truncated \<longleftrightarrow>
     intercept (cs_onLine state) \<lparr>cl_childId = cs_childId state, cl_stream = stream, cl_text = text,
                                   cl_truncated = truncated\<rparr> = Suppress"

lemma writeChildOutputLine_fields:
  "cs_onLine (writeChildOutputLine ca clock stream state t tr) = cs_onLine state"
  "cs_childId (writeChildOutputLine ca clock stream state t tr) = cs_childId state"
  "cs_capturedLines (writeChildOutputLine ca clock stream state t tr) = cs_capturedLines state + 1"
  "cs_truncatedLines (writeChildOutputLine ca clock stream state t tr) = cs_truncatedLines state + (if tr then 1 else 0)"
  "cs_suppressedLines (writeChildOutputLine ca clock stream state t tr)
     = cs_suppressedLines state + (if suppressed state stream t tr then 1 else 0)"
  "cs_unloggedLines (writeChildOutputLine ca clock stream state t tr)
     = cs_unloggedLines state + (if \<not> suppressed state stream t tr \<and> cs_logger state = None then 1 else 0)"
  "cs_logger (writeChildOutputLine ca clock stream state t tr) = None \<longleftrightarrow> cs_logger state = None"
  by (simp_all add: writeChildOutputLine_def suppressed_def Let_def split: option.split)

text \<open>The counters after a run of lines.\<close>

lemma writeLines_counters:
  defines "kept state lines stream \<equiv> keptLines (cs_onLine state) (cs_childId state) stream lines"
  shows "cs_capturedLines (writeLines ca clock stream state lines) = cs_capturedLines state + of_nat (length lines)
    \<and> cs_truncatedLines (writeLines ca clock stream state lines) = cs_truncatedLines state + of_nat (length (filter snd lines))
    \<and> cs_suppressedLines (writeLines ca clock stream state lines) + of_nat (length (kept state lines stream))
        = cs_suppressedLines state + of_nat (length lines)
    \<and> cs_unloggedLines (writeLines ca clock stream state lines)
        = cs_unloggedLines state + (if cs_logger state = None then of_nat (length (kept state lines stream)) else 0)
    \<and> (cs_logger (writeLines ca clock stream state lines) = None \<longleftrightarrow> cs_logger state = None)"
  unfolding kept_def
proof (induction lines arbitrary: state)
  case (Cons l lines)
  obtain t tr where l: "l = (t, tr)" by fastforce
  let ?k = "\<lambda>ls. keptLines (cs_onLine state) (cs_childId state) stream ls"
  have k: "?k (l # lines) = (if suppressed state stream t tr then ?k lines else l # ?k lines)"
    by (simp add: keptLines_def suppressed_def l)
  show ?case
    using Cons [of "writeChildOutputLine ca clock stream state t tr"]
    unfolding writeChildOutputLine_fields k
    by (cases "suppressed state stream t tr"; cases tr; cases "cs_logger state") (simp_all add: l add_ac)
qed (simp add: keptLines_def)

text \<open>And the Logger: each kept line is one record of the capturing thread, or one drop.\<close>

lemma writeLines_outcome:
  assumes "prod_inv ca (2 * length lines + k) P cs" and "cs_logger state = Some P"
    and "\<forall>(t, b) \<in> set lines. length t \<le> cLineCap"
  shows "\<exists>P' cs' rs d ts. cs_logger (writeLines ca clock stream state lines) = Some P'
    \<and> outcome ca k P cs P' cs' rs d 0
    \<and> map snd rs = map (\<lambda>(m, t). childOutputBytes (cs_childId state) m stream t) ts
    \<and> list_all (\<lambda>r. rh_kind (fst r) = ChildOutput) rs
    \<and> subseq (map snd ts) (map fst (keptLines (cs_onLine state) (cs_childId state) stream lines))
    \<and> length rs + d = length (keptLines (cs_onLine state) (cs_childId state) stream lines)
    \<and> (0 < d \<longrightarrow> length cs' = unat (sg_chunkCount (seg P)) \<or> \<not> fitsEmpty P (cLineCap + 24))"
  using assms
proof (induction lines arbitrary: state P cs)
  case Nil
  then show ?case 
    by (intro exI [of _ P] exI [of _ cs] exI [of _ "[]"] exI [of _ 0]) (simp add: keptLines_def outcome_refl)
next
  case (Cons l lines)
  obtain t tr where l: "l = (t, tr)" by fastforce
  let ?s = "writeChildOutputLine ca clock stream state t tr"
  let ?line = "\<lparr>cl_childId = cs_childId state, cl_stream = stream, cl_text = t, cl_truncated = tr\<rparr>"
  have s: "cs_onLine ?s = cs_onLine state" "cs_childId ?s = cs_childId state"
    by (simp_all add: writeChildOutputLine_def Let_def split: option.split)
  have tl: "length t \<le> cLineCap" "\<forall>(t, b) \<in> set lines. length t \<le> cLineCap" using Cons.prems(3) l by auto
  show ?case
  proof (cases "intercept (cs_onLine state) ?line = Suppress")
    case True
    then have "cs_logger ?s = Some P" using Cons.prems(2) by (simp add: writeChildOutputLine_def Let_def)
    moreover have "prod_inv ca (2 * length lines + k) P cs" by (rule prod_inv_mono [OF Cons.prems(1)]) simp
    ultimately show ?thesis using Cons.IH [of P cs ?s] tl(2) True s by (simp add: l keptLines_def)
  next
    case False
    let ?i = "cs_tick state"
    let ?p = "childOutputBytes (cs_childId state) (clock (?i + 2)) stream t"
    have lp: "length ?p = 24 + length t" by (simp add: childOutputBytes_def)
    have u: "unat (word_of_nat cChildOutputPayloadSize + word_of_nat (length t) :: u32) = length ?p"
      using tl(1) unfolding lp cChildOutputPayloadSize_def of_nat_add [symmetric] unat_of_nat
      by (simp add: cLineCap_def cInlineBytesCap_def)
    let ?P1 = "putRecord ca (clock ?i) (clock (?i + 1)) (length ?p) ?p (childHead (length ?p) ChildOutput tr) P"
    have s1: "cs_logger ?s = Some ?P1"
      using False Cons.prems(2) u by (simp add: writeChildOutputLine_def Let_def)
    have inv: "prod_inv ca (Suc (Suc (2 * length lines + k))) P cs" using Cons.prems(1) by simp
    have le: "length ?p \<le> 0xFFFF" using lp tl(1) by (simp add: cLineCap_def cInlineBytesCap_def)
    obtain cs1 rs1 d1 ts1 where o1: "outcome ca (2 * length lines + k) P cs ?P1 cs1 rs1 d1 0"
      and r1: "map snd rs1 = map (\<lambda>(m, t). childOutputBytes (cs_childId state) m stream t) ts1"
        "list_all (\<lambda>r. rh_kind (fst r) = ChildOutput) rs1" "subseq (map snd ts1) [t]" "length rs1 + d1 = 1"
        "0 < d1 \<longrightarrow> length cs1 = unat (sg_chunkCount (seg P)) \<or> \<not> fitsEmpty P (cLineCap + 24)"
    proof (rule putRecord_outcome [OF inv le kindCanonical_named(5) not_continuation, of "clock ?i" "clock (?i + 1)" tr])
      fix cs' h
      assume "outcome ca (2 * length lines + k) P cs ?P1 cs' [(h, ?p)] 0 0" "rh_kind h = ChildOutput"
      then show thesis using that [of cs' "[(h, ?p)]" 0 "[(clock (?i + 2), t)]"] by simp
    next
      fix cs'
      assume dropped: "outcome ca (2 * length lines + k) P cs ?P1 cs' [] 1 0"
        "length cs' = unat (sg_chunkCount (seg P)) \<or> \<not> fitsEmpty P (length ?p)"
      have "fitsEmpty P (cLineCap + 24) \<Longrightarrow> fitsEmpty P (length ?p)"
        using lp tl(1) align8_mono [of "length ?p" "cLineCap + 24"] by (auto simp: fitsEmpty_def footprint_def)
      then show thesis using that [of cs' "[]" 1 "[]"] dropped by auto
    qed
    then have "prod_inv ca (2 * length lines + k) ?P1 cs1" by (simp add: outcome_def)
    from Cons.IH [OF this s1 tl(2)] obtain P' cs' rs d ts where i: "cs_logger (writeLines ca clock stream ?s lines) = Some P'"
      "outcome ca k ?P1 cs1 P' cs' rs d 0"
      "map snd rs = map (\<lambda>(m, t). childOutputBytes (cs_childId state) m stream t) ts"
      "list_all (\<lambda>r. rh_kind (fst r) = ChildOutput) rs"
      "subseq (map snd ts) (map fst (keptLines (cs_onLine state) (cs_childId state) stream lines))"
      "length rs + d = length (keptLines (cs_onLine state) (cs_childId state) stream lines)"
      "0 < d \<longrightarrow> length cs' = unat (sg_chunkCount (seg ?P1)) \<or> \<not> fitsEmpty ?P1 (cLineCap + 24)"
      unfolding s by blast
    have k: "keptLines (cs_onLine state) (cs_childId state) stream (l # lines)
        = l # keptLines (cs_onLine state) (cs_childId state) stream lines"
      using False by (simp add: keptLines_def l)
    have sc: "sg_chunkCount (seg ?P1) = sg_chunkCount (seg P)" "fitsEmpty ?P1 n = fitsEmpty P n" for n
      using o1 by (auto simp: outcome_def same_config_def fitsEmpty_def)
    have grown: "length cs1 \<le> length cs'" "length cs' \<le> unat (sg_chunkCount (seg P))"
      using i(2) o1 by (auto simp: outcome_def grows_def prod_inv_def seg_inv_def same_config_def)
    have "subseq (map snd ts1 @ map snd ts) ([t] @ map fst (keptLines (cs_onLine state) (cs_childId state) stream lines))"
      by (rule list_emb_append_mono [OF r1(3) i(5)])
    moreover have "0 < d1 + d \<longrightarrow> length cs' = unat (sg_chunkCount (seg P)) \<or> \<not> fitsEmpty P (cLineCap + 24)"
      using r1(5) i(7) grown sc by auto
    ultimately show ?thesis
      using outcome_trans [OF o1 i(2)] i r1 k l
      by (intro exI [of _ P'] exI [of _ cs'] exI [of _ "rs1 @ rs"] exI [of _ "d1 + d"] exI [of _ "ts1 @ ts"]) simp
  qed
qed

section \<open>A child process\<close>

text \<open>
  A capture thread: its stream, the identity and writer cache of the thread, its clock and
  the answers its reads get.  The threads of one child are run one after the other here;
  each writes through its own cache and the counters are atomic additions.
\<close>

record CaptureThread =
  th_stream :: ChildStream
  th_fd :: nat
  th_caller :: Caller
  th_cache :: WriterCache
  th_clock :: "nat \<Rightarrow> u64"
  th_reads :: "ReadResult list"

record ChildProcess =
  cp_childId :: u64
  cp_pid :: u64
  cp_error :: PlatformError
  cp_state :: "ChildCaptureState option"
  cp_captureThreads :: "CaptureThread list"
  cp_waited :: bool
  cp_exitStatus :: ExitStatus

definition noChild :: ChildProcess where
  "noChild = \<lparr>cp_childId = 0, cp_pid = 0, cp_error = noError, cp_state = None, cp_captureThreads = [],
     cp_waited = False, cp_exitStatus = \<lparr>es_exitCode = 0, es_signal = 0\<rparr>\<rparr>"

definition childValid :: "ChildProcess \<Rightarrow> bool" where
  "childValid c \<longleftrightarrow> cp_childId c \<noteq> 0"

definition childStats :: "ChildProcess \<Rightarrow> CaptureStats" where
  "childStats c =
     (case cp_state c of
        None \<Rightarrow> \<lparr>ct_capturedLines = 0, ct_suppressedLines = 0, ct_unloggedLines = 0, ct_truncatedLines = 0\<rparr>
      | Some st \<Rightarrow> \<lparr>ct_capturedLines = cs_capturedLines st, ct_suppressedLines = cs_suppressedLines st,
                   ct_unloggedLines = cs_unloggedLines st, ct_truncatedLines = cs_truncatedLines st\<rparr>)"

text \<open>The move constructor: the new object and what is left of the old one.\<close>

definition moveChild :: "ChildProcess \<Rightarrow> ChildProcess \<times> ChildProcess" where
  "moveChild other =
     (other, other\<lparr>cp_childId := 0, cp_pid := 0, cp_state := None, cp_captureThreads := [], cp_waited := True\<rparr>)"

text \<open>A thread sees the Logger through its own writer cache.\<close>

definition onThread :: "WriterCache \<Rightarrow> Producer option \<Rightarrow> Producer option" where
  "onThread cache logger = map_option (\<lambda>P. P\<lparr>pr_cache := cache\<rparr>) logger"

fun joinThreads :: "CaptureThread list \<Rightarrow> ChildCaptureState \<Rightarrow> ChildCaptureState option" where
  "joinThreads [] st = Some st"
| "joinThreads (t # ts) st =
     (case captureLoop (th_caller t) (th_clock t) (th_stream t) (th_reads t)
             (st\<lparr>cs_logger := onThread (th_cache t) (cs_logger st), cs_tick := 0\<rparr>) of
        None \<Rightarrow> None
      | Some st' \<Rightarrow> joinThreads ts st')"

datatype ProcessStatus = Exited u32 | Signaled u32 | OtherStatus

datatype WaitResult = WaitInterrupted | WaitError | WaitReaped u64 ProcessStatus

text \<open>The \<open>waitpid\<close> loop and the reading of its status; \<open>None\<close> is a call that does not return.\<close>

fun reap :: "u64 \<Rightarrow> WaitResult list \<Rightarrow> ExitStatus option" where
  "reap pid [] = None"
| "reap pid (r # answers) =
     (case r of
        WaitInterrupted \<Rightarrow> reap pid answers
      | WaitError \<Rightarrow> Some \<lparr>es_exitCode = 0, es_signal = 0\<rparr>
      | WaitReaped reaped status \<Rightarrow>
          Some (if reaped = pid
                then case status of
                       Exited code \<Rightarrow> \<lparr>es_exitCode = code, es_signal = 0\<rparr>
                     | Signaled sig \<Rightarrow> \<lparr>es_exitCode = 0, es_signal = sig\<rparr>
                     | OtherStatus \<Rightarrow> \<lparr>es_exitCode = 0, es_signal = 0\<rparr>
                else \<lparr>es_exitCode = 0, es_signal = 0\<rparr>))"

definition waitChild ::
  "Caller \<Rightarrow> (nat \<Rightarrow> u64) \<Rightarrow> WriterCache \<Rightarrow> WaitResult list \<Rightarrow> ChildProcess \<Rightarrow> (ExitStatus \<times> ChildProcess) option" where
  "waitChild ca clock cache answers c =
     (if cp_waited c then Some (cp_exitStatus c, c)
      else
        case (case cp_state c of None \<Rightarrow> Some None
              | Some st \<Rightarrow> map_option Some (joinThreads (cp_captureThreads c) st)) of
          None \<Rightarrow> None
        | Some joined \<Rightarrow>
          case (if cp_pid c \<noteq> 0 then reap (cp_pid c) answers else Some \<lparr>es_exitCode = 0, es_signal = 0\<rparr>) of
            None \<Rightarrow> None
          | Some result \<Rightarrow>
              Some (result,
                c\<lparr>cp_captureThreads := [], cp_waited := True, cp_exitStatus := result,
                  cp_state := map_option (\<lambda>st. st\<lparr>cs_logger :=
                    writeChildExit ca clock (cs_childId st) result (onThread cache (cs_logger st))\<rparr>) joined\<rparr>))"

definition destroyChild ::
  "Caller \<Rightarrow> (nat \<Rightarrow> u64) \<Rightarrow> WriterCache \<Rightarrow> WaitResult list \<Rightarrow> ChildProcess \<Rightarrow> ChildProcess option" where
  "destroyChild ca clock cache answers c =
     (if cp_childId c \<noteq> 0 \<and> \<not> cp_waited c then map_option snd (waitChild ca clock cache answers c) else Some c)"

section \<open>Spawning, POSIX arm\<close>

text \<open>
  The parent's resources: open descriptors and running children.  The answers of one
  spawn: the two pipes, \<open>fork\<close> (the parent's side), whether a cold-path allocation or the
  creation of a capture thread throws, and what the started threads will read.
\<close>

record Resources =
  os_open :: "nat list"
  os_children :: "u64 list"

record SpawnAnswers =
  sa_allocationFails :: bool
  sa_pipeOut :: "int + nat \<times> nat"
  sa_pipeErr :: "int + nat \<times> nat"
  sa_fork :: "int + u64"
  sa_outThreadFails :: bool
  sa_errThreadFails :: bool
  sa_outThread :: CaptureThread
  sa_errThread :: CaptureThread

definition closeFd :: "nat \<Rightarrow> Resources \<Rightarrow> Resources" where
  "closeFd fd os = os\<lparr>os_open := remove1 fd (os_open os)\<rparr>"

definition closePipe :: "(nat \<times> nat) option \<Rightarrow> Resources \<Rightarrow> Resources" where
  "closePipe p os = (case p of None \<Rightarrow> os | Some (r, w) \<Rightarrow> closeFd w (closeFd r os))"

definition closeRead :: "(nat \<times> nat) option \<Rightarrow> Resources \<Rightarrow> Resources" where
  "closeRead p os = (case p of None \<Rightarrow> os | Some (r, w) \<Rightarrow> closeFd r os)"

definition closeWrite :: "(nat \<times> nat) option \<Rightarrow> Resources \<Rightarrow> Resources" where
  "closeWrite p os = (case p of None \<Rightarrow> os | Some (r, w) \<Rightarrow> closeFd w os)"

definition createPipe :: "bool \<Rightarrow> int + nat \<times> nat \<Rightarrow> Resources \<Rightarrow> int + (nat \<times> nat) option \<times> Resources" where
  "createPipe capture answer os =
     (if \<not> capture then Inr (None, os)
      else case answer of
             Inl errno \<Rightarrow> Inl errno
           | Inr (r, w) \<Rightarrow> Inr (Some (r, w), os\<lparr>os_open := r # w # os_open os\<rparr>))"

text \<open>
  \<open>createCloExecPipe\<close> where \<open>pipe2\<close> does not exist: both ends are marked afterwards, and closed
  again when either cannot be.  The result is whether it worked, and the pipe.
\<close>

definition createCloExecPipe :: "int + nat \<times> nat \<Rightarrow> bool \<Rightarrow> bool \<Rightarrow> Resources \<Rightarrow> (nat \<times> nat) option \<times> Resources" where
  "createCloExecPipe answer readMarked writeMarked os =
     (case answer of
        Inl errno \<Rightarrow> (None, os)
      | Inr (r, w) \<Rightarrow>
        let os1 = os\<lparr>os_open := r # w # os_open os\<rparr>
        in if \<not> readMarked \<or> \<not> writeMarked then (None, closeFd w (closeFd r os1)) else (Some (r, w), os1))"

fun joinArgv :: "bool \<Rightarrow> bytes \<Rightarrow> bytes list \<Rightarrow> bytes" where
  "joinArgv first command [] = command"
| "joinArgv first command (arg # argv) = joinArgv False ((if first then command else command @ [32]) @ arg) argv"

definition failedChild :: "int \<Rightarrow> string \<Rightarrow> ChildProcess" where
  "failedChild code what = noChild\<lparr>cp_error := \<lparr>pe_code = code, pe_what = what\<rparr>\<rparr>"

definition spawnCorrelation :: "u64 \<Rightarrow> Producer option \<Rightarrow> u64" where
  "spawnCorrelation scoped logger =
     (if scoped \<noteq> 0 then scoped else case logger of Some P \<Rightarrow> lg_rootCorrelation (pr_logger P) | None \<Rightarrow> 0)"

text \<open>
  The catch handler after the fork: the child is killed and reaped, the ends still owned
  are closed, and \<open>result\<close> is destroyed on the way out; by then \<open>waitpid\<close> has no child to
  report.  A started thread closes its own end when it ends.
\<close>

definition abandonChild ::
  "Caller \<Rightarrow> (nat \<Rightarrow> u64) \<Rightarrow> u64 \<Rightarrow> (nat \<times> nat) option \<Rightarrow> (nat \<times> nat) option \<Rightarrow> ChildProcess \<Rightarrow> Producer option \<Rightarrow> Resources
    \<Rightarrow> (ChildProcess \<times> Resources \<times> Producer option) option" where
  "abandonChild ca clock pid out err result logger os =
     (let os1 = closeRead err (closeRead out (os\<lparr>os_children := remove1 pid (os_children os)\<rparr>));
          cache = (case logger of Some P \<Rightarrow> pr_cache P | None \<Rightarrow> emptyCache)
      in case destroyChild ca (\<lambda>i. clock (i + 3)) cache [WaitError] result of
           None \<Rightarrow> None
         | Some c \<Rightarrow>
             Some (failedChild 0 ''ChildProcess::spawn: allocation failed'',
                   foldl (\<lambda>os t. closeFd (th_fd t) os) os1 (cp_captureThreads result),
                   case cp_state c of Some st \<Rightarrow> cs_logger st | None \<Rightarrow> logger))"

definition startThread :: "(nat \<times> nat) option \<Rightarrow> ChildStream \<Rightarrow> CaptureThread \<Rightarrow> CaptureThread list" where
  "startThread p stream t = (case p of None \<Rightarrow> [] | Some (r, w) \<Rightarrow> [t\<lparr>th_stream := stream, th_fd := r\<rparr>])"

text \<open>The command text of the ChildStart record, and the result object before its threads.\<close>

definition spawnCommand :: "ChildOptions \<Rightarrow> bytes \<times> bool" where
  "spawnCommand options =
     (let command = joinArgv True [] (co_argv options)
      in if cCommandLineCap < length command then (take cCommandLineCap command, True) else (command, False))"

definition startedChild :: "ChildOptions \<Rightarrow> u64 \<Rightarrow> u64 \<Rightarrow> Producer option \<Rightarrow> ChildProcess" where
  "startedChild options childId pid logger =
     noChild\<lparr>cp_pid := pid, cp_childId := childId,
       cp_state := Some \<lparr>cs_logger = logger, cs_onLine = co_onLine options, cs_childId = childId,
         cs_capturedLines = 0, cs_suppressedLines = 0, cs_unloggedLines = 0, cs_truncatedLines = 0, cs_tick = 0\<rparr>\<rparr>"

definition spawnForked ::
  "Caller \<Rightarrow> (nat \<Rightarrow> u64) \<Rightarrow> ChildOptions \<Rightarrow> u64 \<Rightarrow> SpawnAnswers \<Rightarrow> u64 \<Rightarrow> u64 \<Rightarrow> (nat \<times> nat) option \<Rightarrow> (nat \<times> nat) option
    \<Rightarrow> Producer option \<Rightarrow> Resources \<Rightarrow> (ChildProcess \<times> Resources \<times> Producer option) option" where
  "spawnForked ca clock options correlationId answers nextChildId pid out err logger0 os0 =
     (let os = closeWrite err (closeWrite out os0);
          (command, commandTruncated) = spawnCommand options;
          logger = writeChildStart ca clock nextChildId pid correlationId command commandTruncated logger0;
          result = startedChild options nextChildId pid logger
      in if out \<noteq> None \<and> sa_outThreadFails answers then abandonChild ca clock pid out err result logger os
         else
           let result1 = result\<lparr>cp_captureThreads := startThread out cChildStdout (sa_outThread answers)\<rparr>
           in if err \<noteq> None \<and> sa_errThreadFails answers then abandonChild ca clock pid None err result1 logger os
              else Some (result1\<lparr>cp_captureThreads := cp_captureThreads result1 @ startThread err cChildStderr (sa_errThread answers)\<rparr>,
                         os, logger))"

text \<open>
  The result, the parent's resources, the Logger and the next child id; \<open>None\<close> when the
  call does not return, because a capture thread it has to join never sees the end of its
  stream.
\<close>

definition spawn ::
  "Caller \<Rightarrow> (nat \<Rightarrow> u64) \<Rightarrow> ChildOptions \<Rightarrow> u64 \<Rightarrow> SpawnAnswers \<Rightarrow> u64 \<Rightarrow> Producer option \<Rightarrow> Resources
    \<Rightarrow> (ChildProcess \<times> Resources \<times> Producer option \<times> u64) option" where
  "spawn ca clock options scoped answers nextChildId logger os =
     (if co_argv options = [] then Some (failedChild 22 ''ChildProcess::spawn: empty argv'', os, logger, nextChildId)
      else if sa_allocationFails answers
      then Some (failedChild 0 ''ChildProcess::spawn: allocation failed'', os, logger, nextChildId)
      else case createPipe (co_captureStdout options) (sa_pipeOut answers) os of
        Inl errno \<Rightarrow> Some (failedChild errno ''pipe2(stdout)'', os, logger, nextChildId)
      | Inr (out, os1) \<Rightarrow>
        case createPipe (co_captureStderr options) (sa_pipeErr answers) os1 of
          Inl errno \<Rightarrow> Some (failedChild errno ''pipe2(stderr)'', closePipe out os1, logger, nextChildId)
        | Inr (err, os2) \<Rightarrow>
          case sa_fork answers of
            Inl errno \<Rightarrow> Some (failedChild errno ''fork'', closePipe err (closePipe out os2), logger, nextChildId)
          | Inr pid \<Rightarrow>
            map_option (\<lambda>(c, os3, logger3). (c, os3, logger3, nextChildId + 1))
              (spawnForked ca clock options (spawnCorrelation scoped logger) answers nextChildId pid out err
                 logger (os2\<lparr>os_children := pid # os_children os2\<rparr>)))"

definition cCorrelationEnvVar :: string where "cCorrelationEnvVar = ''SUB0LOG_CORRELATION''"

text \<open>
  The child's side after \<open>fork\<close>: redirections, directory, environment, \<open>execvp\<close>.  It ends in
  the new program with that environment, or in exit code 127.
\<close>

datatype ChildSide = Executes "string \<rightharpoonup> string" | Exits127

definition childSide :: "ChildOptions \<Rightarrow> u64 \<Rightarrow> bool \<Rightarrow> bool \<Rightarrow> (string \<rightharpoonup> string) \<Rightarrow> ChildSide" where
  "childSide options correlationId chdirWorks execWorks env =
     (if co_workingDirectory options \<noteq> [] \<and> \<not> chdirWorks then Exits127
      else let env' = (if co_propagateCorrelation options \<and> correlationId \<noteq> 0
                       then env(cCorrelationEnvVar \<mapsto> natToChars 10 (unat correlationId)) else env)
           in if execWorks then Executes env' else Exits127)"

section \<open>Waiting and spawning\<close>

lemma waitChild_returns_status:
  "waitChild ca clock cache answers c = Some (st, c') \<Longrightarrow> waitChild ca' clock' cache' answers' c' = Some (st, c')"
proof -
  assume "waitChild ca clock cache answers c = Some (st, c')"
  then have "cp_waited c' \<and> cp_exitStatus c' = st"
    by (cases "cp_waited c") (auto simp: waitChild_def split: option.splits)
  then show ?thesis by (simp add: waitChild_def)
qed

text \<open>Descriptors as a multiset, so that opening and closing cancel.\<close>

definition openFds :: "Resources \<Rightarrow> nat multiset" where
  "openFds os = mset (os_open os)"

definition pipeFds :: "(nat \<times> nat) option \<Rightarrow> nat multiset" where
  "pipeFds p = (case p of None \<Rightarrow> {#} | Some (r, w) \<Rightarrow> {#r, w#})"

definition readFd :: "(nat \<times> nat) option \<Rightarrow> nat multiset" where
  "readFd p = (case p of None \<Rightarrow> {#} | Some (r, w) \<Rightarrow> {#r#})"

definition writeFd :: "(nat \<times> nat) option \<Rightarrow> nat multiset" where
  "writeFd p = (case p of None \<Rightarrow> {#} | Some (r, w) \<Rightarrow> {#w#})"

lemma close_simps:
  "openFds (closeFd fd os) = openFds os - {#fd#}"
  "openFds (closePipe p os) = openFds os - pipeFds p"
  "openFds (closeRead p os) = openFds os - readFd p"
  "openFds (closeWrite p os) = openFds os - writeFd p"
  "openFds (os\<lparr>os_children := cs\<rparr>) = openFds os"
  "os_children (closeFd fd os) = os_children os" "os_children (closePipe p os) = os_children os"
  "os_children (closeRead p os) = os_children os" "os_children (closeWrite p os) = os_children os"
  by (simp_all add: openFds_def pipeFds_def readFd_def writeFd_def closeFd_def closePipe_def closeRead_def
      closeWrite_def add_mset_commute split: option.split prod.split)

lemma pipeFds_split: "pipeFds p = readFd p + writeFd p"
  by (simp add: pipeFds_def readFd_def writeFd_def split: option.split prod.split)

lemma createPipe_open:
  "createPipe capture answer os = Inr (p, os') \<Longrightarrow>
    openFds os' = openFds os + pipeFds p \<and> os_children os' = os_children os \<and> (p = None \<longleftrightarrow> \<not> capture)"
  by (auto simp: createPipe_def openFds_def pipeFds_def split: if_splits sum.splits prod.splits)

text \<open>Marking an end late fails as \<open>pipe2\<close> does: nothing stays open.\<close>

lemma createCloExecPipe_open:
  "createCloExecPipe answer readMarked writeMarked os = (p, os') \<Longrightarrow>
    openFds os' = openFds os + pipeFds p \<and> os_children os' = os_children os"
  by (auto simp: createCloExecPipe_def Let_def openFds_def closeFd_def pipeFds_def split: if_splits sum.splits)

lemma startThread_fds: "image_mset th_fd (mset (startThread p stream t)) = readFd p"
  by (simp add: startThread_def readFd_def split: option.split prod.split)

lemma foldl_close: "openFds (foldl (\<lambda>os t. closeFd (th_fd t) os) os ts) = openFds os - mset (map th_fd ts)
    \<and> os_children (foldl (\<lambda>os t. closeFd (th_fd t) os) os ts) = os_children os"
  by (induction ts arbitrary: os) (simp_all add: close_simps)

text \<open>What a spawn owns when it returns.\<close>

definition spawnOwns :: "Resources \<Rightarrow> u64 list \<Rightarrow> ChildProcess \<Rightarrow> Resources \<Rightarrow> bool" where
  "spawnOwns os started c os' \<longleftrightarrow>
     (if childValid c
      then openFds os' = openFds os + mset (map th_fd (cp_captureThreads c)) \<and> os_children os' = started @ os_children os
      else openFds os' = openFds os \<and> os_children os' = os_children os \<and> hasError (cp_error c)
        \<and> cp_captureThreads c = [] \<and> cp_state c = None)"

lemma failed_owns: "openFds os' = openFds os \<Longrightarrow> os_children os' = os_children os \<Longrightarrow> what \<noteq> [] \<Longrightarrow>
    spawnOwns os started (failedChild code what) os'"
  by (simp add: spawnOwns_def failedChild_def noChild_def childValid_def hasError_def)

lemma abandonChild_owns:
  assumes "abandonChild ca clock pid out err result logger os = Some (c, os', logger')"
    and "openFds os = openFds os0 + readFd out + readFd err + mset (map th_fd (cp_captureThreads result))"
    and "os_children os = pid # os_children os0"
  shows "spawnOwns os0 started c os'"
  using assms by (auto simp: abandonChild_def Let_def close_simps foldl_close intro!: failed_owns split: option.splits)

lemma spawnForked_owns:
  assumes s: "spawnForked ca clock options corr answers n pid out err logger os = Some (c, os', logger')"
    and "openFds os = openFds os0 + pipeFds out + pipeFds err" and "os_children os = pid # os_children os0" and "n \<noteq> 0"
  shows "spawnOwns os0 [pid] c os'"
proof -
  define os1 where "os1 = closeWrite err (closeWrite out os)"
  obtain command tr where cmd: "spawnCommand options = (command, tr)" by fastforce
  define logger1 where "logger1 = writeChildStart ca clock n pid corr command tr logger"
  define result where "result = startedChild options n pid logger1"
  define result1 where "result1 = result\<lparr>cp_captureThreads := startThread out cChildStdout (sa_outThread answers)\<rparr>"
  have o: "openFds os1 = openFds os0 + readFd out + readFd err" "os_children os1 = pid # os_children os0"
    using assms(2,3) by (simp_all add: os1_def close_simps pipeFds_split)
  have r: "readFd None = {#}" "cp_captureThreads result = []" "cp_childId result = n"
    by (simp_all add: readFd_def result_def startedChild_def noChild_def)
  have s': "(if out \<noteq> None \<and> sa_outThreadFails answers then abandonChild ca clock pid out err result logger1 os1
      else if err \<noteq> None \<and> sa_errThreadFails answers then abandonChild ca clock pid None err result1 logger1 os1
      else Some (result1\<lparr>cp_captureThreads := cp_captureThreads result1 @ startThread err cChildStderr (sa_errThread answers)\<rparr>,
        os1, logger1)) = Some (c, os', logger')"
    using s unfolding spawnForked_def Let_def cmd prod.case
    by (simp only: os1_def [symmetric] logger1_def [symmetric] result_def [symmetric] result1_def [symmetric])
  show ?thesis
  proof (cases "(out \<noteq> None \<and> sa_outThreadFails answers) \<or> (err \<noteq> None \<and> sa_errThreadFails answers)")
    case True
    have "openFds os1 = openFds os0 + readFd out + readFd err + mset (map th_fd (cp_captureThreads result))"
      "openFds os1 = openFds os0 + readFd None + readFd err + mset (map th_fd (cp_captureThreads result1))"
      using o r by (simp_all add: result1_def startThread_fds)
    with True s' o(2) show ?thesis by (auto intro: abandonChild_owns split: if_splits)
  next
    case False
    then show ?thesis
      using s' o r assms(4) by (auto simp: spawnOwns_def childValid_def result1_def startThread_fds split: if_splits)
  qed
qed

lemma spawn_owns:
  assumes "spawn ca clock options scoped answers n logger os = Some (c, os', logger', n')" and "n \<noteq> 0"
  shows "spawnOwns os (case sa_fork answers of Inr pid \<Rightarrow> [pid] | Inl _ \<Rightarrow> []) c os'"
proof -
  consider "c = failedChild 22 ''ChildProcess::spawn: empty argv'' \<and> os' = os"
    | "c = failedChild 0 ''ChildProcess::spawn: allocation failed'' \<and> os' = os"
    | (pipeOut) errno where "c = failedChild errno ''pipe2(stdout)'' \<and> os' = os"
    | (pipeErr) errno out os1 where "createPipe (co_captureStdout options) (sa_pipeOut answers) os = Inr (out, os1)"
        "c = failedChild errno ''pipe2(stderr)'' \<and> os' = closePipe out os1"
    | (piped) out os1 err os2 where "createPipe (co_captureStdout options) (sa_pipeOut answers) os = Inr (out, os1)"
        "createPipe (co_captureStderr options) (sa_pipeErr answers) os1 = Inr (err, os2)"
        "case sa_fork answers of
            Inl errno \<Rightarrow> c = failedChild errno ''fork'' \<and> os' = closePipe err (closePipe out os2)
          | Inr pid \<Rightarrow> spawnForked ca clock options (spawnCorrelation scoped logger) answers n pid out err
                 logger (os2\<lparr>os_children := pid # os_children os2\<rparr>) = Some (c, os', logger')"
    using assms(1) by (fastforce simp: spawn_def split: if_splits sum.splits prod.splits)
  then show ?thesis
  proof cases
    case (pipeErr errno out os1)
    then show ?thesis using createPipe_open [OF pipeErr(1)] by (auto simp: close_simps intro!: failed_owns)
  next
    case (piped out os1 err os2)
    have o: "openFds os2 = openFds os + pipeFds out + pipeFds err" "os_children os2 = os_children os"
      using createPipe_open [OF piped(1)] createPipe_open [OF piped(2)] by simp_all
    show ?thesis
    proof (cases "sa_fork answers")
      case (Inl errno)
      then show ?thesis using piped(3) o by (auto simp: close_simps intro!: failed_owns)
    next
      case (Inr pid)
      then show ?thesis using piped(3) o assms(2)
        by (auto simp: close_simps intro!: spawnForked_owns)
    qed
  qed (auto intro!: failed_owns)
qed

text \<open>A spawn returns unless it has to join a capture thread whose stream never ends.\<close>

lemma joinThreads_None: "joinThreads ts st = None \<Longrightarrow> \<exists>t \<in> set ts. streamOf (th_reads t) = None"
  by (induction ts st rule: joinThreads.induct) (auto simp: captureLoop_lines split: option.splits)

lemma destroyChild_returns:
  "destroyChild ca clock cache [WaitError] c = None \<Longrightarrow> \<exists>t \<in> set (cp_captureThreads c). streamOf (th_reads t) = None"
  by (auto simp: destroyChild_def waitChild_def split: if_splits option.splits dest: joinThreads_None)

lemma spawn_returns:
  assumes "spawn ca clock options scoped answers n logger os = None"
  shows "streamOf (th_reads (sa_outThread answers)) = None"
proof -
  obtain pid out err os2 where f: "spawnForked ca clock options (spawnCorrelation scoped logger) answers n pid out err logger os2 = None"
    using assms by (fastforce simp: spawn_def split: if_splits sum.splits prod.splits)
  then obtain o' result logger1 os1 where a: "abandonChild ca clock pid o' err result logger1 os1 = None"
    "set (cp_captureThreads result) \<subseteq> set (startThread out cChildStdout (sa_outThread answers))"
    by (fastforce simp: spawnForked_def Let_def startedChild_def noChild_def split: if_splits prod.splits)
  then obtain t where "t \<in> set (cp_captureThreads result)" "streamOf (th_reads t) = None"
    by (auto simp: abandonChild_def Let_def split: option.splits dest!: destroyChild_returns)
  then show ?thesis using a(2) by (fastforce simp: startThread_def split: option.splits prod.splits)
qed

fun reapEnds :: "WaitResult list \<Rightarrow> bool" where
  "reapEnds [] = False"
| "reapEnds (WaitInterrupted # answers) = reapEnds answers"
| "reapEnds (r # answers) = True"

lemma reap_None: "reap pid answers = None \<longleftrightarrow> \<not> reapEnds answers"
  by (induction answers rule: reapEnds.induct) simp_all

definition threadEnds :: "CaptureThread \<Rightarrow> bool" where
  "threadEnds t \<longleftrightarrow> streamOf (th_reads t) \<noteq> None"

lemma joinThreads_None_iff: "joinThreads ts st = None \<longleftrightarrow> \<not> list_all threadEnds ts"
  by (induction ts st rule: joinThreads.induct) (auto simp: captureLoop_lines threadEnds_def split: option.splits)

lemma captureLoop_ledger:
  fixes stream :: ChildStream
  assumes inv: "prod_inv ca (2 * length lines + k) P cs" and st: "cs_logger state = Some P"
    and data: "streamOf reads = Some data" and lines: "lines = refLines data"
  defines "kept \<equiv> keptLines (cs_onLine state) (cs_childId state) stream lines"
  obtains state' P' cs' rs d ts where "captureLoop ca clock stream reads state = Some state'"
    "cs_logger state' = Some P'" "outcome ca k P cs P' cs' rs d 0"
    "map snd rs = map (\<lambda>(m, t). childOutputBytes (cs_childId state) m stream t) ts"
    "list_all (\<lambda>r. rh_kind (fst r) = ChildOutput) rs"
    "subseq (map snd ts) (map fst kept)" "length rs + d = length kept"
    "cs_capturedLines state' = cs_capturedLines state + of_nat (length lines)"
    "cs_truncatedLines state' = cs_truncatedLines state + of_nat (length (filter snd lines))"
    "cs_suppressedLines state' + of_nat (length kept) = cs_suppressedLines state + of_nat (length lines)"
    "cs_unloggedLines state' = cs_unloggedLines state"
    "0 < d \<longrightarrow> length cs' = unat (sg_chunkCount (seg P)) \<or> \<not> fitsEmpty P (cLineCap + 24)"
proof -
  have "\<forall>(t, b) \<in> set lines. length t \<le> cLineCap" unfolding lines using refLines_short by blast
  from writeLines_outcome [OF inv st this, of clock stream]
    writeLines_counters [of ca clock stream state lines]
  show thesis
    using that [of "writeLines ca clock stream state lines"] st data lines
    unfolding captureLoop_lines kept_def by auto
qed

definition exampleCapture :: ChildCaptureState where
  "exampleCapture = \<lparr>cs_logger = Some (exampleProducer False 4096), cs_onLine = None, cs_childId = 7,
     cs_capturedLines = 0, cs_suppressedLines = 0, cs_unloggedLines = 0, cs_truncatedLines = 0, cs_tick = 0\<rparr>"

definition exampleReads :: "ReadResult list" where
  "exampleReads = [ReadData [104], ReadInterrupted, ReadData [105, 13], ReadData [10, 10], ReadData []]"

definition exampleThread :: CaptureThread where
  "exampleThread = \<lparr>th_stream = 1, th_fd = 0, th_caller = exampleCaller False, th_cache = emptyCache,
     th_clock = (\<lambda>_. 0), th_reads = exampleReads\<rparr>"

definition exampleOptions :: ChildOptions where
  "exampleOptions = \<lparr>co_argv = [[108, 115]], co_workingDirectory = [], co_captureStdout = True,
     co_captureStderr = False, co_propagateCorrelation = True, co_onLine = None\<rparr>"

definition exampleAnswers :: SpawnAnswers where
  "exampleAnswers = \<lparr>sa_allocationFails = False, sa_pipeOut = Inr (3, 4), sa_pipeErr = Inr (5, 6), sa_fork = Inr 99,
     sa_outThreadFails = True, sa_errThreadFails = False, sa_outThread = exampleThread, sa_errThread = exampleThread\<rparr>"

text \<open>
  A line of exactly the cap is whole when it ends in LF and cut when it ends in CRLF: the
  carriage return counts against the cap before it is dropped.
\<close>

lemma crlf_line_at_cap:
  "refLines (replicate cLineCap 65 @ [10]) = [(replicate cLineCap 65, False)]
   \<and> refLines (replicate cLineCap 65 @ [13, 10]) = [(replicate cLineCap 65, True)]"
proof -
  have r: "refLines [] = []" by (simp add: refLines_plain lastLine_def)
  have l: "last (replicate cLineCap (65 :: u8)) = 65" "cLineCap \<noteq> 0" by (simp_all add: cLineCap_def cInlineBytesCap_def)
  have "wholeLine (replicate cLineCap 65) = (replicate cLineCap 65, False)"
    using l by (simp add: wholeLine_def stripReturn_def)
  moreover have "wholeLine (replicate cLineCap 65 @ [13]) = (replicate cLineCap 65, True)"
    by (simp add: wholeLine_def)
  ultimately show ?thesis
    using r refLines_line [of "replicate cLineCap 65" "[]"] refLines_line [of "replicate cLineCap 65 @ [13]" "[]"]
    by simp
qed

section \<open>The Windows environment block\<close>

text \<open>
  Wide strings are lists of 16-bit units; \<open>towupper\<close> is the C library's.  \<open>entries\<close> are the
  strings of the parent's block, each without its terminator.
\<close>

type_synonym wide = "u16 list"

definition isOverride :: "(u16 \<Rightarrow> u16) \<Rightarrow> wide \<Rightarrow> wide \<Rightarrow> bool" where
  "isOverride towupper overrideName entry =
     (let eq = length (takeWhile (\<lambda>c. c \<noteq> 61) entry)
      in eq \<noteq> length entry \<and> eq = length overrideName
         \<and> list_all2 (\<lambda>a b. towupper a = towupper b) (take eq entry) overrideName)"

fun copyEntries :: "(u16 \<Rightarrow> u16) \<Rightarrow> wide \<Rightarrow> wide \<Rightarrow> wide list \<Rightarrow> wide" where
  "copyEntries towupper overrideName block [] = block"
| "copyEntries towupper overrideName block (entry # entries) =
     copyEntries towupper overrideName
       (if isOverride towupper overrideName entry then block else block @ entry @ [0]) entries"

definition buildChildEnvironmentBlock :: "(u16 \<Rightarrow> u16) \<Rightarrow> wide list \<Rightarrow> wide \<Rightarrow> wide \<Rightarrow> wide" where
  "buildChildEnvironmentBlock towupper entries overrideName overrideValue =
     copyEntries towupper overrideName [] entries @ overrideName @ [61] @ overrideValue @ [0] @ [0]"

text \<open>Reading a block: strings up to their terminators, until an empty one.\<close>

function readBlock :: "wide \<Rightarrow> wide list" where
  "readBlock s = (if s = [] \<or> hd s = 0 then []
     else takeWhile (\<lambda>c. c \<noteq> 0) s # readBlock (tl (dropWhile (\<lambda>c. c \<noteq> 0) s)))"
  by pat_completeness auto
termination
proof (relation "measure length")
  fix s :: wide assume s: "\<not> (s = [] \<or> hd s = 0)"
  have "length (dropWhile (\<lambda>c. c \<noteq> 0) s) \<le> length s" by (rule length_dropWhile_le)
  moreover have "0 < length s" using s by simp
  ultimately show "(tl (dropWhile (\<lambda>c. c \<noteq> 0) s), s) \<in> measure length"
    unfolding in_measure length_tl by linarith
qed simp

declare readBlock.simps [simp del]

definition wellEntry :: "wide \<Rightarrow> bool" where
  "wellEntry e \<longleftrightarrow> e \<noteq> [] \<and> 0 \<notin> set e"

lemma readBlock_entry:
  assumes "wellEntry e"
  shows "readBlock (e @ 0 # rest) = e # readBlock rest"
proof -
  have "takeWhile (\<lambda>c. c \<noteq> 0) (e @ 0 # rest) = e" "dropWhile (\<lambda>c. c \<noteq> 0) (e @ 0 # rest) = 0 # rest"
    using until_simps [of 0 e rest] assms by (simp_all add: wellEntry_def)
  moreover have "\<not> (e @ 0 # rest = [] \<or> hd (e @ 0 # rest) = 0)" using assms by (cases e) (auto simp: wellEntry_def)
  ultimately show ?thesis by (subst readBlock.simps) simp
qed

lemma copyEntries_append:
  "copyEntries towupper name block entries
    = block @ concat (map (\<lambda>e. e @ [0]) (filter (\<lambda>e. \<not> isOverride towupper name e) entries))"
  by (induction entries arbitrary: block) simp_all

lemma readBlock_concat:
  "list_all wellEntry es \<Longrightarrow> readBlock (concat (map (\<lambda>e. e @ [0]) es) @ rest) = es @ readBlock rest"
  by (induction es) (simp_all add: readBlock_entry)

lemma environment_block:
  assumes "list_all wellEntry entries" and "0 \<notin> set name" and "0 \<notin> set val"
  shows "readBlock (buildChildEnvironmentBlock towupper entries name val)
    = filter (\<lambda>e. \<not> isOverride towupper name e) entries @ [name @ 61 # val]"
proof -
  have "list_all wellEntry (filter (\<lambda>e. \<not> isOverride towupper name e) entries)" using assms(1) by (auto simp: list_all_iff)
  moreover have "wellEntry (name @ 61 # val)" using assms by (simp add: wellEntry_def)
  moreover have "readBlock [0] = []" by (simp add: readBlock.simps)
  ultimately show ?thesis
    using readBlock_entry [of "name @ 61 # val" "[0]"]
    by (simp add: buildChildEnvironmentBlock_def copyEntries_append readBlock_concat)
qed

section \<open>Properties\<close>

text \<open>
  C14. Capture is the reference: however the operating system cuts the stream into reads,
  and however often it interrupts them, the capture loop writes exactly the lines of the
  whole stream (cut at newlines, the carriage return of a CRLF dropped, lines past the cap
  cut and flagged, an unterminated rest kept), and it ends exactly when the stream does.
\<close>

theorem capture_equals_reference:
  "captureLoop ca clock stream reads state =
     map_option (\<lambda>data. writeLines ca clock stream state (refLines data)) (streamOf reads)"
  by (rule captureLoop_lines)

text \<open>
  Printed lines arrive as printed: lines without newlines that fit the cap, ended by
  LF or CRLF and delivered in any pieces, are written unflagged, one record each, in order.
\<close>

theorem printed_lines_captured:
  assumes "list_all printable ls" and "streamOf reads = Some (concat (map printLine ls))"
  shows "captureLoop ca clock stream reads state = Some (writeLines ca clock stream state (map (\<lambda>l. (fst l, False)) ls))"
  using assms by (simp add: captureLoop_lines refLines_printed)

theorem printed_lines_captured_witness:
  "captureLoop (exampleCaller False) (\<lambda>_. 0) cChildStdout exampleReads exampleCapture
    = Some (writeLines (exampleCaller False) (\<lambda>_. 0) cChildStdout exampleCapture
        (map (\<lambda>l. (fst l, False)) [([104, 105], True), ([], False)]))"
  by (rule printed_lines_captured)
    (simp_all add: printable_def printLine_def cLineCap_def cInlineBytesCap_def exampleReads_def)

text \<open>
  C13. No captured line is lost silently.  On a bound Logger, every line the stream holds
  is counted captured, counted truncated if it was cut, and then suppressed by the
  interceptor and counted, or appended to the capturing thread's log as one ChildOutput
  record of this child and stream, or counted dropped, which happens only when the segment
  is full or its chunks cannot hold a full line.
\<close>

theorem capture_ledger:
  fixes stream :: ChildStream
  assumes "prod_inv ca (2 * length (refLines data) + k) P cs" and "cs_logger state = Some P"
    and "streamOf reads = Some data"
  defines "kept \<equiv> keptLines (cs_onLine state) (cs_childId state) stream (refLines data)"
  shows "\<exists>state' P' cs' rs d ts. captureLoop ca clock stream reads state = Some state'
    \<and> cs_logger state' = Some P' \<and> outcome ca k P cs P' cs' rs d 0
    \<and> map snd rs = map (\<lambda>(m, t). childOutputBytes (cs_childId state) m stream t) ts
    \<and> list_all (\<lambda>r. rh_kind (fst r) = ChildOutput) rs
    \<and> subseq (map snd ts) (map fst kept) \<and> length rs + d = length kept
    \<and> cs_capturedLines state' = cs_capturedLines state + of_nat (length (refLines data))
    \<and> cs_truncatedLines state' = cs_truncatedLines state + of_nat (length (filter snd (refLines data)))
    \<and> cs_suppressedLines state' + of_nat (length kept) = cs_suppressedLines state + of_nat (length (refLines data))
    \<and> cs_unloggedLines state' = cs_unloggedLines state
    \<and> (0 < d \<longrightarrow> length cs' = unat (sg_chunkCount (seg P)) \<or> \<not> fitsEmpty P (cLineCap + 24))"
  using captureLoop_ledger [OF assms(1-3) refl, where stream = stream and clock = clock] unfolding kept_def by metis

theorem capture_ledger_witness:
  "\<exists>state'. captureLoop (exampleCaller False) (\<lambda>_. 0) cChildStdout exampleReads exampleCapture = Some state'
    \<and> cs_capturedLines state' = 2"
proof -
  have lines: "refLines [104, 105, 13, 10, 10] = [([104, 105], False), ([], False)]"
    using refLines_printed [of "[([104, 105], True), ([], False)]"]
    by (simp add: printable_def printLine_def cLineCap_def cInlineBytesCap_def)
  have "prod_inv (exampleCaller False) (2 * length (refLines [104, 105, 13, 10, 10]) + 0) (exampleProducer False 4096) []"
    unfolding lines by (rule exampleProducer_inv) simp_all
  from capture_ledger [OF this, of exampleCapture exampleReads "\<lambda>_. 0" cChildStdout]
  show ?thesis by (auto simp: exampleCapture_def exampleReads_def lines)
qed

text \<open>
  C33. Waiting returns exactly when it can: \<open>wait\<close> hangs only when the stream of a capture
  thread never ends or \<open>waitpid\<close> keeps being interrupted, and a second \<open>wait\<close> always returns
  at once, with the first one's status and without a second ChildExit record.
\<close>

theorem wait_returns:
  "(waitChild ca clock cache answers c = None \<longleftrightarrow>
     \<not> cp_waited c \<and> ((cp_state c \<noteq> None \<and> \<not> list_all threadEnds (cp_captureThreads c))
                     \<or> (cp_pid c \<noteq> 0 \<and> \<not> reapEnds answers)))
   \<and> (case waitChild ca clock cache answers c of
        None \<Rightarrow> True
      | Some (status, c') \<Rightarrow> waitChild ca' clock' cache' answers' c' = Some (status, c'))"
proof
  show "waitChild ca clock cache answers c = None \<longleftrightarrow>
     \<not> cp_waited c \<and> ((cp_state c \<noteq> None \<and> \<not> list_all threadEnds (cp_captureThreads c))
                     \<or> (cp_pid c \<noteq> 0 \<and> \<not> reapEnds answers))"
    using reap_None [of "cp_pid c" answers] joinThreads_None_iff [of "cp_captureThreads c" "the (cp_state c)"]
    by (cases "cp_state c") (auto simp: waitChild_def split: option.splits)
  show "case waitChild ca clock cache answers c of None \<Rightarrow> True
      | Some (status, c') \<Rightarrow> waitChild ca' clock' cache' answers' c' = Some (status, c')"
    by (auto split: option.split intro: waitChild_returns_status)
qed

text \<open>
  C30. Spawning leaks nothing.  Whatever fails (the argument vector, an allocation, either
  pipe, \<open>fork\<close>, either capture thread), an invalid result leaves the parent's open
  descriptors and children exactly as they were and names the error; a valid one has
  started one child and left open exactly the read ends its capture threads own.  The call
  returns unless the capture thread it has to join never sees the end of its stream.
\<close>

theorem spawn_leaks_nothing:
  assumes "nextChildId \<noteq> 0"
  shows "case spawn ca clock options scoped answers nextChildId logger os of
      None \<Rightarrow> streamOf (th_reads (sa_outThread answers)) = None
    | Some (c, os', logger', nextChildId') \<Rightarrow>
        spawnOwns os (case sa_fork answers of Inr pid \<Rightarrow> [pid] | Inl _ \<Rightarrow> []) c os'"
  using spawn_returns spawn_owns [OF _ assms] by (auto split: option.split)

theorem spawn_leaks_nothing_witness:
  "case spawn (exampleCaller False) (\<lambda>_. 0) exampleOptions 0 exampleAnswers 1 None \<lparr>os_open = [0, 1, 2], os_children = []\<rparr> of
      None \<Rightarrow> streamOf (th_reads (sa_outThread exampleAnswers)) = None
    | Some (c, os', logger', nextChildId') \<Rightarrow>
        spawnOwns \<lparr>os_open = [0, 1, 2], os_children = []\<rparr> (case sa_fork exampleAnswers of Inr pid \<Rightarrow> [pid] | Inl _ \<Rightarrow> []) c os'"
  by (rule spawn_leaks_nothing) simp

text \<open>
  A child that is killed because its capture thread could not be created leaves a
  clean bill in the log: the failed spawn writes its ChildStart and then, while the result
  object is destroyed, a ChildExit with exit code 0 and no signal.
\<close>

theorem killed_child_logged_clean:
  assumes "co_argv options \<noteq> []" and "\<not> sa_allocationFails answers" and "co_captureStdout options"
    and "sa_pipeOut answers = Inr (r, w)" and "\<not> co_captureStderr options" and "sa_fork answers = Inr pid"
    and "sa_outThreadFails answers" and "nextChildId \<noteq> 0"
  shows "\<exists>os'. spawn ca clock options scoped answers nextChildId logger os =
    Some (failedChild 0 ''ChildProcess::spawn: allocation failed'', os',
      writeChildExit ca (\<lambda>i. clock (i + 3)) nextChildId \<lparr>es_exitCode = 0, es_signal = 0\<rparr>
        (writeChildStart ca clock nextChildId pid (spawnCorrelation scoped logger)
          (fst (spawnCommand options)) (snd (spawnCommand options)) logger), nextChildId + 1)"
proof -
  have on: "onThread (case l of Some P \<Rightarrow> pr_cache P | None \<Rightarrow> emptyCache) l = l" for l
    by (simp add: onThread_def split: option.split)
  show ?thesis
    using assms
    by (simp add: spawn_def createPipe_def spawnForked_def case_prod_beta Let_def abandonChild_def destroyChild_def
        startedChild_def noChild_def waitChild_def on)
qed

theorem killed_child_logged_clean_witness:
  "\<exists>os'. spawn (exampleCaller False) (\<lambda>_. 0) exampleOptions 0 exampleAnswers 1 (cs_logger exampleCapture)
      \<lparr>os_open = [0, 1, 2], os_children = []\<rparr> =
    Some (failedChild 0 ''ChildProcess::spawn: allocation failed'', os',
      writeChildExit (exampleCaller False) (\<lambda>i. 0) 1 \<lparr>es_exitCode = 0, es_signal = 0\<rparr>
        (writeChildStart (exampleCaller False) (\<lambda>_. 0) 1 99 (spawnCorrelation 0 (cs_logger exampleCapture))
          (fst (spawnCommand exampleOptions)) (snd (spawnCommand exampleOptions)) (cs_logger exampleCapture)), 1 + 1)"
  by (rule killed_child_logged_clean [where r = 3 and w = 4]) (simp_all add: exampleOptions_def exampleAnswers_def)

text \<open>
  The correlation reaches a cooperating child: the environment a spawned program
  starts with parses to the id in scope at the spawn, the process's root correlation when
  no scope is open; without propagation, or without an id, it is the parent's own.
\<close>

theorem correlation_propagates:
  "case childSide options (spawnCorrelation scoped logger) True True env of
     Exits127 \<Rightarrow> False
   | Executes env' \<Rightarrow> correlationFromEnvironment (env' cCorrelationEnvVar) =
       (if co_propagateCorrelation options \<and> spawnCorrelation scoped logger \<noteq> 0
        then spawnCorrelation scoped logger else correlationFromEnvironment (env cCorrelationEnvVar))"
  by (simp add: childSide_def Let_def correlation_environment_id)

end
