(* ===== verification/Windows.thy ===== *)
theory Windows
  imports FileMapping Child Decoder
begin

text \<open>
  The Windows arm of \<^verbatim>\<open>include/sub0log/detail/platform.hpp\<close>: wide paths, the mapped file and
  the clocks; and the clocks of the POSIX arm beside them.  What the operating system
  answers beyond its documented rules is an argument.
\<close>

section \<open>Wide paths\<close>

text \<open>
  The answers of \<open>MultiByteToWideChar\<close> (the length, when asked for it; the count written and
  the buffer, when given one) and of \<open>GetLastError\<close> after it.
\<close>

record WideAnswers =
  wa_length :: "bytes \<Rightarrow> int"
  wa_written :: "bytes \<Rightarrow> nat \<Rightarrow> int \<times> wide"
  wa_lastError :: "bytes \<Rightarrow> int"

record WidePath =
  wp_value :: wide
  wp_error :: PlatformError

definition toWidePath :: "WideAnswers \<Rightarrow> bytes \<Rightarrow> WidePath" where
  "toWidePath answers utf8 =
     (if utf8 = [] then \<lparr>wp_value = [], wp_error = noError\<rparr>
      else if 0x7FFFFFFF < length utf8
      then \<lparr>wp_value = [], wp_error = \<lparr>pe_code = 87, pe_what = ''MultiByteToWideChar(path too long)''\<rparr>\<rparr>
      else
        let wideLen = wa_length answers utf8
        in if wideLen \<le> 0
           then \<lparr>wp_value = [], wp_error = \<lparr>pe_code = wa_lastError answers utf8, pe_what = ''MultiByteToWideChar''\<rparr>\<rparr>
           else
             let (written, buffer) = wa_written answers utf8 (nat wideLen)
             in if written \<le> 0
                then \<lparr>wp_value = [], wp_error = \<lparr>pe_code = wa_lastError answers utf8, pe_what = ''MultiByteToWideChar''\<rparr>\<rparr>
                else \<lparr>wp_value = buffer, wp_error = noError\<rparr>)"

text \<open>The documented behaviour for a conversion \<open>conv\<close> that fails on ill-formed text.\<close>

definition converts :: "(bytes \<Rightarrow> wide option) \<Rightarrow> WideAnswers \<Rightarrow> bool" where
  "converts conv answers \<longleftrightarrow>
     (\<forall>s. wa_length answers s = (case conv s of None \<Rightarrow> 0 | Some w \<Rightarrow> int (length w)))
     \<and> (\<forall>s w. conv s = Some w \<longrightarrow> wa_written answers s (length w) = (int (length w), w))"

lemma toWidePath_converts:
  assumes "converts conv answers" and "\<forall>s. s \<noteq> [] \<longrightarrow> conv s \<noteq> Some []" and "length s \<le> 0x7FFFFFFF" and "s \<noteq> []"
  shows "toWidePath answers s =
    (case conv s of
       None \<Rightarrow> \<lparr>wp_value = [], wp_error = \<lparr>pe_code = wa_lastError answers s, pe_what = ''MultiByteToWideChar''\<rparr>\<rparr>
     | Some w \<Rightarrow> \<lparr>wp_value = w, wp_error = noError\<rparr>)"
  using assms by (auto simp: toWidePath_def converts_def Let_def split: option.split)

section \<open>The system\<close>

record WindowsSystem =
  ws_files :: "wide \<rightharpoonup> bytes"
  ws_handles :: "nat list"
  ws_views :: "nat list"

record WindowsAnswers =
  wm_wide :: WideAnswers
  wm_file :: "int + nat"
  wm_size :: "int + unit"
  wm_mapping :: "int + nat"
  wm_view :: "int + nat"

abbreviation cERROR_FILE_NOT_FOUND :: int where "cERROR_FILE_NOT_FOUND \<equiv> 2"
abbreviation cERROR_FILE_EXISTS :: int where "cERROR_FILE_EXISTS \<equiv> 80"
abbreviation cERROR_INVALID_PARAMETER :: int where "cERROR_INVALID_PARAMETER \<equiv> 87"
abbreviation cERROR_NEGATIVE_SEEK :: int where "cERROR_NEGATIVE_SEEK \<equiv> 131"
abbreviation cERROR_FILE_INVALID :: int where "cERROR_FILE_INVALID \<equiv> 1006"

definition CreateFileNew :: "wide \<Rightarrow> int + nat \<Rightarrow> WindowsSystem \<Rightarrow> int + nat \<times> WindowsSystem" where
  "CreateFileNew path answer sys =
     (if path \<in> dom (ws_files sys) then Inl cERROR_FILE_EXISTS
      else case answer of
             Inl err \<Rightarrow> Inl err
           | Inr h \<Rightarrow> Inr (h, sys\<lparr>ws_files := (ws_files sys)(path \<mapsto> []), ws_handles := h # ws_handles sys\<rparr>))"

definition CreateFileExisting :: "wide \<Rightarrow> int + nat \<Rightarrow> WindowsSystem \<Rightarrow> int + nat \<times> WindowsSystem" where
  "CreateFileExisting path answer sys =
     (if path \<notin> dom (ws_files sys) then Inl cERROR_FILE_NOT_FOUND
      else case answer of
             Inl err \<Rightarrow> Inl err
           | Inr h \<Rightarrow> Inr (h, sys\<lparr>ws_handles := h # ws_handles sys\<rparr>))"

text \<open>\<open>SetFilePointerEx\<close> and \<open>SetEndOfFile\<close>, with the size as a signed 64-bit offset.\<close>

definition setEndOfFile :: "wide \<Rightarrow> u64 \<Rightarrow> int + unit \<Rightarrow> WindowsSystem \<Rightarrow> int + WindowsSystem" where
  "setEndOfFile path len answer sys =
     (if sint len < 0 then Inl cERROR_NEGATIVE_SEEK
      else case answer of
             Inl err \<Rightarrow> Inl err
           | Inr u \<Rightarrow> Inr (sys\<lparr>ws_files := (ws_files sys)(path \<mapsto> replicate (unat len) 0)\<rparr>))"

text \<open>A mapping object of size 0 stands for the file's size; a file of no bytes has none.\<close>

definition CreateFileMapping :: "nat \<Rightarrow> int + nat \<Rightarrow> WindowsSystem \<Rightarrow> int + nat \<times> WindowsSystem" where
  "CreateFileMapping fileBytes answer sys =
     (if fileBytes = 0 then Inl cERROR_FILE_INVALID
      else case answer of
             Inl err \<Rightarrow> Inl err
           | Inr h \<Rightarrow> Inr (h, sys\<lparr>ws_handles := h # ws_handles sys\<rparr>))"

definition MapViewOfFile :: "int + nat \<Rightarrow> WindowsSystem \<Rightarrow> int + nat \<times> WindowsSystem" where
  "MapViewOfFile answer sys =
     (case answer of Inl err \<Rightarrow> Inl err | Inr base \<Rightarrow> Inr (base, sys\<lparr>ws_views := base # ws_views sys\<rparr>))"

definition CloseHandle :: "nat \<Rightarrow> WindowsSystem \<Rightarrow> WindowsSystem" where
  "CloseHandle h sys = sys\<lparr>ws_handles := remove1 h (ws_handles sys)\<rparr>"

definition UnmapViewOfFile :: "nat \<Rightarrow> WindowsSystem \<Rightarrow> WindowsSystem" where
  "UnmapViewOfFile base sys = sys\<lparr>ws_views := remove1 base (ws_views sys)\<rparr>"

section \<open>The mapping object\<close>

record WindowsMapping =
  wf_base :: nat
  wf_size :: nat
  wf_file :: "nat option"
  wf_mapping :: "nat option"
  wf_error :: PlatformError

definition emptyWindowsMapping :: WindowsMapping where
  "emptyWindowsMapping = \<lparr>wf_base = 0, wf_size = 0, wf_file = None, wf_mapping = None, wf_error = noError\<rparr>"

definition windowsMappingValid :: "WindowsMapping \<Rightarrow> bool" where
  "windowsMappingValid m \<longleftrightarrow> wf_base m \<noteq> 0"

definition windowsMappingFailed :: "int \<Rightarrow> string \<Rightarrow> WindowsMapping" where
  "windowsMappingFailed err what = emptyWindowsMapping\<lparr>wf_error := \<lparr>pe_code = err, pe_what = what\<rparr>\<rparr>"

definition closeOptional :: "nat option \<Rightarrow> WindowsSystem \<Rightarrow> WindowsSystem" where
  "closeOptional h sys = (case h of None \<Rightarrow> sys | Some x \<Rightarrow> CloseHandle x sys)"

definition releaseWindowsMapping :: "WindowsMapping \<Rightarrow> WindowsSystem \<Rightarrow> WindowsMapping \<times> WindowsSystem" where
  "releaseWindowsMapping m sys =
     (let sys1 = (if wf_base m \<noteq> 0 then UnmapViewOfFile (wf_base m) sys else sys);
          sys2 = closeOptional (wf_mapping m) sys1;
          sys3 = closeOptional (wf_file m) sys2
      in (m\<lparr>wf_mapping := None, wf_base := 0, wf_size := 0, wf_file := None\<rparr>, sys3))"

definition moveWindowsMapping :: "WindowsMapping \<Rightarrow> WindowsMapping \<times> WindowsMapping" where
  "moveWindowsMapping other = (other, other\<lparr>wf_base := 0, wf_size := 0, wf_file := None, wf_mapping := None\<rparr>)"

definition assignWindowsMapping ::
  "WindowsMapping \<Rightarrow> WindowsMapping \<Rightarrow> WindowsSystem \<Rightarrow> WindowsMapping \<times> WindowsMapping \<times> WindowsSystem" where
  "assignWindowsMapping self other sys =
     (let (released, sys1) = releaseWindowsMapping self sys
      in (released\<lparr>wf_base := wf_base other, wf_size := wf_size other, wf_file := wf_file other,
            wf_mapping := wf_mapping other, wf_error := wf_error other\<rparr>,
          other\<lparr>wf_mapping := None, wf_base := 0, wf_size := 0, wf_file := None\<rparr>, sys1))"

definition createWindowsMapping :: "WindowsAnswers \<Rightarrow> string \<Rightarrow> u64 \<Rightarrow> WindowsSystem \<Rightarrow> WindowsMapping \<times> WindowsSystem" where
  "createWindowsMapping answers path len sys =
     (let widePath = toWidePath (wm_wide answers) (bytesOfString path)
      in if hasError (wp_error widePath) then (emptyWindowsMapping\<lparr>wf_error := wp_error widePath\<rparr>, sys)
      else case CreateFileNew (wp_value widePath) (wm_file answers) sys of
        Inl err \<Rightarrow> (windowsMappingFailed err ''CreateFileW'', sys)
      | Inr (file, sys1) \<Rightarrow>
        case setEndOfFile (wp_value widePath) len (wm_size answers) sys1 of
          Inl err \<Rightarrow> (windowsMappingFailed err ''SetEndOfFile'', CloseHandle file sys1)
        | Inr sys2 \<Rightarrow>
          case CreateFileMapping (unat len) (wm_mapping answers) sys2 of
            Inl err \<Rightarrow> (windowsMappingFailed err ''CreateFileMappingW'', CloseHandle file sys2)
          | Inr (mapping, sys3) \<Rightarrow>
            case MapViewOfFile (wm_view answers) sys3 of
              Inl err \<Rightarrow> (windowsMappingFailed err ''MapViewOfFile'', CloseHandle file (CloseHandle mapping sys3))
            | Inr (base, sys4) \<Rightarrow>
                (\<lparr>wf_base = base, wf_size = unat len, wf_file = Some file, wf_mapping = Some mapping, wf_error = noError\<rparr>, sys4))"

definition openWindowsReadOnly :: "WindowsAnswers \<Rightarrow> string \<Rightarrow> WindowsSystem \<Rightarrow> WindowsMapping \<times> WindowsSystem" where
  "openWindowsReadOnly answers path sys =
     (let widePath = toWidePath (wm_wide answers) (bytesOfString path)
      in if hasError (wp_error widePath) then (emptyWindowsMapping\<lparr>wf_error := wp_error widePath\<rparr>, sys)
      else case CreateFileExisting (wp_value widePath) (wm_file answers) sys of
        Inl err \<Rightarrow> (windowsMappingFailed err ''CreateFileW'', sys)
      | Inr (file, sys1) \<Rightarrow>
        case wm_size answers of
          Inl err \<Rightarrow> (windowsMappingFailed err ''GetFileSizeEx'', CloseHandle file sys1)
        | Inr u \<Rightarrow>
          let fileBytes = length (the (ws_files sys1 (wp_value widePath)))
          in case CreateFileMapping fileBytes (wm_mapping answers) sys1 of
               Inl err \<Rightarrow> (windowsMappingFailed err ''CreateFileMappingW'', CloseHandle file sys1)
             | Inr (mapping, sys2) \<Rightarrow>
               case MapViewOfFile (wm_view answers) sys2 of
                 Inl err \<Rightarrow> (windowsMappingFailed err ''MapViewOfFile'', CloseHandle file (CloseHandle mapping sys2))
               | Inr (base, sys3) \<Rightarrow>
                   (\<lparr>wf_base = base, wf_size = fileBytes, wf_file = Some file, wf_mapping = Some mapping, wf_error = noError\<rparr>, sys3))"

text \<open>The custom arm maps nothing.\<close>

definition createCustomMapping :: "string \<Rightarrow> u64 \<Rightarrow> Mapping" where
  "createCustomMapping path len =
     mappingFailed 0 ''FileMapping: no file mapping under SUB0LOG_PLATFORM_CUSTOM (use Logger::createInMemory)''"

definition openCustomReadOnly :: "string \<Rightarrow> Mapping" where
  "openCustomReadOnly path = mappingFailed 0 ''FileMapping: no file mapping under SUB0LOG_PLATFORM_CUSTOM''"

section \<open>What a mapping promises\<close>

text \<open>
  The contract between a mapped file and the segment over it, the same on both platforms:
  creating owns exactly what it leaves open, releasing gives it back, and a valid mapping
  is a new file of zeros.  Descriptors and handles are on the left of the sum, views on the
  right.
\<close>

locale file_mapping =
  fixes create :: "'answers \<Rightarrow> string \<Rightarrow> u64 \<Rightarrow> 'sys \<Rightarrow> 'm \<times> 'sys"
    and release :: "'m \<Rightarrow> 'sys \<Rightarrow> 'm \<times> 'sys"
    and valid :: "'m \<Rightarrow> bool"
    and failure :: "'m \<Rightarrow> PlatformError"
    and content :: "'answers \<Rightarrow> string \<Rightarrow> 'm \<Rightarrow> 'sys \<Rightarrow> bytes"
    and resources :: "'sys \<Rightarrow> (nat + nat) multiset"
    and owns :: "'m \<Rightarrow> (nat + nat) multiset"
    and sound :: "'answers \<Rightarrow> bool"
  assumes create_owns: "sound a \<Longrightarrow> create a path len sys = (m, sys') \<Longrightarrow> resources sys' = resources sys + owns m"
    and create_valid: "sound a \<Longrightarrow> create a path len sys = (m, sys') \<Longrightarrow> valid m \<longleftrightarrow> \<not> hasError (failure m)"
    and create_zeros: "sound a \<Longrightarrow> create a path len sys = (m, sys') \<Longrightarrow> valid m \<Longrightarrow>
      content a path m sys' = replicate (unat len) 0"
    and release_returns: "resources sys = held + owns m \<Longrightarrow> release m sys = (m', sys') \<Longrightarrow>
      resources sys' = held \<and> owns m' = {#}"
begin

lemma create_release:
  assumes "sound a" and "create a path len sys = (m, sys')" and "release m sys' = (m', sys'')"
  shows "resources sys'' = resources sys"
  using release_returns [OF create_owns [OF assms(1,2)] assms(3)] by simp

text \<open>A segment created over the mapping is invalid with its error, or empty and sound.\<close>

lemma segment_over_mapping:
  assumes "sound a"
    and "createSegment (\<lambda>path len. let (m, sys') = create a path len sys
           in if valid m then Inr (content a path m sys') else Inl (failure m))
           split env gen keys dir stem opts = (s, keys')"
    and "gen \<noteq> 0" and "4096 \<le> unat (so_segmentBytes opts)"
  shows "if sg_valid s then seg_inv split (2 ^ 64 - 1) s [] \<and> length (sg_bytes s) = unat (so_segmentBytes opts)
    else hasError (sg_error s)"
proof (cases "sg_valid s")
  case True
  let ?path = "segmentPath dir stem (se_processId env) gen"
  obtain m sys' where m: "create a ?path (so_segmentBytes opts) sys = (m, sys')" by fastforce
  have "valid m"
    using assms(2) True by (auto simp: createSegment_def Let_def m emptySegment_def split: if_splits)
  note z = create_zeros [OF assms(1) m this]
  have "seg_inv split (2 ^ 64 - 1) s [] \<and> length (sg_bytes s) = unat (so_segmentBytes opts)
    \<and> unat (sg_headerBytes s) = 4096 \<and> sg_chunkBytes s = so_chunkBytes opts"
    by (rule createSegment_inv [OF assms(2) True _ assms(3,4)]) (simp add: m \<open>valid m\<close> z)
  with True show ?thesis by simp
next
  case False
  have "hasError (sg_error s)"
    using assms(2) False create_valid [OF assms(1)]
    by (auto simp: createSegment_def Let_def sg_error_def emptySegment_def initialise_def
        split: if_splits prod.splits)
  with False show ?thesis by simp
qed

end

text \<open>Both arms keep it.\<close>

definition posixResources :: "FileSystem \<Rightarrow> (nat + nat) multiset" where
  "posixResources fs = image_mset Inl (mset (fs_open fs)) + image_mset Inr (mset (fs_mapped fs))"

definition posixOwned :: "Mapping \<Rightarrow> (nat + nat) multiset" where
  "posixOwned m = image_mset Inl (fst (owned m)) + image_mset Inr (snd (owned m))"

definition posixContent :: "MapAnswers \<Rightarrow> string \<Rightarrow> Mapping \<Rightarrow> FileSystem \<Rightarrow> bytes" where
  "posixContent answers path m fs = take (fm_size m) (the (fs_files fs path))"

lemma tagged_remove:
  "image_mset Inl (A - {#x#}) + image_mset Inr B = image_mset Inl A + image_mset Inr B - {#Inl x#}"
  "image_mset Inl A + image_mset Inr (B - {#y#}) = image_mset Inl A + image_mset Inr B - {#Inr y#}"
proof -
  show "image_mset Inl (A - {#x#}) + image_mset Inr B = image_mset Inl A + image_mset Inr B - {#Inl x#}"
  proof (cases "x \<in># A")
    case True
    then obtain M where "A = add_mset x M" by (metis insert_DiffM)
    then show ?thesis by simp
  next
    case False
    then have "Inl x \<notin># image_mset Inl A + image_mset Inr B" by auto
    then show ?thesis using False by (simp add: diff_single_trivial)
  qed
  show "image_mset Inl A + image_mset Inr (B - {#y#}) = image_mset Inl A + image_mset Inr B - {#Inr y#}"
  proof (cases "y \<in># B")
    case True
    then obtain M where "B = add_mset y M" by (metis insert_DiffM)
    then show ?thesis by simp
  next
    case False
    then have "Inr y \<notin># image_mset Inl A + image_mset Inr B" by auto
    then show ?thesis using False by (simp add: diff_single_trivial)
  qed
qed

lemma posix_release:
  "posixResources (closeFile fd fs) = posixResources fs - {#Inl fd#}"
  "posixResources (munmap base fs) = posixResources fs - {#Inr base#}"
  by (simp_all add: posixResources_def closeFile_def munmap_def tagged_remove)

interpretation posix: file_mapping createMapping releaseMapping mappingValid fm_error posixContent posixResources posixOwned mapped
proof
  show "posixResources sys' = posixResources sys + posixOwned m"
    if "mapped a" "createMapping a path len sys = (m, sys')" for a path len sys m sys'
    using createMapping_ownership(1) [OF that(2,1)] by (simp add: posixResources_def posixOwned_def ownership_def)
  show "mappingValid m = (\<not> hasError (fm_error m))"
    if "mapped a" "createMapping a path len sys = (m, sys')" for a path len sys m sys'
    using createMapping_ownership(2) [OF that(2,1)] .
  show "posixContent a path m sys' = replicate (unat len) 0"
    if "mapped a" "createMapping a path len sys = (m, sys')" "mappingValid m" for a path len sys m sys'
    using createMapping_ownership(5) [OF that(2,1,3)] by (simp add: posixContent_def)
  show "posixResources sys' = held \<and> posixOwned m' = {#}"
    if "posixResources sys = held + posixOwned m" "releaseMapping m sys = (m', sys')" for sys held m m' sys'
    using that by (cases "fm_file m"; cases "fm_base m = 0")
      (auto simp: releaseMapping_def Let_def posix_release posixOwned_def owned_def)
qed

definition windowsResources :: "WindowsSystem \<Rightarrow> (nat + nat) multiset" where
  "windowsResources sys = image_mset Inl (mset (ws_handles sys)) + image_mset Inr (mset (ws_views sys))"

definition optionMset :: "'a option \<Rightarrow> 'a multiset" where
  "optionMset x = (case x of None \<Rightarrow> {#} | Some a \<Rightarrow> {#a#})"

definition windowsOwned :: "WindowsMapping \<Rightarrow> (nat + nat) multiset" where
  "windowsOwned m = image_mset Inl (optionMset (wf_file m) + optionMset (wf_mapping m))
     + image_mset Inr (if wf_base m = 0 then {#} else {#wf_base m#})"

definition windowsContent :: "WindowsAnswers \<Rightarrow> string \<Rightarrow> WindowsMapping \<Rightarrow> WindowsSystem \<Rightarrow> bytes" where
  "windowsContent answers path m sys =
     take (wf_size m) (the (ws_files sys (wp_value (toWidePath (wm_wide answers) (bytesOfString path)))))"

definition viewed :: "WindowsAnswers \<Rightarrow> bool" where
  "viewed answers \<longleftrightarrow> (case wm_view answers of Inr base \<Rightarrow> base \<noteq> 0 | Inl _ \<Rightarrow> True)"

lemma windows_release:
  "windowsResources (CloseHandle h sys) = windowsResources sys - {#Inl h#}"
  "windowsResources (UnmapViewOfFile base sys) = windowsResources sys - {#Inr base#}"
  "windowsResources (closeOptional x sys) = windowsResources sys - image_mset Inl (optionMset x)"
  by (simp_all add: windowsResources_def CloseHandle_def UnmapViewOfFile_def tagged_remove closeOptional_def optionMset_def
      split: option.split)

lemmas windows_defs = windowsMappingFailed_def emptyWindowsMapping_def windowsMappingValid_def windowsOwned_def optionMset_def
  hasError_def noError_def

lemma createWindowsMapping_result:
  assumes "createWindowsMapping answers path len sys = (m, sys')"
  shows "(\<exists>e. m = emptyWindowsMapping\<lparr>wf_error := e\<rparr> \<and> hasError e \<and> ws_views sys' = ws_views sys \<and> ws_handles sys' = ws_handles sys)
    \<or> (\<exists>fh mh base. m = \<lparr>wf_base = base, wf_size = unat len, wf_file = Some fh, wf_mapping = Some mh, wf_error = noError\<rparr>
        \<and> wm_view answers = Inr base \<and> len \<noteq> 0 \<and> ws_views sys' = base # ws_views sys \<and> ws_handles sys' = mh # fh # ws_handles sys
        \<and> wp_value (toWidePath (wm_wide answers) (bytesOfString path)) \<notin> dom (ws_files sys)
        \<and> ws_files sys' = (ws_files sys)(wp_value (toWidePath (wm_wide answers) (bytesOfString path)) \<mapsto> replicate (unat len) 0))"
    (is "?F \<or> ?S")
proof -
  let ?w = "toWidePath (wm_wide answers) (bytesOfString path)"
  have fail: ?F if "m = windowsMappingFailed err what" "what \<noteq> []" "ws_views sys' = ws_views sys" "ws_handles sys' = ws_handles sys"
    for err what
    using that by (intro exI [of _ "\<lparr>pe_code = err, pe_what = what\<rparr>"]) (simp add: windowsMappingFailed_def hasError_def)
  consider (wide) "hasError (wp_error ?w)"
    | (create) err where "\<not> hasError (wp_error ?w)" "CreateFileNew (wp_value ?w) (wm_file answers) sys = Inl err"
    | (created) fh sys1 where "\<not> hasError (wp_error ?w)" "CreateFileNew (wp_value ?w) (wm_file answers) sys = Inr (fh, sys1)"
    by (cases "CreateFileNew (wp_value ?w) (wm_file answers) sys") auto
  then show ?thesis
  proof cases
    case created
    have c: "ws_handles sys1 = fh # ws_handles sys" "ws_views sys1 = ws_views sys" "wp_value ?w \<notin> dom (ws_files sys)"
      "ws_files sys1 = (ws_files sys)(wp_value ?w \<mapsto> [])"
      using created(2) by (auto simp: CreateFileNew_def split: if_splits sum.splits)
    show ?thesis
    proof (cases "setEndOfFile (wp_value ?w) len (wm_size answers) sys1")
      case (Inl err)
      then have "m = windowsMappingFailed err ''SetEndOfFile''" "sys' = CloseHandle fh sys1"
        using assms created by (simp_all add: createWindowsMapping_def Let_def)
      then show ?thesis using c fail [of err "''SetEndOfFile''"] by (simp add: CloseHandle_def)
    next
      case Inr2: (Inr sys2)
      have r: "ws_handles sys2 = fh # ws_handles sys" "ws_views sys2 = ws_views sys"
        "ws_files sys2 = (ws_files sys)(wp_value ?w \<mapsto> replicate (unat len) 0)"
        using Inr2 c by (auto simp: setEndOfFile_def split: if_splits sum.splits)
      show ?thesis
      proof (cases "CreateFileMapping (unat len) (wm_mapping answers) sys2")
        case (Inl err)
        then have "m = windowsMappingFailed err ''CreateFileMappingW''" "sys' = CloseHandle fh sys2"
          using assms created Inr2 by (simp_all add: createWindowsMapping_def Let_def)
        then show ?thesis using r fail [of err "''CreateFileMappingW''"] by (simp add: CloseHandle_def)
      next
        case Inr3: (Inr p)
        obtain mh sys3 where p: "p = (mh, sys3)" by (cases p)
        have m: "ws_handles sys3 = mh # fh # ws_handles sys" "ws_views sys3 = ws_views sys" "ws_files sys3 = ws_files sys2" "len \<noteq> 0"
          using Inr3 p r by (auto simp: CreateFileMapping_def unat_eq_0 split: if_splits sum.splits)
        show ?thesis
        proof (cases "wm_view answers")
          case (Inl err)
          then have "m = windowsMappingFailed err ''MapViewOfFile''" "sys' = CloseHandle fh (CloseHandle mh sys3)"
            using assms created Inr2 Inr3 p by (simp_all add: createWindowsMapping_def Let_def MapViewOfFile_def)
          then show ?thesis using m fail [of err "''MapViewOfFile''"] by (simp add: CloseHandle_def)
        next
          case (Inr base)
          then have "m = \<lparr>wf_base = base, wf_size = unat len, wf_file = Some fh, wf_mapping = Some mh, wf_error = noError\<rparr>"
            "sys' = sys3\<lparr>ws_views := base # ws_views sys3\<rparr>"
            using assms created Inr2 Inr3 p by (simp_all add: createWindowsMapping_def Let_def MapViewOfFile_def)
          then show ?thesis using Inr m r c(3) by auto
        qed
      qed
    qed
  next
    case wide
    then show ?thesis using assms by (auto simp: createWindowsMapping_def Let_def)
  next
    case (create err)
    then show ?thesis using assms fail [of err "''CreateFileW''"] by (simp add: createWindowsMapping_def Let_def)
  qed
qed

interpretation windows: file_mapping createWindowsMapping releaseWindowsMapping windowsMappingValid wf_error windowsContent
  windowsResources windowsOwned viewed
proof
  fix a path len sys m sys'
  assume v: "viewed a" and c: "createWindowsMapping a path len sys = (m, sys')"
  note r = createWindowsMapping_result [OF c]
  show "windowsResources sys' = windowsResources sys + windowsOwned m"
    using r v by (auto simp: windowsResources_def windows_defs viewed_def)
  show "windowsMappingValid m = (\<not> hasError (wf_error m))"
    using r v by (auto simp: windows_defs viewed_def)
  show "windowsContent a path m sys' = replicate (unat len) 0" if "windowsMappingValid m"
    using r that by (auto simp: windows_defs windowsContent_def)
next
  show "windowsResources sys' = held \<and> windowsOwned m' = {#}"
    if "windowsResources sys = held + windowsOwned m" "releaseWindowsMapping m sys = (m', sys')" for sys held m m' sys'
    using that by (cases "wf_base m = 0")
      (auto simp: releaseWindowsMapping_def Let_def windows_release windowsOwned_def optionMset_def split: option.splits)
qed

section \<open>Clocks and identity\<close>

definition posixNs :: "u64 \<Rightarrow> u64 \<Rightarrow> u64" where
  "posixNs tv_sec tv_nsec = tv_sec * 1000000000 + tv_nsec"

definition windowsMonotonicNs :: "u64 \<Rightarrow> u64 \<Rightarrow> u64" where
  "windowsMonotonicNs frequency ticks =
     (let whole = ticks div frequency * 1000000000;
          frac = ticks mod frequency * 1000000000 div frequency
      in whole + frac)"

definition windowsWallNs :: "u32 \<Rightarrow> u32 \<Rightarrow> u64" where
  "windowsWallNs dwLowDateTime dwHighDateTime =
     (let quadPart = push_bit 32 (ucast dwHighDateTime) OR ucast dwLowDateTime;
          hundredNs = quadPart - 116444736000000000
      in hundredNs * 100)"

definition windowsProcessId :: "u32 \<Rightarrow> u64" where
  "windowsProcessId dword = ucast dword"

lemma scaled_split:
  fixes t f n :: nat
  assumes "0 < f"
  shows "t div f * n + t mod f * n div f = t * n div f"
proof -
  have "t * n = (t div f * f + t mod f) * n" by simp
  also have "\<dots> = t mod f * n + (t div f * n) * f" by (simp only: distrib_left mult.commute mult.left_commute add.commute)
  finally show ?thesis using assms by (simp only: div_mult_self1)
qed

lemma windowsMonotonicNs_exact:
  assumes "0 < f" and "unat f * 1000000000 < 2 ^ 64" and "unat t * 1000000000 div unat f < 2 ^ 64"
  shows "unat (windowsMonotonicNs f t) = unat t * 1000000000 div unat f"
proof -
  have f: "0 < unat f" using assms(1) by (simp add: word_less_nat_alt)
  note s = scaled_split [OF f, of "unat t" 1000000000]
  have "unat t mod unat f * 1000000000 < unat f * 1000000000" using f by simp
  then have r: "unat t mod unat f * 1000000000 < 2 ^ 64" using assms(2) by linarith
  have q: "unat t div unat f * 1000000000 < 2 ^ 64" using s assms(3) by linarith
  have w: "unat (t div f * 1000000000) = unat t div unat f * 1000000000"
    using q by (subst unat_mult_lem [THEN iffD1]) (simp_all add: unat_div)
  have "unat (t mod f * 1000000000) = unat t mod unat f * 1000000000"
    using r by (subst unat_mult_lem [THEN iffD1]) (simp_all add: unat_mod)
  then have fr: "unat (t mod f * 1000000000 div f) = unat t mod unat f * 1000000000 div unat f" by (simp add: unat_div)
  show ?thesis
    unfolding windowsMonotonicNs_def Let_def
    using s assms(3) by (subst unat_add_lem [THEN iffD1]) (simp_all add: w fr)
qed

section \<open>Properties\<close>


definition exampleWindows :: WindowsAnswers where
  "exampleWindows = \<lparr>wm_wide = \<lparr>wa_length = (\<lambda>s. int (length s)), wa_written = (\<lambda>s n. (int n, map ucast s)), wa_lastError = (\<lambda>s. 0)\<rparr>,
     wm_file = Inr 8, wm_size = Inr (), wm_mapping = Inr 12, wm_view = Inr 65536\<rparr>"


text \<open>
  C38. The Windows clock loses nothing and never runs backwards: the reading is the tick
  count scaled to nanoseconds, rounded down once, although ticks times a billion need not
  fit 64 bits; a later tick gives a reading at least as late.
\<close>

theorem windows_clock_exact:
  assumes "0 < frequency" and "unat frequency * 1000000000 < 2 ^ 64"
    and "unat later * 1000000000 div unat frequency < 2 ^ 64" and "ticks \<le> later"
  shows "unat (windowsMonotonicNs frequency ticks) = unat ticks * 1000000000 div unat frequency
    \<and> windowsMonotonicNs frequency ticks \<le> windowsMonotonicNs frequency later"
proof -
  have le: "unat ticks * 1000000000 div unat frequency \<le> unat later * 1000000000 div unat frequency"
    using assms(4) by (intro div_le_mono mult_le_mono1) (simp add: word_le_nat_alt)
  note t = windowsMonotonicNs_exact [OF assms(1,2) le_less_trans [OF le assms(3)]]
  with windowsMonotonicNs_exact [OF assms(1-3)] le show ?thesis by (simp add: word_le_nat_alt)
qed

theorem windows_clock_exact_witness:
  "unat (windowsMonotonicNs 10000000 123456789012345678) = 12345678901234567800"
  using windows_clock_exact [of 10000000 123456789012345678 123456789012345678] by simp

end
