(* ===== verification/WindowsChild.thy ===== *)
theory WindowsChild
  imports Windows CommandLine
begin

text \<open>
  The Windows arm of \<^verbatim>\<open>include/sub0log/child.hpp\<close>: the capture loop over \<open>ReadFile\<close>, \<open>wait\<close> on a
  process handle, and \<open>spawn\<close> through \<open>CreateProcessW\<close> with every failure it handles.  Lines,
  records and interception are those of theory Child.
\<close>

section \<open>Capture\<close>

text \<open>One answer of \<open>ReadFile\<close>: nothing when it fails, else the bytes read, none at the end of the stream.\<close>

fun captureReadsWindows ::
  "Caller \<Rightarrow> (nat \<Rightarrow> u64) \<Rightarrow> ChildStream \<Rightarrow> bytes option list \<Rightarrow> ChildCaptureState \<times> bytes \<times> bool
    \<Rightarrow> ChildCaptureState option" where
  "captureReadsWindows ca clock stream [] loop = None"
| "captureReadsWindows ca clock stream (r # reads) loop =
     (case r of
        None \<Rightarrow> Some (flushCarry ca clock stream loop)
      | Some buffer \<Rightarrow>
          if buffer = [] then Some (flushCarry ca clock stream loop)
          else captureReadsWindows ca clock stream reads (processCapturedChunk ca clock stream buffer loop))"

definition captureLoopWindows ::
  "Caller \<Rightarrow> (nat \<Rightarrow> u64) \<Rightarrow> ChildStream \<Rightarrow> bytes option list \<Rightarrow> ChildCaptureState \<Rightarrow> ChildCaptureState option" where
  "captureLoopWindows ca clock stream reads state = captureReadsWindows ca clock stream reads (state, [], False)"

text \<open>It is the POSIX loop on the same answers, so both write the reference lines.\<close>

definition readOf :: "bytes option \<Rightarrow> ReadResult" where
  "readOf r = (case r of None \<Rightarrow> ReadFailed | Some buffer \<Rightarrow> ReadData buffer)"

lemma captureReadsWindows_posix:
  "captureReadsWindows ca clock stream reads loop = captureReads ca clock stream (map readOf reads) loop"
  by (induction ca clock stream reads loop rule: captureReadsWindows.induct)
    (auto simp: readOf_def split: option.split)

lemma captureLoopWindows_lines:
  "captureLoopWindows ca clock stream reads state =
     map_option (\<lambda>data. writeLines ca clock stream state (refLines data)) (streamOf (map readOf reads))"
  using captureLoop_lines [of ca clock stream "map readOf reads" state]
  by (simp add: captureLoopWindows_def captureLoop_def captureReadsWindows_posix)

section \<open>The child object\<close>

record WindowsThread =
  wt_base :: CaptureThread
  wt_results :: "bytes option list"

record WindowsChild =
  wn_child :: ChildProcess
  wn_threads :: "WindowsThread list"
  wn_process :: "nat option"

definition noWindowsChild :: WindowsChild where
  "noWindowsChild = \<lparr>wn_child = noChild, wn_threads = [], wn_process = None\<rparr>"

fun joinWindowsThreads :: "WindowsThread list \<Rightarrow> ChildCaptureState \<Rightarrow> ChildCaptureState option" where
  "joinWindowsThreads [] st = Some st"
| "joinWindowsThreads (t # ts) st =
     (case captureLoopWindows (th_caller (wt_base t)) (th_clock (wt_base t)) (th_stream (wt_base t)) (wt_results t)
             (st\<lparr>cs_logger := onThread (th_cache (wt_base t)) (cs_logger st), cs_tick := 0\<rparr>) of
        None \<Rightarrow> None
      | Some st' \<Rightarrow> joinWindowsThreads ts st')"

text \<open>
  What becomes of the child: \<open>None\<close> when it never ends, else the answer of
  \<open>GetExitCodeProcess\<close>.  A capture thread closes its handle when it ends.
\<close>

type_synonym ProcessEnd = "u32 option option"

definition waitWindows ::
  "Caller \<Rightarrow> (nat \<Rightarrow> u64) \<Rightarrow> WriterCache \<Rightarrow> ProcessEnd \<Rightarrow> WindowsChild \<Rightarrow> Resources
    \<Rightarrow> (ExitStatus \<times> WindowsChild \<times> Resources) option" where
  "waitWindows ca clock cache ending c os =
     (if cp_waited (wn_child c) then Some (cp_exitStatus (wn_child c), c, os)
      else
        case (case cp_state (wn_child c) of None \<Rightarrow> Some None
              | Some st \<Rightarrow> map_option Some (joinWindowsThreads (wn_threads c) st)) of
          None \<Rightarrow> None
        | Some joined \<Rightarrow>
          let os1 = foldl (\<lambda>os t. closeFd (th_fd (wt_base t)) os) os (wn_threads c)
          in case (case wn_process c of
                     None \<Rightarrow> Some (\<lparr>es_exitCode = 0, es_signal = 0\<rparr>, os1)
                   | Some h \<Rightarrow>
                     case ending of
                       None \<Rightarrow> None
                     | Some exitCode \<Rightarrow>
                         Some (\<lparr>es_exitCode = (case exitCode of None \<Rightarrow> 0 | Some code \<Rightarrow> code), es_signal = 0\<rparr>,
                               closeFd h (os1\<lparr>os_children := remove1 (cp_pid (wn_child c)) (os_children os1)\<rparr>))) of
               None \<Rightarrow> None
             | Some (result, os2) \<Rightarrow>
                 Some (result,
                   \<lparr>wn_child = (wn_child c)\<lparr>cp_waited := True, cp_exitStatus := result,
                      cp_state := map_option (\<lambda>st. st\<lparr>cs_logger :=
                        writeChildExit ca clock (cs_childId st) result (onThread cache (cs_logger st))\<rparr>) joined\<rparr>,
                    wn_threads = [], wn_process = None\<rparr>, os2))"

definition destroyWindows ::
  "Caller \<Rightarrow> (nat \<Rightarrow> u64) \<Rightarrow> WriterCache \<Rightarrow> ProcessEnd \<Rightarrow> WindowsChild \<Rightarrow> Resources \<Rightarrow> (WindowsChild \<times> Resources) option" where
  "destroyWindows ca clock cache ending c os =
     (if cp_childId (wn_child c) \<noteq> 0 \<and> \<not> cp_waited (wn_child c)
      then map_option snd (waitWindows ca clock cache ending c os) else Some (c, os))"

section \<open>Spawning\<close>

record SpawnWindowsAnswers =
  sw_allocationFails :: bool
  sw_wide :: WideAnswers
  sw_environment :: "wide list"
  sw_towupper :: "u16 \<Rightarrow> u16"
  sw_pipeOut :: "int + nat \<times> nat"
  sw_inheritOut :: "int + unit"
  sw_pipeErr :: "int + nat \<times> nat"
  sw_inheritErr :: "int + unit"
  sw_stdOutput :: nat
  sw_stdError :: nat
  sw_create :: "int + nat \<times> nat \<times> u64"
  sw_outThreadFails :: bool
  sw_errThreadFails :: bool
  sw_outThread :: WindowsThread
  sw_errThread :: WindowsThread
  sw_ending :: ProcessEnd

text \<open>What \<open>CreateProcessW\<close> is called with.\<close>

record Launch =
  la_commandLine :: wide
  la_environment :: "wide option"
  la_directory :: "wide option"
  la_output :: nat
  la_error :: nat

definition failedWindows :: "PlatformError \<Rightarrow> WindowsChild" where
  "failedWindows e = noWindowsChild\<lparr>wn_child := noChild\<lparr>cp_error := e\<rparr>\<rparr>"

definition windowsCommand :: "ChildOptions \<Rightarrow> bytes \<times> bool" where
  "windowsCommand options =
     (let execCommand = buildWindowsCommandLine (co_argv options)
      in if cCommandLineCap < length execCommand then (take cCommandLineCap execCommand, True) else (execCommand, False))"

text \<open>The command line, the directory and the environment block, or the first conversion error.\<close>

definition windowsArguments ::
  "ChildOptions \<Rightarrow> u64 \<Rightarrow> SpawnWindowsAnswers \<Rightarrow> PlatformError + wide \<times> wide option \<times> wide option" where
  "windowsArguments options correlationId answers =
     (let wideCommand = toWidePath (sw_wide answers) (buildWindowsCommandLine (co_argv options));
          wideDirectory = (if co_workingDirectory options = [] then \<lparr>wp_value = [], wp_error = noError\<rparr>
                           else toWidePath (sw_wide answers) (co_workingDirectory options));
          wideName = toWidePath (sw_wide answers) (bytesOfString cCorrelationEnvVar);
          wideValue = toWidePath (sw_wide answers) (bytesOfString (natToChars 10 (unat correlationId)));
          directory = (if co_workingDirectory options = [] then None else Some (wp_value wideDirectory))
      in if hasError (wp_error wideCommand) then Inl (wp_error wideCommand)
         else if hasError (wp_error wideDirectory) then Inl (wp_error wideDirectory)
         else if \<not> (co_propagateCorrelation options \<and> correlationId \<noteq> 0)
         then Inr (wp_value wideCommand @ [0], directory, None)
         else if hasError (wp_error wideName) then Inl (wp_error wideName)
         else if hasError (wp_error wideValue) then Inl (wp_error wideValue)
         else Inr (wp_value wideCommand @ [0], directory,
                Some (buildChildEnvironmentBlock (sw_towupper answers) (sw_environment answers)
                        (wp_value wideName) (wp_value wideValue))))"

text \<open>\<open>CreatePipe\<close> and \<open>SetHandleInformation\<close>: an error leaves the pipe open for \<open>closePipes\<close>.\<close>

definition createPipeWindows ::
  "bool \<Rightarrow> int + nat \<times> nat \<Rightarrow> int + unit \<Rightarrow> Resources \<Rightarrow> int option \<times> (nat \<times> nat) option \<times> Resources" where
  "createPipeWindows capture answer inherit os =
     (if \<not> capture then (None, None, os)
      else case answer of
             Inl err \<Rightarrow> (Some err, None, os)
           | Inr (r, w) \<Rightarrow>
               (case inherit of Inl err \<Rightarrow> Some err | Inr u \<Rightarrow> None, Some (r, w), os\<lparr>os_open := r # w # os_open os\<rparr>))"

definition closePipes :: "(nat \<times> nat) option \<Rightarrow> (nat \<times> nat) option \<Rightarrow> Resources \<Rightarrow> Resources" where
  "closePipes out err os = closePipe err (closePipe out os)"

definition startWindowsThread :: "(nat \<times> nat) option \<Rightarrow> ChildStream \<Rightarrow> WindowsThread \<Rightarrow> WindowsThread list" where
  "startWindowsThread p stream t =
     (case p of None \<Rightarrow> [] | Some (r, w) \<Rightarrow> [t\<lparr>wt_base := (wt_base t)\<lparr>th_stream := stream, th_fd := r\<rparr>\<rparr>])"

text \<open>
  The catch handler once \<open>result\<close> owns the process handle: \<open>processInfo\<close> is empty by then, so
  nothing is terminated; the read ends still here are closed, and \<open>result\<close> is destroyed,
  which waits for the child.
\<close>

definition abandonWindows ::
  "Caller \<Rightarrow> (nat \<Rightarrow> u64) \<Rightarrow> ProcessEnd \<Rightarrow> (nat \<times> nat) option \<Rightarrow> (nat \<times> nat) option \<Rightarrow> WindowsChild \<Rightarrow> Producer option \<Rightarrow> Resources
    \<Rightarrow> (WindowsChild \<times> Resources \<times> Producer option) option" where
  "abandonWindows ca clock ending out err result logger os =
     (let os1 = closeRead err (closeRead out os);
          cache = (case logger of Some P \<Rightarrow> pr_cache P | None \<Rightarrow> emptyCache)
      in case destroyWindows ca (\<lambda>i. clock (i + 3)) cache ending result os1 of
           None \<Rightarrow> None
         | Some (c, os2) \<Rightarrow>
             Some (failedWindows \<lparr>pe_code = 0, pe_what = ''ChildProcess::spawn: allocation failed''\<rparr>, os2,
                   case cp_state (wn_child c) of Some st \<Rightarrow> cs_logger st | None \<Rightarrow> logger))"

definition spawnStarted ::
  "Caller \<Rightarrow> (nat \<Rightarrow> u64) \<Rightarrow> ChildOptions \<Rightarrow> u64 \<Rightarrow> SpawnWindowsAnswers \<Rightarrow> u64 \<Rightarrow> nat \<Rightarrow> u64 \<Rightarrow> (nat \<times> nat) option
    \<Rightarrow> (nat \<times> nat) option \<Rightarrow> Producer option \<Rightarrow> Resources \<Rightarrow> (WindowsChild \<times> Resources \<times> Producer option) option" where
  "spawnStarted ca clock options correlationId answers nextChildId process pid out err logger0 os0 =
     (let os = closeWrite err (closeWrite out os0);
          (command, commandTruncated) = windowsCommand options;
          logger = writeChildStart ca clock nextChildId pid correlationId command commandTruncated logger0;
          result = \<lparr>wn_child = startedChild options nextChildId pid logger, wn_threads = [], wn_process = Some process\<rparr>
      in if out \<noteq> None \<and> sw_outThreadFails answers
         then abandonWindows ca clock (sw_ending answers) out err result logger os
         else
           let result1 = result\<lparr>wn_threads := startWindowsThread out cChildStdout (sw_outThread answers)\<rparr>
           in if err \<noteq> None \<and> sw_errThreadFails answers
              then abandonWindows ca clock (sw_ending answers) None err result1 logger os
              else Some (result1\<lparr>wn_threads := wn_threads result1 @ startWindowsThread err cChildStderr (sw_errThread answers)\<rparr>,
                         os, logger))"

definition childHandle :: "(nat \<times> nat) option \<Rightarrow> nat \<Rightarrow> nat" where
  "childHandle p std = (case p of None \<Rightarrow> std | Some (r, w) \<Rightarrow> w)"

text \<open>
  The result, the parent's resources, the Logger, the next child id and what was launched;
  \<open>None\<close> when the call does not return.
\<close>

definition spawnWindows ::
  "Caller \<Rightarrow> (nat \<Rightarrow> u64) \<Rightarrow> ChildOptions \<Rightarrow> u64 \<Rightarrow> SpawnWindowsAnswers \<Rightarrow> u64 \<Rightarrow> Producer option \<Rightarrow> Resources
    \<Rightarrow> (WindowsChild \<times> Resources \<times> Producer option \<times> u64 \<times> Launch option) option" where
  "spawnWindows ca clock options scoped answers nextChildId logger os =
     (let fails = (\<lambda>e os'. Some (failedWindows e, os', logger, nextChildId, None));
          correlationId = spawnCorrelation scoped logger
      in if co_argv options = []
         then fails \<lparr>pe_code = cERROR_INVALID_PARAMETER, pe_what = ''ChildProcess::spawn: empty argv''\<rparr> os
         else if sw_allocationFails answers
         then fails \<lparr>pe_code = 0, pe_what = ''ChildProcess::spawn: allocation failed''\<rparr> os
         else case windowsArguments options correlationId answers of
           Inl e \<Rightarrow> fails e os
         | Inr (commandLine, directory, environment) \<Rightarrow>
           let (outError, out, os1) = createPipeWindows (co_captureStdout options) (sw_pipeOut answers) (sw_inheritOut answers) os
           in case outError of
                Some e \<Rightarrow> fails \<lparr>pe_code = e, pe_what = ''CreatePipe(stdout)''\<rparr> (closePipes out None os1)
              | None \<Rightarrow>
                let (errError, err, os2) = createPipeWindows (co_captureStderr options) (sw_pipeErr answers) (sw_inheritErr answers) os1
                in case errError of
                     Some e \<Rightarrow> fails \<lparr>pe_code = e, pe_what = ''CreatePipe(stderr)''\<rparr> (closePipes out err os2)
                   | None \<Rightarrow>
                     case sw_create answers of
                       Inl e \<Rightarrow> fails \<lparr>pe_code = e, pe_what = ''CreateProcessW''\<rparr> (closePipes out err os2)
                     | Inr (process, initialThread, pid) \<Rightarrow>
                       map_option (\<lambda>(c, os3, logger3). (c, os3, logger3, nextChildId + 1,
                           Some \<lparr>la_commandLine = commandLine, la_environment = environment, la_directory = directory,
                                 la_output = childHandle out (sw_stdOutput answers), la_error = childHandle err (sw_stdError answers)\<rparr>))
                         (spawnStarted ca clock options correlationId answers nextChildId process pid out err logger
                            (closeFd initialThread (os2\<lparr>os_open := process # initialThread # os_open os2, os_children := pid # os_children os2\<rparr>))))"

section \<open>Ownership\<close>

text \<open>
  A valid result owns its process handle and the read ends of its threads, and has started
  one child; an invalid one owns nothing and names its error.
\<close>

definition windowsOwns :: "Resources \<Rightarrow> u64 list \<Rightarrow> WindowsChild \<Rightarrow> Resources \<Rightarrow> bool" where
  "windowsOwns os started c os' \<longleftrightarrow>
     (if childValid (wn_child c)
      then openFds os' = openFds os + optionMset (wn_process c) + mset (map (th_fd \<circ> wt_base) (wn_threads c))
           \<and> os_children os' = started @ os_children os \<and> \<not> hasError (cp_error (wn_child c))
      else openFds os' = openFds os \<and> os_children os' = os_children os \<and> hasError (cp_error (wn_child c))
           \<and> wn_threads c = [] \<and> wn_process c = None)"

lemma failedWindows_owns:
  "openFds os' = openFds os \<Longrightarrow> os_children os' = os_children os \<Longrightarrow> hasError e \<Longrightarrow> windowsOwns os started (failedWindows e) os'"
  by (simp add: windowsOwns_def failedWindows_def noWindowsChild_def noChild_def childValid_def)

lemma windowsArguments_error: "windowsArguments options corr answers = Inl e \<Longrightarrow> hasError e"
  by (auto simp: windowsArguments_def Let_def split: if_splits)

lemma createPipeWindows_open:
  "createPipeWindows capture answer inherit os = (e, p, os') \<Longrightarrow>
    openFds os' = openFds os + pipeFds p \<and> os_children os' = os_children os \<and> (e = None \<longrightarrow> (p \<noteq> None) = capture)"
  by (auto simp: createPipeWindows_def openFds_def pipeFds_def split: if_splits sum.splits)

lemma closePipes_open:
  "openFds (closePipes out err os) = openFds os - pipeFds out - pipeFds err" "os_children (closePipes out err os) = os_children os"
  by (simp_all add: closePipes_def close_simps)

lemma startWindowsThread_fds: "mset (map (th_fd \<circ> wt_base) (startWindowsThread p stream t)) = readFd p"
  by (simp add: startWindowsThread_def readFd_def split: option.split)

lemma foldl_closeThread:
  "openFds (foldl (\<lambda>os t. closeFd (th_fd (wt_base t)) os) os ts) = openFds os - mset (map (th_fd \<circ> wt_base) ts)
   \<and> os_children (foldl (\<lambda>os t. closeFd (th_fd (wt_base t)) os) os ts) = os_children os"
  by (induction ts arbitrary: os) (simp_all add: close_simps)

lemma waitWindows_closes:
  assumes "waitWindows ca clock cache ending c os = Some (st, c', os')" and "\<not> cp_waited (wn_child c)" and "wn_process c = Some h"
    and "openFds os = base + {#h#} + mset (map (th_fd \<circ> wt_base) (wn_threads c))" and "os_children os = cp_pid (wn_child c) # rest"
  shows "openFds os' = base" "os_children os' = rest"
  using assms foldl_closeThread [of os "wn_threads c"]
  by (auto simp: waitWindows_def Let_def close_simps split: option.splits)

lemma abandonWindows_owns:
  assumes "abandonWindows ca clock ending out err result logger os = Some (c, os', logger')"
    and "openFds os = openFds os0 + readFd out + readFd err + {#h#} + mset (map (th_fd \<circ> wt_base) (wn_threads result))"
    and "os_children os = cp_pid (wn_child result) # os_children os0" and "wn_process result = Some h"
    and "cp_childId (wn_child result) \<noteq> 0" and "\<not> cp_waited (wn_child result)"
  shows "windowsOwns os0 started c os'"
proof -
  let ?os1 = "closeRead err (closeRead out os)"
  obtain clock' cache st c2 where w: "waitWindows ca clock' cache ending result ?os1 = Some (st, c2, os')"
    and c: "c = failedWindows \<lparr>pe_code = 0, pe_what = ''ChildProcess::spawn: allocation failed''\<rparr>"
    using assms(1,5,6) by (auto simp: abandonWindows_def destroyWindows_def Let_def split: option.splits)
  have o: "openFds ?os1 = openFds os0 + {#h#} + mset (map (th_fd \<circ> wt_base) (wn_threads result))"
    "os_children ?os1 = cp_pid (wn_child result) # os_children os0"
    using assms(2,3) by (simp_all add: close_simps)
  show ?thesis unfolding c
    by (rule failedWindows_owns) (use waitWindows_closes [OF w assms(6,4) o] in \<open>simp_all add: hasError_def\<close>)
qed

lemma spawnStarted_owns:
  assumes s: "spawnStarted ca clock options corr answers n process pid out err logger os = Some (c, os', logger')"
    and "openFds os = openFds os0 + pipeFds out + pipeFds err + {#process#}" and "os_children os = pid # os_children os0" and "n \<noteq> 0"
  shows "windowsOwns os0 [pid] c os'"
proof -
  define os1 where "os1 = closeWrite err (closeWrite out os)"
  obtain command tr where cmd: "windowsCommand options = (command, tr)" by fastforce
  define logger1 where "logger1 = writeChildStart ca clock n pid corr command tr logger"
  define result where "result = \<lparr>wn_child = startedChild options n pid logger1, wn_threads = [], wn_process = Some process\<rparr>"
  define result1 where "result1 = result\<lparr>wn_threads := startWindowsThread out cChildStdout (sw_outThread answers)\<rparr>"
  have o: "openFds os1 = openFds os0 + readFd out + readFd err + {#process#}" "os_children os1 = pid # os_children os0"
    using assms(2,3) by (simp_all add: os1_def close_simps pipeFds_split)
  have r: "readFd None = {#}" "wn_threads result = []" "cp_childId (wn_child result) = n" "cp_pid (wn_child result) = pid"
    "\<not> cp_waited (wn_child result)" "wn_process result = Some process" "\<not> hasError (cp_error (wn_child result))"
    by (simp_all add: readFd_def result_def startedChild_def noChild_def hasError_def noError_def)
  have s': "(if out \<noteq> None \<and> sw_outThreadFails answers then abandonWindows ca clock (sw_ending answers) out err result logger1 os1
      else if err \<noteq> None \<and> sw_errThreadFails answers then abandonWindows ca clock (sw_ending answers) None err result1 logger1 os1
      else Some (result1\<lparr>wn_threads := wn_threads result1 @ startWindowsThread err cChildStderr (sw_errThread answers)\<rparr>,
        os1, logger1)) = Some (c, os', logger')"
    using s unfolding spawnStarted_def Let_def cmd prod.case
    by (simp only: os1_def [symmetric] logger1_def [symmetric] result_def [symmetric] result1_def [symmetric])
  consider (out) "abandonWindows ca clock (sw_ending answers) out err result logger1 os1 = Some (c, os', logger')"
    | (err) "abandonWindows ca clock (sw_ending answers) None err result1 logger1 os1 = Some (c, os', logger')"
    | (running) "c = result1\<lparr>wn_threads := wn_threads result1 @ startWindowsThread err cChildStderr (sw_errThread answers)\<rparr>" "os' = os1"
    using s' by (auto split: if_splits)
  then show ?thesis
  proof cases
    case out
    then show ?thesis by (rule abandonWindows_owns [where h = process]) (use o r assms(4) in simp_all)
  next
    case err
    then show ?thesis
      by (rule abandonWindows_owns [where h = process])
        (use o r assms(4) startWindowsThread_fds [of out cChildStdout "sw_outThread answers"] in \<open>simp_all add: result1_def\<close>)
  next
    case running
    then show ?thesis
      using o r assms(4) startWindowsThread_fds [of out cChildStdout "sw_outThread answers"]
        startWindowsThread_fds [of err cChildStderr "sw_errThread answers"]
      by (simp add: windowsOwns_def childValid_def result1_def optionMset_def)
  qed
qed

lemma spawnWindows_owns:
  assumes "spawnWindows ca clock options scoped answers n logger os = Some (c, os', logger', n', launch)" and "n \<noteq> 0"
  shows "windowsOwns os (case sw_create answers of Inr (process, initialThread, pid) \<Rightarrow> [pid] | Inl _ \<Rightarrow> []) c os'"
proof -
  let ?pipeOut = "createPipeWindows (co_captureStdout options) (sw_pipeOut answers) (sw_inheritOut answers) os"
  obtain outError out os1 where po: "?pipeOut = (outError, out, os1)" by (cases ?pipeOut)
  let ?pipeErr = "createPipeWindows (co_captureStderr options) (sw_pipeErr answers) (sw_inheritErr answers) os1"
  obtain errError err os2 where pe: "?pipeErr = (errError, err, os2)" by (cases ?pipeErr)
  have o1: "openFds os1 = openFds os + pipeFds out" "os_children os1 = os_children os"
    using createPipeWindows_open [OF po] by simp_all
  have o2: "openFds os2 = openFds os + pipeFds out + pipeFds err" "os_children os2 = os_children os"
    using createPipeWindows_open [OF pe] o1 by simp_all
  have none: "pipeFds None = {#}" by (simp add: pipeFds_def)
  have c1: "openFds (closePipes out None os1) = openFds os" "os_children (closePipes out None os1) = os_children os"
    using o1 none by (simp_all add: closePipes_open)
  have c2: "openFds (closePipes out err os2) = openFds os" "os_children (closePipes out err os2) = os_children os"
    using o2 by (simp_all add: closePipes_open)
  note d = assms(1) [unfolded spawnWindows_def Let_def po prod.case pe]
  consider (failed) "\<exists>e. c = failedWindows e \<and> hasError e" "openFds os' = openFds os" "os_children os' = os_children os"
    | (started) process initialThread pid corr where "sw_create answers = Inr (process, initialThread, pid)"
        "spawnStarted ca clock options corr answers n process pid out err logger
          (closeFd initialThread (os2\<lparr>os_open := process # initialThread # os_open os2, os_children := pid # os_children os2\<rparr>))
          = Some (c, os', logger')"
  proof -
    show thesis
    proof (cases "windowsArguments options (spawnCorrelation scoped logger) answers")
      case (Inl e)
      note he = windowsArguments_error [OF Inl]
      show thesis using d he by (intro failed) (auto simp: Inl hasError_def split: if_splits)
    next
      case (Inr a)
      obtain commandLine directory environment where a: "a = (commandLine, directory, environment)" by (cases a)
      show thesis
      proof (cases "co_argv options = [] \<or> sw_allocationFails answers \<or> outError \<noteq> None \<or> errError \<noteq> None \<or> (\<exists>e. sw_create answers = Inl e)")
        case True
        then show thesis using d c1 c2 by (intro failed) (auto simp: Inr a hasError_def split: if_splits option.splits)
      next
        case False
        then obtain process initialThread pid where cr: "sw_create answers = Inr (process, initialThread, pid)"
          by (cases "sw_create answers") auto
        then show thesis using d False by (intro started [OF cr]) (auto simp: Inr a)
      qed
    qed
  qed
  then show ?thesis
  proof cases
    case failed
    then show ?thesis using failedWindows_owns by blast
  next
    case (started process initialThread pid corr)
    have "windowsOwns os [pid] c os'"
      by (rule spawnStarted_owns [OF started(2)]) (use o2 assms(2) in \<open>simp_all add: close_simps openFds_def closeFd_def\<close>)
    then show ?thesis by (simp add: started(1))
  qed
qed

section \<open>Returning\<close>

lemma joinWindowsThreads_None:
  "joinWindowsThreads ts st = None \<Longrightarrow> \<exists>t \<in> set ts. streamOf (map readOf (wt_results t)) = None"
  by (induction ts st rule: joinWindowsThreads.induct) (auto simp: captureLoopWindows_lines split: option.splits)

lemma abandonWindows_returns:
  assumes "abandonWindows ca clock ending out err result logger os = None"
  shows "ending = None \<or> (\<exists>t \<in> set (wn_threads result). streamOf (map readOf (wt_results t)) = None)"
  using assms
  by (auto simp: abandonWindows_def destroyWindows_def waitWindows_def Let_def
      split: if_splits option.splits dest!: joinWindowsThreads_None)

lemma spawnStarted_returns:
  assumes "spawnStarted ca clock options corr answers n process pid out err logger os = None"
  shows "sw_ending answers = None \<or> streamOf (map readOf (wt_results (sw_outThread answers))) = None"
proof -
  obtain o' result logger1 os1 where a: "abandonWindows ca clock (sw_ending answers) o' err result logger1 os1 = None"
    "set (wn_threads result) \<subseteq> set (startWindowsThread out cChildStdout (sw_outThread answers))"
    using assms by (fastforce simp: spawnStarted_def Let_def split: if_splits prod.splits)
  from abandonWindows_returns [OF a(1)] show ?thesis
    using a(2) by (fastforce simp: startWindowsThread_def split: option.splits prod.splits)
qed

lemma spawnWindows_returns:
  assumes "spawnWindows ca clock options scoped answers n logger os = None"
  shows "sw_ending answers = None \<or> streamOf (map readOf (wt_results (sw_outThread answers))) = None"
  using assms
  by (auto simp: spawnWindows_def Let_def split: if_splits sum.splits prod.splits option.splits dest: spawnStarted_returns)

section \<open>What is launched\<close>

lemma spawnWindows_launch:
  assumes "spawnWindows ca clock options scoped answers n logger os = Some (c, os', logger', n', Some l)"
  shows "windowsArguments options (spawnCorrelation scoped logger) answers = Inr (la_commandLine l, la_directory l, la_environment l)"
    and "co_captureStdout options \<Longrightarrow> \<exists>r w. sw_pipeOut answers = Inr (r, w) \<and> la_output l = w"
    and "co_captureStderr options \<Longrightarrow> \<exists>r w. sw_pipeErr answers = Inr (r, w) \<and> la_error l = w"
    and "\<not> co_captureStdout options \<Longrightarrow> la_output l = sw_stdOutput answers"
    and "\<not> co_captureStderr options \<Longrightarrow> la_error l = sw_stdError answers"
proof -
  let ?pipeOut = "createPipeWindows (co_captureStdout options) (sw_pipeOut answers) (sw_inheritOut answers) os"
  obtain outError out os1 where po: "?pipeOut = (outError, out, os1)" by (cases ?pipeOut)
  let ?pipeErr = "createPipeWindows (co_captureStderr options) (sw_pipeErr answers) (sw_inheritErr answers) os1"
  obtain errError err os2 where pe: "?pipeErr = (errError, err, os2)" by (cases ?pipeErr)
  note d = assms [unfolded spawnWindows_def Let_def po prod.case pe]
  obtain commandLine directory environment where a:
    "windowsArguments options (spawnCorrelation scoped logger) answers = Inr (commandLine, directory, environment)"
    using d by (cases "windowsArguments options (spawnCorrelation scoped logger) answers") (auto split: if_splits)
  have l: "l = \<lparr>la_commandLine = commandLine, la_environment = environment, la_directory = directory,
      la_output = childHandle out (sw_stdOutput answers), la_error = childHandle err (sw_stdError answers)\<rparr>"
    and ok: "outError = None" "errError = None"
    using d by (auto simp: a split: if_splits option.splits sum.splits)
  show "windowsArguments options (spawnCorrelation scoped logger) answers = Inr (la_commandLine l, la_directory l, la_environment l)"
    by (simp add: a l)
  show "\<exists>r w. sw_pipeOut answers = Inr (r, w) \<and> la_output l = w" if "co_captureStdout options"
    using po that ok by (auto simp: createPipeWindows_def l childHandle_def split: sum.splits)
  show "\<exists>r w. sw_pipeErr answers = Inr (r, w) \<and> la_error l = w" if "co_captureStderr options"
    using pe that ok by (auto simp: createPipeWindows_def l childHandle_def split: sum.splits)
  show "la_output l = sw_stdOutput answers" if "\<not> co_captureStdout options"
    using po that by (simp add: createPipeWindows_def l childHandle_def)
  show "la_error l = sw_stdError answers" if "\<not> co_captureStderr options"
    using pe that by (simp add: createPipeWindows_def l childHandle_def)
qed

lemma windowsArguments_environment:
  assumes "windowsArguments options corr answers = Inr (commandLine, directory, environment)"
  shows "environment = (if co_propagateCorrelation options \<and> corr \<noteq> 0
      then Some (buildChildEnvironmentBlock (sw_towupper answers) (sw_environment answers)
        (wp_value (toWidePath (sw_wide answers) (bytesOfString cCorrelationEnvVar)))
        (wp_value (toWidePath (sw_wide answers) (bytesOfString (natToChars 10 (unat corr))))))
      else None)"
    and "commandLine = wp_value (toWidePath (sw_wide answers) (buildWindowsCommandLine (co_argv options))) @ [0]"
  using assms by (auto simp: windowsArguments_def Let_def split: if_splits)

section \<open>Properties\<close>

text \<open>
  C31. Spawning leaks nothing on Windows either.  Whatever fails (the argument vector, an
  allocation, a conversion, either pipe or its inheritance flag, \<open>CreateProcessW\<close>, either
  capture thread), an invalid result leaves the parent's open handles and children exactly
  as they were and names the error; a valid one has started one child and left open exactly
  its process handle and the read ends its capture threads own.  The call returns unless it
  waits for a child that never ends or for a stream that never does.
\<close>

theorem windows_spawn_leaks_nothing:
  assumes "nextChildId \<noteq> 0"
  shows "case spawnWindows ca clock options scoped answers nextChildId logger os of
      None \<Rightarrow> sw_ending answers = None \<or> streamOf (map readOf (wt_results (sw_outThread answers))) = None
    | Some (c, os', logger', nextChildId', launch) \<Rightarrow>
        windowsOwns os (case sw_create answers of Inr (process, initialThread, pid) \<Rightarrow> [pid] | Inl _ \<Rightarrow> []) c os'"
  using spawnWindows_returns [of ca clock options scoped answers nextChildId logger os] spawnWindows_owns [OF _ assms]
  by (auto split: option.split)

definition exampleSpawnWindows :: SpawnWindowsAnswers where
  "exampleSpawnWindows = \<lparr>sw_allocationFails = False, sw_wide = wm_wide exampleWindows, sw_environment = [[65, 61, 66]],
     sw_towupper = (\<lambda>c. c), sw_pipeOut = Inr (8, 12), sw_inheritOut = Inr (), sw_pipeErr = Inl 8, sw_inheritErr = Inr (),
     sw_stdOutput = 1, sw_stdError = 2, sw_create = Inr (16, 20, 99), sw_outThreadFails = True, sw_errThreadFails = False,
     sw_outThread = \<lparr>wt_base = exampleThread, wt_results = [None]\<rparr>, sw_errThread = \<lparr>wt_base = exampleThread, wt_results = [None]\<rparr>,
     sw_ending = Some (Some 3)\<rparr>"

theorem windows_spawn_leaks_nothing_witness:
  "case spawnWindows (exampleCaller False) (\<lambda>_. 0) exampleOptions 0 exampleSpawnWindows 1 None \<lparr>os_open = [4], os_children = []\<rparr> of
      None \<Rightarrow> sw_ending exampleSpawnWindows = None
        \<or> streamOf (map readOf (wt_results (sw_outThread exampleSpawnWindows))) = None
    | Some (c, os', logger', nextChildId', launch) \<Rightarrow>
        windowsOwns \<lparr>os_open = [4], os_children = []\<rparr>
          (case sw_create exampleSpawnWindows of Inr (process, initialThread, pid) \<Rightarrow> [pid] | Inl _ \<Rightarrow> []) c os'"
  by (rule windows_spawn_leaks_nothing) simp



text \<open>
  C32. What a Windows child is started with.  Its environment block, read back, is the
  parent's without any spelling of the correlation variable, and then that variable with
  the id in scope (or no block at all, so the parent's own, without propagation or id); its
  standard handles are the write ends of the pipes that were asked for and the parent's own
  otherwise.
\<close>

theorem windows_child_environment:
  assumes "spawnWindows ca clock options scoped answers n logger os = Some (c, os', logger', n', Some l)"
    and "corr = spawnCorrelation scoped logger"
    and "name = wp_value (toWidePath (sw_wide answers) (bytesOfString cCorrelationEnvVar))"
    and "val = wp_value (toWidePath (sw_wide answers) (bytesOfString (natToChars 10 (unat corr))))"
    and "list_all wellEntry (sw_environment answers)" and "0 \<notin> set name" and "0 \<notin> set val"
  shows "map_option readBlock (la_environment l) = (if co_propagateCorrelation options \<and> corr \<noteq> 0
      then Some (filter (\<lambda>e. \<not> isOverride (sw_towupper answers) name e) (sw_environment answers) @ [name @ 61 # val]) else None)
    \<and> (if co_captureStdout options then \<exists>r. sw_pipeOut answers = Inr (r, la_output l) else la_output l = sw_stdOutput answers)
    \<and> (if co_captureStderr options then \<exists>r. sw_pipeErr answers = Inr (r, la_error l) else la_error l = sw_stdError answers)"
proof -
  note e = windowsArguments_environment(1) [OF spawnWindows_launch(1) [OF assms(1)], folded assms(2), folded assms(3,4)]
  show ?thesis
    using environment_block [OF assms(5-7)] spawnWindows_launch(2-5) [OF assms(1)] by (auto simp: e)
qed

theorem windows_child_environment_witness:
  "\<exists>c os' logger' n' l. spawnWindows (exampleCaller False) (\<lambda>_. 0) exampleOptions 5
      (exampleSpawnWindows\<lparr>sw_outThreadFails := False\<rparr>) 1 None \<lparr>os_open = [4], os_children = []\<rparr> = Some (c, os', logger', n', Some l)
    \<and> map_option readBlock (la_environment l)
      = Some [[65, 61, 66], map ucast (bytesOfString cCorrelationEnvVar) @ [61, 53]]"
proof -
  let ?ans = "exampleSpawnWindows\<lparr>sw_outThreadFails := False\<rparr>"
  have name: "bytesOfString cCorrelationEnvVar = [83,85,66,48,76,79,71,95,67,79,82,82,69,76,65,84,73,79,78]"
    by (simp add: bytesOfString_def cCorrelationEnvVar_def of_char_def)
  have val: "bytesOfString (natToChars 10 (unat (5 :: u64))) = [53]"
    by (simp add: natToChars.simps digitChar_def bytesOfString_def)
  have b: "buildWindowsCommandLine [[108, 115]] = [108, 115]" by code_simp
  have corr: "spawnCorrelation 5 None = 5" by (simp add: spawnCorrelation_def)
  have wn: "toWidePath (sw_wide ?ans) (bytesOfString cCorrelationEnvVar)
      = \<lparr>wp_value = map ucast (bytesOfString cCorrelationEnvVar), wp_error = noError\<rparr>"
    unfolding name by (simp add: exampleSpawnWindows_def exampleWindows_def toWidePath_def)
  have wv: "toWidePath (sw_wide ?ans) (bytesOfString (natToChars 10 (unat (5 :: u64)))) = \<lparr>wp_value = [53], wp_error = noError\<rparr>"
    unfolding val by (simp add: exampleSpawnWindows_def exampleWindows_def toWidePath_def)
  have wc: "toWidePath (sw_wide ?ans) [108, 115] = \<lparr>wp_value = [108, 115], wp_error = noError\<rparr>"
    by (simp add: exampleSpawnWindows_def exampleWindows_def toWidePath_def)
  obtain env where a: "windowsArguments exampleOptions 5 ?ans = Inr ([108, 115, 0], None, Some env)"
    using wn wv wc by (simp add: windowsArguments_def exampleOptions_def b hasError_def noError_def Let_def)
  obtain c os' logger' n' l where s: "spawnWindows (exampleCaller False) (\<lambda>_. 0) exampleOptions 5 ?ans 1 None
      \<lparr>os_open = [4], os_children = []\<rparr> = Some (c, os', logger', n', Some l)"
    using a corr by (simp add: spawnWindows_def exampleOptions_def exampleSpawnWindows_def createPipeWindows_def
        spawnStarted_def case_prod_beta Let_def)
  have w: "list_all wellEntry (sw_environment ?ans)" by (simp add: exampleSpawnWindows_def wellEntry_def)
  have n0: "0 \<notin> set (map ucast (bytesOfString cCorrelationEnvVar) :: wide)" unfolding name by simp
  have i: "\<not> isOverride (\<lambda>c. c) (map ucast (bytesOfString cCorrelationEnvVar)) [65, 61, 66]"
    unfolding name by (simp add: isOverride_def)
  have wn': "wp_value (toWidePath (sw_wide ?ans) (bytesOfString cCorrelationEnvVar)) = map ucast (bytesOfString cCorrelationEnvVar)"
    and wv': "wp_value (toWidePath (sw_wide ?ans) (bytesOfString (natToChars 10 (unat (5 :: u64))))) = [53]"
    by (simp_all only: wn wv WidePath.select_convs)
  have "map_option readBlock (la_environment l)
      = Some [[65, 61, 66], map ucast (bytesOfString cCorrelationEnvVar) @ [61, 53]]"
    using windows_child_environment [OF s corr [symmetric] wn' [symmetric] wv' [symmetric] w n0] i
    by (simp add: exampleSpawnWindows_def exampleOptions_def)
  with s show ?thesis by blast
qed

end
