(* ===== verification/AbiHost.thy ===== *)
theory AbiHost
  imports Emit
begin

unbundle bit_operations_syntax

text \<open>
  \<^verbatim>\<open>include/sub0log/abi_host.hpp\<close> and the record of \<^verbatim>\<open>sub0log_abi.h\<close>: the table that remembers
  which plugin sites were announced into which segment, and the functions a plugin calls.
  What the rest of the host relies on in the table is the locale \<open>announce_memory\<close>; the
  open-addressed table is an instance of it.
\<close>

section \<open>The announce table\<close>

definition cSlots :: u64 where "cSlots = 4096"
definition cProbeLimit :: nat where "cProbeLimit = 32"

text \<open>A slot: the site id (0 while unclaimed) and the generation.\<close>

type_synonym Slot = "u64 \<times> u64"

record SiteAnnounceTable =
  st_slots :: "Slot list"
  st_exhausted :: u64

definition newTable :: SiteAnnounceTable where
  "newTable = \<lparr>st_slots = replicate (unat cSlots) (0, 0), st_exhausted = 0\<rparr>"

definition probeStart :: "u64 \<Rightarrow> u64" where
  "probeStart sid =
     (let x = sid + 0x9E3779B97F4A7C15;
          x = (x XOR drop_bit 30 x) * 0xBF58476D1CE4E5B9;
          x = (x XOR drop_bit 27 x) * 0x94D049BB133111EB;
          x = x XOR drop_bit 31 x
      in x AND (cSlots - 1))"

definition nextTableSlot :: "u64 \<Rightarrow> u64" where
  "nextTableSlot slot = (slot + 1) AND (cSlots - 1)"

text \<open>The loops; \<open>None\<close> when the probe bound is exhausted.\<close>

fun generationProbe :: "nat \<Rightarrow> u64 \<Rightarrow> u64 \<Rightarrow> Slot list \<Rightarrow> u64 option" where
  "generationProbe 0 slot sid slots = None"
| "generationProbe (Suc i) slot sid slots =
     (if fst (slots ! unat slot) = sid then Some (snd (slots ! unat slot))
      else if fst (slots ! unat slot) = 0 then Some 0
      else generationProbe i (nextTableSlot slot) sid slots)"

definition generationFor :: "u64 \<Rightarrow> SiteAnnounceTable \<Rightarrow> u64 \<times> SiteAnnounceTable" where
  "generationFor sid t =
     (case generationProbe cProbeLimit (probeStart sid) sid (st_slots t) of
        Some g \<Rightarrow> (g, t)
      | None \<Rightarrow> (0, t\<lparr>st_exhausted := st_exhausted t + 1\<rparr>))"

fun recordProbe :: "nat \<Rightarrow> u64 \<Rightarrow> u64 \<Rightarrow> u64 \<Rightarrow> Slot list \<Rightarrow> Slot list option" where
  "recordProbe 0 slot sid generation slots = None"
| "recordProbe (Suc i) slot sid generation slots =
     (if fst (slots ! unat slot) = 0 \<or> fst (slots ! unat slot) = sid
      then Some (slots[unat slot := (sid, generation)])
      else recordProbe i (nextTableSlot slot) sid generation slots)"

definition recordSite :: "u64 \<Rightarrow> u64 \<Rightarrow> SiteAnnounceTable \<Rightarrow> SiteAnnounceTable" where
  "recordSite sid generation t =
     (case recordProbe cProbeLimit (probeStart sid) sid generation (st_slots t) of
        Some slots \<Rightarrow> t\<lparr>st_slots := slots\<rparr>
      | None \<Rightarrow> t\<lparr>st_exhausted := st_exhausted t + 1\<rparr>)"

definition siteTableExhausted :: "SiteAnnounceTable \<Rightarrow> u64" where
  "siteTableExhausted t = st_exhausted t"

section \<open>The host's functions\<close>

record Sub0LogAbiRecord =
  ar_site_id :: u64
  ar_subsystem_id :: u32
  ar_severity :: u8
  ar_payload :: "bytes option"
  ar_payload_bytes :: u32

text \<open>A null string is the empty one; a null code array has no codes.\<close>

definition abiDefineSite ::
  "Caller \<Rightarrow> (nat \<Rightarrow> u64) \<Rightarrow> u64 \<Rightarrow> u32 \<Rightarrow> u8 \<Rightarrow> bytes option \<Rightarrow> bytes option \<Rightarrow> u32 \<Rightarrow> u8 list option \<Rightarrow> u8
    \<Rightarrow> Process \<times> Producer \<times> SiteAnnounceTable \<Rightarrow> Process \<times> Producer \<times> SiteAnnounceTable" where
  "abiDefineSite ca clk sid subsystem severity formatText file line argTypeCodes argCount = (\<lambda>(p, P, t).
     if pc_active p = 0 then (snd (countUnboundEmit (ca_split ca) p), P, t)
     else
       let fmt = (case formatText of Some s \<Rightarrow> s | None \<Rightarrow> []);
           fileView = (case file of Some s \<Rightarrow> s | None \<Rightarrow> []);
           typeCodes = (case argTypeCodes of Some cs \<Rightarrow> take (unat argCount) cs | None \<Rightarrow> []);
           (ok, P') = writeSiteDefinitionCore ca clk sid subsystem (Severity severity) fmt fileView line typeCodes P
       in (p, P', if ok then recordSite sid (sg_generation (lg_segment (pr_logger P'))) t else t))"

definition cMaxPayload :: u32 where "cMaxPayload = 0xFFFF - word_of_nat cMessagePayloadSize"

text \<open>The part of the payload that is copied, and the write behind the checks.\<close>

definition abiBody :: "Sub0LogAbiRecord \<Rightarrow> u32 \<Rightarrow> bytes" where
  "abiBody r payloadBytes =
     (if 0 < payloadBytes then (case ar_payload r of Some bs \<Rightarrow> take (unat payloadBytes) bs | None \<Rightarrow> []) else [])"

definition abiWrite :: "Caller \<Rightarrow> (nat \<Rightarrow> u64) \<Rightarrow> u64 \<Rightarrow> Sub0LogAbiRecord \<Rightarrow> Producer \<Rightarrow> Producer" where
  "abiWrite ca clk scoped r P =
     (let payloadTruncated = (cMaxPayload < ar_payload_bytes r);
          payloadBytes = (if payloadTruncated then cMaxPayload else ar_payload_bytes r);
          totalBytes = unat (word_of_nat cMessagePayloadSize + payloadBytes);
          (slot, P1) = reserveRecord ca (clk 0) (clk 1) totalBytes P
      in case slot of
           None \<Rightarrow> P1
         | Some s \<Rightarrow>
           let correlation = stampCorrelation scoped (pr_logger P1);
               P2 = storePayload s (messageBytes (ar_site_id r) (clk 2) correlation (abiBody r payloadBytes)) P1;
               P3 = commitIn ca s \<lparr>rh_payloadBytes = word_of_nat totalBytes, rh_kind = Message,
                      rh_flags = (if payloadTruncated then cFlagTruncated else 0), rh_sequence = 0\<rparr> P2
           in noteTruncation ca payloadTruncated P3)"

definition abiEmit ::
  "Caller \<Rightarrow> (nat \<Rightarrow> u64) \<Rightarrow> u64 \<Rightarrow> Sub0LogAbiRecord option
    \<Rightarrow> Process \<times> Producer \<times> SiteAnnounceTable \<Rightarrow> Process \<times> Producer \<times> SiteAnnounceTable" where
  "abiEmit ca clk scoped call = (\<lambda>(p, P, t).
     case call of
       None \<Rightarrow> (p, P, t)
     | Some r \<Rightarrow>
       if pc_active p = 0 then (snd (countUnboundEmit (ca_split ca) p), P, t)
       else if \<not> atLeast (Severity (ar_severity r)) (subsystemThreshold (pr_logger P) (ar_subsystem_id r)) then (p, P, t)
       else
         let (g, t') = generationFor (ar_site_id r) t
         in if g \<noteq> sg_generation (lg_segment (pr_logger P)) then (p, dropRecord ca P, t')
            else (p, abiWrite ca clk scoped r P, t'))"

definition abiCurrentCorrelation :: "u64 \<Rightarrow> Process \<Rightarrow> Logger \<Rightarrow> u64" where
  "abiCurrentCorrelation scoped p lg =
     (if scoped \<noteq> 0 then scoped else if pc_active p \<noteq> 0 then lg_rootCorrelation lg else 0)"

text \<open>The getter hands out the table of functions exactly when a Logger is bound.\<close>

definition hostTable :: "Process \<Rightarrow> bool" where
  "hostTable p \<longleftrightarrow> pc_active p \<noteq> 0"

section \<open>What a host relies on in the table\<close>

locale announce_memory =
  fixes empty_table :: 't
    and remember :: "u64 \<Rightarrow> u64 \<Rightarrow> 't \<Rightarrow> 't"
    and recall :: "u64 \<Rightarrow> 't \<Rightarrow> u64"
    and well_formed :: "'t \<Rightarrow> bool"
  assumes empty_ok: "well_formed empty_table"
    and remember_ok: "well_formed t \<Longrightarrow> s \<noteq> 0 \<Longrightarrow> well_formed (remember s g t)"
    and recall_empty: "s \<noteq> 0 \<Longrightarrow> recall s empty_table = 0"
    and recall_same: "well_formed t \<Longrightarrow> s \<noteq> 0 \<Longrightarrow>
      recall s (remember s g t) = g \<or> (recall s t = 0 \<and> recall s (remember s g t) = 0)"
    and recall_other: "well_formed t \<Longrightarrow> s \<noteq> 0 \<Longrightarrow> s' \<noteq> 0 \<Longrightarrow> s' \<noteq> s \<Longrightarrow> recall s' (remember s g t) = recall s' t"
begin

definition remember_all :: "(u64 \<times> u64) list \<Rightarrow> 't" where
  "remember_all rs = foldl (\<lambda>t (s, g). remember s g t) empty_table rs"

lemma remember_all_snoc: "remember_all (rs @ [(s, g)]) = remember s g (remember_all rs)"
  by (simp add: remember_all_def)

lemma remember_all_ok: "list_all (\<lambda>(s, g). s \<noteq> 0) rs \<Longrightarrow> well_formed (remember_all rs)"
proof (induction rs rule: rev_induct)
  case Nil
  then show ?case by (simp add: remember_all_def empty_ok)
next
  case (snoc r rs)
  then show ?case by (cases r) (simp add: remember_all_snoc remember_ok)
qed

text \<open>The newest generation recorded for the site, or nothing known.\<close>

lemma recall_newest:
  assumes "list_all (\<lambda>(s, g). s \<noteq> 0) rs" and "s \<noteq> 0"
  shows "recall s (remember_all rs) \<in> {0, (case map_of (rev rs) s of Some g \<Rightarrow> g | None \<Rightarrow> 0)}"
  using assms(1)
proof (induction rs rule: rev_induct)
  case Nil
  then show ?case by (simp add: remember_all_def recall_empty assms(2))
next
  case (snoc r rs)
  obtain s1 g1 where r: "r = (s1, g1)" by fastforce
  have ok: "well_formed (remember_all rs)" "s1 \<noteq> 0" using snoc.prems r by (simp_all add: remember_all_ok)
  show ?case
    using snoc r recall_same [OF ok, of g1] recall_other [OF ok assms(2), of g1]
    by (cases "s1 = s") (auto simp: remember_all_snoc)
qed

end

section \<open>The table keeps its promise\<close>

text \<open>Both loops stop at the first slot that is free or the site's own.\<close>

fun firstStop :: "nat \<Rightarrow> u64 \<Rightarrow> u64 \<Rightarrow> Slot list \<Rightarrow> nat option" where
  "firstStop 0 slot sid slots = None"
| "firstStop (Suc i) slot sid slots =
     (if fst (slots ! unat slot) = 0 \<or> fst (slots ! unat slot) = sid then Some (unat slot)
      else firstStop i (nextTableSlot slot) sid slots)"

lemma generationProbe_stop:
  "sid \<noteq> 0 \<Longrightarrow> generationProbe n slot sid slots
    = map_option (\<lambda>m. if fst (slots ! m) = sid then snd (slots ! m) else 0) (firstStop n slot sid slots)"
  by (induction n slot sid slots rule: firstStop.induct) auto

lemma recordProbe_stop:
  "recordProbe n slot sid g slots = map_option (\<lambda>m. slots[m := (sid, g)]) (firstStop n slot sid slots)"
  by (induction n slot sid slots rule: firstStop.induct) auto

lemma slot_in_range: "unat (x AND (cSlots - 1)) < 4096"
proof -
  have "x AND (cSlots - 1) \<le> cSlots - 1" by (rule word_and_le1)
  then show ?thesis by (simp add: cSlots_def word_le_nat_alt)
qed

lemma nextTableSlot_range: "unat (nextTableSlot slot) < 4096"
  by (simp only: nextTableSlot_def slot_in_range)

lemma probeStart_range: "unat (probeStart sid) < 4096"
  by (simp only: probeStart_def Let_def slot_in_range)

lemma firstStop_range:
  "firstStop n slot sid slots = Some m \<Longrightarrow> unat slot < 4096 \<Longrightarrow>
    m < 4096 \<and> (fst (slots ! m) = 0 \<or> fst (slots ! m) = sid)"
  by (induction n slot sid slots rule: firstStop.induct) (auto simp: nextTableSlot_range split: if_splits)

text \<open>Claiming or updating a slot moves no other site, and puts the site where it stops.\<close>

lemma firstStop_other:
  assumes "fst (slots ! m0) = 0 \<or> fst (slots ! m0) = s" and "m0 < length slots" and "k \<noteq> s" "k \<noteq> 0" "s \<noteq> 0"
  shows "firstStop n slot k slots = Some m \<Longrightarrow> fst (slots ! m) = k \<Longrightarrow> firstStop n slot k (slots[m0 := (s, g)]) = Some m"
proof (induction n arbitrary: slot)
  case (Suc i)
  then show ?case using assms by (cases "unat slot = m0") (auto split: if_splits)
qed simp

lemma firstStop_same:
  assumes "m0 < length slots" and "firstStop n0 slot0 s slots = Some m0" and "unat slot0 < 4096" and "s \<noteq> 0"
  shows "firstStop n slot s slots = Some m0 \<Longrightarrow> firstStop n slot s (slots[m0 := (s, g)]) = Some m0"
proof (induction n arbitrary: slot)
  case (Suc i)
  then show ?case using assms by (cases "unat slot = m0") (auto split: if_splits)
qed simp

text \<open>Every claimed slot is where its site's probe stops.\<close>

definition tableOk :: "SiteAnnounceTable \<Rightarrow> bool" where
  "tableOk t \<longleftrightarrow> length (st_slots t) = 4096 \<and>
     (\<forall>m < 4096. fst (st_slots t ! m) \<noteq> 0 \<longrightarrow>
        firstStop cProbeLimit (probeStart (fst (st_slots t ! m))) (fst (st_slots t ! m)) (st_slots t) = Some m)"

definition stopOf :: "u64 \<Rightarrow> SiteAnnounceTable \<Rightarrow> nat option" where
  "stopOf s t = firstStop cProbeLimit (probeStart s) s (st_slots t)"

lemma stopOf_range: "stopOf s t = Some m \<Longrightarrow> m < 4096 \<and> (fst (st_slots t ! m) = 0 \<or> fst (st_slots t ! m) = s)"
  unfolding stopOf_def by (rule firstStop_range [OF _ probeStart_range])

lemma tableOk_stop: "tableOk t \<Longrightarrow> m < 4096 \<Longrightarrow> fst (st_slots t ! m) = s \<Longrightarrow> s \<noteq> 0 \<Longrightarrow> stopOf s t = Some m"
  by (auto simp: tableOk_def stopOf_def)

lemma recordSite_slots:
  "st_slots (recordSite s g t) = (case stopOf s t of None \<Rightarrow> st_slots t | Some m \<Rightarrow> (st_slots t)[m := (s, g)])"
  by (simp add: recordSite_def recordProbe_stop stopOf_def split: option.split)

lemma recall_stop:
  "s \<noteq> 0 \<Longrightarrow> fst (generationFor s t)
    = (case stopOf s t of Some m \<Rightarrow> if fst (st_slots t ! m) = s then snd (st_slots t ! m) else 0 | None \<Rightarrow> 0)"
  by (simp add: generationFor_def generationProbe_stop stopOf_def split: option.split)

lemma newTable_ok: "tableOk newTable"
  by (simp add: tableOk_def newTable_def cSlots_def)

lemma recordSite_stop:
  assumes ok: "tableOk t" and "s \<noteq> 0" and m: "stopOf s t = Some m"
  shows "stopOf s (recordSite s g t) = Some m"
    and "k \<noteq> s \<Longrightarrow> k \<noteq> 0 \<Longrightarrow> stopOf k t = Some j \<Longrightarrow> fst (st_slots t ! j) = k \<Longrightarrow> stopOf k (recordSite s g t) = Some j"
proof -
  have r: "m < length (st_slots t)" "fst (st_slots t ! m) = 0 \<or> fst (st_slots t ! m) = s"
    using stopOf_range [OF m] ok by (auto simp: tableOk_def)
  show "stopOf s (recordSite s g t) = Some m"
    using m firstStop_same [OF r(1) m [unfolded stopOf_def] probeStart_range assms(2)]
    by (simp add: stopOf_def recordSite_slots)
  show "k \<noteq> s \<Longrightarrow> k \<noteq> 0 \<Longrightarrow> stopOf k t = Some j \<Longrightarrow> fst (st_slots t ! j) = k \<Longrightarrow> stopOf k (recordSite s g t) = Some j"
    using m firstStop_other [OF r(2) r(1) _ _ assms(2)] by (simp add: stopOf_def recordSite_slots)
qed

lemma recordSite_ok:
  assumes ok: "tableOk t" and s: "s \<noteq> 0"
  shows "tableOk (recordSite s g t)"
proof (cases "stopOf s t")
  case None
  then show ?thesis using ok recordSite_slots [of s g t] by (simp add: tableOk_def)
next
  case (Some m)
  have len: "length (st_slots t) = 4096" using ok by (simp add: tableOk_def)
  have "stopOf (fst (st_slots (recordSite s g t) ! j)) (recordSite s g t) = Some j"
    if j: "j < 4096" "fst (st_slots (recordSite s g t) ! j) \<noteq> 0" for j
  proof (cases "j = m")
    case True
    then show ?thesis using recordSite_stop(1) [OF ok s Some] Some len j by (simp add: recordSite_slots)
  next
    case False
    then have k: "fst (st_slots (recordSite s g t) ! j) = fst (st_slots t ! j)" using Some by (simp add: recordSite_slots)
    have "stopOf (fst (st_slots t ! j)) t = Some j" using tableOk_stop [OF ok j(1) refl] j(2) k by simp
    moreover from this have "fst (st_slots t ! j) \<noteq> s" using Some False by auto
    ultimately show ?thesis using recordSite_stop(2) [OF ok s Some] j(2) k by simp
  qed
  moreover have "length (st_slots (recordSite s g t)) = 4096" using Some len by (simp add: recordSite_slots)
  ultimately show ?thesis unfolding tableOk_def stopOf_def by blast
qed

lemma recall_absent: "s \<noteq> 0 \<Longrightarrow> tableOk t \<Longrightarrow> \<forall>m < 4096. fst (st_slots t ! m) \<noteq> s \<Longrightarrow> fst (generationFor s t) = 0"
  using stopOf_range [of s t] by (auto simp: recall_stop split: option.split)

lemma recordSite_other:
  assumes ok: "tableOk t" and s: "s \<noteq> 0" "k \<noteq> 0" "k \<noteq> s"
  shows "fst (generationFor k (recordSite s g t)) = fst (generationFor k t)"
proof (cases "\<exists>j < 4096. fst (st_slots t ! j) = k")
  case True
  then obtain j where j: "j < 4096" "fst (st_slots t ! j) = k" by blast
  have sj: "stopOf k t = Some j" by (rule tableOk_stop [OF ok j s(2)])
  show ?thesis
  proof (cases "stopOf s t")
    case None
    then have "st_slots (recordSite s g t) = st_slots t" by (simp add: recordSite_slots)
    then show ?thesis using s by (simp add: recall_stop stopOf_def split: option.split)
  next
    case (Some m)
    then have "m \<noteq> j" using stopOf_range [OF Some] j s by auto
    then show ?thesis
      using recordSite_stop(2) [OF ok s(1) Some s(3,2) sj j(2)] sj s Some by (simp add: recall_stop recordSite_slots)
  qed
next
  case False
  have "fst (st_slots (recordSite s g t) ! m) \<noteq> k" if "m < 4096" for m
  proof (cases "stopOf s t = Some m")
    case True
    then show ?thesis using that s ok by (simp add: recordSite_slots tableOk_def)
  next
    case other: False
    then have "st_slots (recordSite s g t) ! m = st_slots t ! m" by (auto simp: recordSite_slots split: option.split)
    then show ?thesis using False that by simp
  qed
  then show ?thesis using False recall_absent [OF s(2)] recordSite_ok [OF ok s(1)] ok by simp
qed

lemma recordSite_same:
  assumes ok: "tableOk t" and s: "s \<noteq> 0"
  shows "fst (generationFor s (recordSite s g t)) = g
    \<or> (fst (generationFor s t) = 0 \<and> fst (generationFor s (recordSite s g t)) = 0)"
proof (cases "stopOf s t")
  case None
  then have "st_slots (recordSite s g t) = st_slots t" by (simp add: recordSite_slots)
  with None show ?thesis using s by (simp add: recall_stop stopOf_def)
next
  case (Some m)
  then show ?thesis using recordSite_stop(1) [OF ok s Some] stopOf_range [OF Some] ok s
    by (simp add: recall_stop recordSite_slots tableOk_def)
qed

interpretation at: announce_memory newTable recordSite "\<lambda>s t. fst (generationFor s t)" tableOk
proof
  show "tableOk newTable" by (rule newTable_ok)
  show "s \<noteq> 0 \<Longrightarrow> fst (generationFor s newTable) = 0" for s
    by (rule recall_absent [OF _ newTable_ok]) (simp_all add: newTable_def cSlots_def)
qed (simp_all add: recordSite_ok recordSite_same recordSite_other)

section \<open>A run of plugin calls\<close>

datatype AbiCall =
  CallDefineSite u64 u32 u8 "bytes option" "bytes option" u32 "u8 list option" u8
| CallEmit u64 "Sub0LogAbiRecord option"

fun abiCall :: "Caller \<Rightarrow> (nat \<Rightarrow> u64) \<Rightarrow> AbiCall \<Rightarrow> Process \<times> Producer \<times> SiteAnnounceTable
    \<Rightarrow> Process \<times> Producer \<times> SiteAnnounceTable" where
  "abiCall ca clk (CallDefineSite sid subsystem severity fmt file line codes n) st =
     abiDefineSite ca clk sid subsystem severity fmt file line codes n st"
| "abiCall ca clk (CallEmit scoped r) st = abiEmit ca clk scoped r st"

text \<open>What the header asks of a caller: site ids are addresses, a payload has its bytes.\<close>

fun callOk :: "AbiCall \<Rightarrow> bool" where
  "callOk (CallDefineSite sid subsystem severity fmt file line codes n) \<longleftrightarrow>
     sid \<noteq> 0 \<and> length (case fmt of Some s \<Rightarrow> s | None \<Rightarrow> []) + length (case file of Some s \<Rightarrow> s | None \<Rightarrow> []) < 2 ^ 32 - 284"
| "callOk (CallEmit scoped r) \<longleftrightarrow>
     (case r of None \<Rightarrow> True
      | Some r \<Rightarrow> ar_site_id r \<noteq> 0
          \<and> unat (ar_payload_bytes r) \<le> length (case ar_payload r of Some bs \<Rightarrow> bs | None \<Rightarrow> []))"

text \<open>Each Message's site was defined earlier in the log.\<close>

fun wellAnnounced :: "u64 list \<Rightarrow> logrec list \<Rightarrow> bool" where
  "wellAnnounced known [] = True"
| "wellAnnounced known (r # rs) =
     (if rh_kind (fst r) = SiteDefinition then wellAnnounced (loadWord 0 (snd r) # known) rs
      else (rh_kind (fst r) = Message \<longrightarrow> loadWord 0 (snd r) \<in> set known) \<and> wellAnnounced known rs)"

fun announcedIn :: "u64 list \<Rightarrow> logrec list \<Rightarrow> u64 list" where
  "announcedIn known [] = known"
| "announcedIn known (r # rs) =
     announcedIn (if rh_kind (fst r) = SiteDefinition then loadWord 0 (snd r) # known else known) rs"

lemma wellAnnounced_append:
  "wellAnnounced known (rs @ rs') \<longleftrightarrow> wellAnnounced known rs \<and> wellAnnounced (announcedIn known rs) rs'"
  by (induction rs arbitrary: known) auto

lemma message_site: "loadWord 0 (messageBytes sid now c out) = sid"
  by (simp add: messageBytes_def MessagePayload_bytes_def byte_simps)

lemma definition_site: "loadWord 0 (definitionPayload sid sub sev fmt file line codes) = sid"
  by (simp add: definitionPayload_def SiteDefinitionPayload_bytes_def byte_simps)

lemma generationFor_table [simp]:
  "fst (generationFor s (snd (generationFor s' t))) = fst (generationFor s t)"
  "tableOk (snd (generationFor s' t)) = tableOk t"
  by (simp_all add: generationFor_def tableOk_def split: option.split)

text \<open>The host's promise: what the table vouches for is in the log.\<close>

definition vouched :: "u64 \<Rightarrow> SiteAnnounceTable \<Rightarrow> u64 list \<Rightarrow> bool" where
  "vouched g t known \<longleftrightarrow> tableOk t \<and> (\<forall>s. s \<noteq> 0 \<longrightarrow> fst (generationFor s t) = g \<longrightarrow> s \<in> set known)"

lemma vouched_record:
  assumes "vouched g t known" and "s \<noteq> 0"
  shows "vouched g (recordSite s g' t) (s # known)"
proof -
  have ok: "tableOk t" using assms(1) by (simp add: vouched_def)
  have "k \<in> set (s # known)" if "k \<noteq> 0" "fst (generationFor k (recordSite s g' t)) = g" for k
    using that assms at.recall_other [OF ok assms(2) that(1), of g'] by (cases "k = s") (auto simp: vouched_def)
  then show ?thesis using ok assms(2) by (simp add: vouched_def recordSite_ok)
qed

lemma vouched_cons: "vouched g t known \<Longrightarrow> vouched g t (s # known)"
  by (auto simp: vouched_def)

lemma abiDefineSite_step:
  assumes inv: "prod_inv ca (Suc (Suc k)) P cs" and ok: "callOk (CallDefineSite sid subsystem severity fmt file line codes n)"
    and v: "vouched (sg_generation (seg P)) t known"
    and s: "abiDefineSite ca clk sid subsystem severity fmt file line codes n (p, P, t) = (p', P', t')"
  shows "\<exists>cs' rs d tr. outcome ca k P cs P' cs' rs d tr \<and> wellAnnounced known rs
    \<and> vouched (sg_generation (seg P)) t' (announcedIn known rs)"
proof (cases "pc_active p = 0")
  case True
  then have "P' = P" "t' = t" using s by (simp_all add: abiDefineSite_def)
  then show ?thesis using v outcome_refl [OF prod_inv_mono [OF inv, of k]]
    by (intro exI [of _ cs] exI [of _ "[]"] exI [of _ 0]) simp
next
  case False
  let ?fmt = "case fmt of Some s \<Rightarrow> s | None \<Rightarrow> []" and ?file = "case file of Some s \<Rightarrow> s | None \<Rightarrow> []"
  let ?codes = "case codes of Some cs \<Rightarrow> take (unat n) cs | None \<Rightarrow> []"
  have "unat n < 256" by (rule unat_byte_lt)
  then have "length ?codes < 256" by (auto split: option.split)
  then have small: "length ?codes + length ?fmt + length ?file < 2 ^ 32 - 28" using ok by simp
  obtain w Q where w: "writeSiteDefinitionCore ca clk sid subsystem (Severity severity) ?fmt ?file line ?codes P = (w, Q)"
    by (metis surj_pair)
  have e: "P' = Q" "t' = (if w then recordSite sid (sg_generation (seg Q)) t else t)"
    using s False w by (auto simp: abiDefineSite_def Let_def seg_def)
  note o = writeSiteDefinitionCore_outcome [OF inv small w, unfolded definition_outcome_def]
  show ?thesis
  proof (cases w)
    case True
    then obtain cs' r fmt' file' tr where r: "isDefinition sid subsystem (Severity severity) fmt' file' line ?codes r"
      "outcome ca k P cs Q cs' [r] 0 tr"
      using o by auto
    then have "sg_generation (seg Q) = sg_generation (seg P)" by (auto simp: outcome_def same_config_def)
    moreover have "rh_kind (fst r) = SiteDefinition" "loadWord 0 (snd r) = sid"
      using r(1) by (simp_all add: isDefinition_def definition_site)
    ultimately show ?thesis using e True r(2) vouched_record [OF v, of sid] ok
      by (intro exI [of _ cs'] exI [of _ "[r]"] exI [of _ 0] exI [of _ tr]) simp
  next
    case False
    then obtain cs' where "outcome ca k P cs Q cs' [] 1 0" using o by auto
    then show ?thesis using False e v by (intro exI [of _ cs'] exI [of _ "[]"] exI [of _ 1] exI [of _ 0]) simp
  qed
qed

lemma abiWrite_outcome:
  assumes inv: "prod_inv ca (Suc (Suc k)) P cs"
    and pay: "unat (ar_payload_bytes r) \<le> length (case ar_payload r of Some bs \<Rightarrow> bs | None \<Rightarrow> [])"
  obtains cs' h msg tr where "outcome ca k P cs (abiWrite ca clk scoped r P) cs' [(h, msg)] 0 tr" "rh_kind h = Message"
      "loadWord 0 msg = ar_site_id r"
    | cs' where "outcome ca k P cs (abiWrite ca clk scoped r P) cs' [] 1 0"
proof -
  define tr where "tr = (cMaxPayload < ar_payload_bytes r)"
  define n where "n = (if tr then cMaxPayload else ar_payload_bytes r)"
  have nle: "unat n \<le> 0xFFFF - 24" "unat n \<le> unat (ar_payload_bytes r)"
    by (auto simp: n_def tr_def cMaxPayload_def struct_sizes word_less_nat_alt)
  then have lbody: "length (abiBody r n) = unat n"
    using pay by (auto simp: abiBody_def word_less_nat_alt split: option.splits)
  let ?N = "unat (word_of_nat cMessagePayloadSize + n)"
  have N: "?N = 24 + unat n" using nle(1) by (simp add: struct_sizes unat_plus_if')
  obtain slot P1 where rr: "reserveRecord ca (clk 0) (clk 1) ?N P = (slot, P1)" by fastforce
  define h where "h = \<lparr>rh_payloadBytes = word_of_nat ?N, rh_kind = Message,
    rh_flags = (if tr then cFlagTruncated else 0), rh_sequence = (0 :: u16)\<rparr>"
  define msg where "msg = messageBytes (ar_site_id r) (clk 2) (stampCorrelation scoped (pr_logger P1)) (abiBody r n)"
  have lm: "length msg = ?N" by (simp add: msg_def messageBytes_def N lbody)
  have e: "abiWrite ca clk scoped r P = (case slot of None \<Rightarrow> P1
      | Some s \<Rightarrow> noteTruncation ca tr (commitIn ca s h (storePayload s msg P1)))"
    unfolding abiWrite_def Let_def tr_def [symmetric] n_def [symmetric] rr prod.case
    by (cases slot) (simp_all add: msg_def h_def)
  have hk: "unat (rh_payloadBytes h) = length msg" "kindCanonical (rh_kind h)" "singleHead h"
    using nle(1) unfolding h_def lm unfolding N
    by (simp_all add: unat_of_nat singleHead_def flags_continued del: of_nat_add)
  show thesis
    using inv rr
  proof (cases rule: reserveRecord_cases)
    case (got P0 cs0 s)
    obtain cs' where o: "outcome ca k P cs (commitIn ca s h (storePayload s msg P1)) cs' ([] @ [(headFor h (writer P0) 0, msg)]) 0 0"
      by (rule reserved_append [OF got(3,4) _ hk]) (use got(2) lm in simp)
    then have "prod_inv ca k (commitIn ca s h (storePayload s msg P1)) cs'" by (simp add: outcome_def)
    from outcome_trans [OF o outcome_note [OF this, of tr]] show thesis
      using that(1) e got(1) by (simp add: headFor_def h_def msg_def message_site)
  next
    case (dropped cs')
    then show thesis using that(2) e by simp
  qed
qed

lemma abiEmit_step:
  assumes inv: "prod_inv ca (Suc (Suc k)) P cs" and ok: "callOk (CallEmit scoped call)"
    and v: "vouched (sg_generation (seg P)) t known"
    and s: "abiEmit ca clk scoped call (p, P, t) = (p', P', t')"
  shows "\<exists>cs' rs d tr. outcome ca k P cs P' cs' rs d tr \<and> wellAnnounced known rs
    \<and> vouched (sg_generation (seg P)) t' (announcedIn known rs)"
proof -
  note inv' = prod_inv_mono [OF inv, of k]
  have idle: ?thesis if "outcome ca k P cs P' cs' [] d 0" "vouched (sg_generation (seg P)) t' known" for cs' d
    using that by (intro exI [of _ cs'] exI [of _ "[]"] exI [of _ d] exI [of _ 0]) simp
  consider "P' = P" "t' = t"
    | (live) r g t1 where "call = Some r" "generationFor (ar_site_id r) t = (g, t1)" "t' = t1"
        "P' = (if g \<noteq> sg_generation (seg P) then dropRecord ca P else abiWrite ca clk scoped r P)"
  proof (cases call)
    case (Some r)
    obtain g t1 where "generationFor (ar_site_id r) t = (g, t1)" by fastforce
    then have "abiEmit ca clk scoped call (p, P, t) =
        (if pc_active p = 0 then (snd (countUnboundEmit (ca_split ca) p), P, t)
         else if \<not> atLeast (Severity (ar_severity r)) (subsystemThreshold (pr_logger P) (ar_subsystem_id r)) then (p, P, t)
         else (p, if g \<noteq> sg_generation (seg P) then dropRecord ca P else abiWrite ca clk scoped r P, t1))"
      using Some by (simp add: abiEmit_def seg_def)
    note e = this [unfolded s]
    show thesis
    proof (cases "pc_active p = 0 \<or> \<not> atLeast (Severity (ar_severity r)) (subsystemThreshold (pr_logger P) (ar_subsystem_id r))")
      case True
      then have "P' = P" "t' = t" using e by (auto split: if_splits)
      then show thesis by (rule that(1))
    next
      case False
      then have "t' = t1" "P' = (if g \<noteq> sg_generation (seg P) then dropRecord ca P else abiWrite ca clk scoped r P)"
        using e by simp_all
      then show thesis by (rule that(2) [OF Some \<open>generationFor (ar_site_id r) t = (g, t1)\<close>])
    qed
  qed (use that s in \<open>simp add: abiEmit_def\<close>)
  then show ?thesis
  proof cases
    case (live r g t1)
    have v1: "vouched (sg_generation (seg P)) t' known"
      using v generationFor_table(1) [of _ "ar_site_id r" t] generationFor_table(2) [of "ar_site_id r" t] live(2,3)
      by (simp add: vouched_def)
    show ?thesis
    proof (cases "g = sg_generation (seg P)")
      case False
      then show ?thesis using idle [OF _ v1] outcome_drop [OF inv'] live(4) by simp
    next
      case True
      have site: "ar_site_id r \<in> set known" using v live(1,2) True ok by (auto simp: vouched_def)
      have pay: "unat (ar_payload_bytes r) \<le> length (case ar_payload r of Some bs \<Rightarrow> bs | None \<Rightarrow> [])"
        using ok live(1) by simp
      have P': "P' = abiWrite ca clk scoped r P" using live(4) True by simp
      show ?thesis
      proof (rule abiWrite_outcome [OF inv pay, of clk scoped])
        fix cs' h msg tr
        assume "outcome ca k P cs (abiWrite ca clk scoped r P) cs' [(h, msg)] 0 tr" "rh_kind h = Message" "loadWord 0 msg = ar_site_id r"
        then show ?thesis using site v1 P'
          by (intro exI [of _ cs'] exI [of _ "[(h, msg)]"] exI [of _ 0] exI [of _ tr]) simp
      next
        fix cs'
        assume "outcome ca k P cs (abiWrite ca clk scoped r P) cs' [] 1 0"
        then show ?thesis using idle [OF _ v1] P' by simp
      qed
    qed
  qed (use idle outcome_refl [OF inv'] v in simp)
qed

fun abiRun :: "Caller \<Rightarrow> (nat \<Rightarrow> nat \<Rightarrow> u64) \<Rightarrow> nat \<Rightarrow> AbiCall list \<Rightarrow> Process \<times> Producer \<times> SiteAnnounceTable
    \<Rightarrow> Process \<times> Producer \<times> SiteAnnounceTable" where
  "abiRun ca clk i [] st = st"
| "abiRun ca clk i (c # calls) st = abiRun ca clk (i + 1) calls (abiCall ca (clk i) c st)"

lemma abiRun_announced:
  assumes "prod_inv ca (2 * length calls + k) P cs" and "list_all callOk calls"
    and "vouched (sg_generation (seg P)) t known"
    and "abiRun ca clk i calls (p, P, t) = (p', P', t')"
  shows "\<exists>cs' rs d tr. outcome ca k P cs P' cs' rs d tr \<and> wellAnnounced known rs
    \<and> vouched (sg_generation (seg P)) t' (announcedIn known rs)"
  using assms
proof (induction calls arbitrary: i p P t cs known)
  case Nil
  then show ?case using outcome_refl [of ca k P cs]
    by (intro exI [of _ cs] exI [of _ "[]"] exI [of _ 0]) simp
next
  case (Cons c calls)
  obtain p1 P1 t1 where c: "abiCall ca (clk i) c (p, P, t) = (p1, P1, t1)" by (metis prod_cases3)
  have inv: "prod_inv ca (Suc (Suc (2 * length calls + k))) P cs" using Cons.prems(1) by simp
  have "\<exists>cs' rs d tr. outcome ca (2 * length calls + k) P cs P1 cs' rs d tr \<and> wellAnnounced known rs
    \<and> vouched (sg_generation (seg P)) t1 (announcedIn known rs)"
  proof (cases c)
    case (CallDefineSite sid subsystem severity fmt fileName line codes n)
    then have "callOk (CallDefineSite sid subsystem severity fmt fileName line codes n)"
      "abiDefineSite ca (clk i) sid subsystem severity fmt fileName line codes n (p, P, t) = (p1, P1, t1)"
      using Cons.prems(2) c by simp_all
    from abiDefineSite_step [OF inv this(1) Cons.prems(3) this(2)] show ?thesis .
  next
    case (CallEmit scoped r)
    then have "callOk (CallEmit scoped r)" "abiEmit ca (clk i) scoped r (p, P, t) = (p1, P1, t1)"
      using Cons.prems(2) c by simp_all
    from abiEmit_step [OF inv this(1) Cons.prems(3) this(2)] show ?thesis .
  qed
  then obtain cs1 rs1 d1 tr1 where s1: "outcome ca (2 * length calls + k) P cs P1 cs1 rs1 d1 tr1"
    "wellAnnounced known rs1" "vouched (sg_generation (seg P)) t1 (announcedIn known rs1)" by blast
  have g: "sg_generation (seg P1) = sg_generation (seg P)" "prod_inv ca (2 * length calls + k) P1 cs1"
    using s1(1) by (auto simp: outcome_def same_config_def)
  obtain cs' rs d tr where s2: "outcome ca k P1 cs1 P' cs' rs d tr" "wellAnnounced (announcedIn known rs1) rs"
    "vouched (sg_generation (seg P)) t' (announcedIn (announcedIn known rs1) rs)"
    using Cons.IH [OF g(2) _ _ , of t1 "announcedIn known rs1" "i + 1" p1] Cons.prems(2,4) s1(3) c g(1) by auto
  have "announcedIn known (rs1 @ rs) = announcedIn (announcedIn known rs1) rs"
    by (induction rs1 arbitrary: known) auto
  then show ?case using outcome_trans [OF s1(1) s2(1)] s1(2) s2(2,3) wellAnnounced_append by metis
qed

lemma newTable_vouched: "g \<noteq> 0 \<Longrightarrow> vouched g newTable known"
  using at.recall_empty by (auto simp: vouched_def newTable_ok)

lemma remember_all_table: "at.remember_all rs = foldl (\<lambda>t (s, g). recordSite s g t) newTable rs"
  by (simp add: at.remember_all_def)

definition exampleCalls :: "AbiCall list" where
  "exampleCalls = [CallDefineSite 0x5000 1 2 (Some [104]) None 12 None 0,
     CallEmit 0 (Some \<lparr>ar_site_id = 0x5000, ar_subsystem_id = 1, ar_severity = 2, ar_payload = None, ar_payload_bytes = 0\<rparr>)]"

section \<open>Properties\<close>

text \<open>
  C18. The announce table refines a memory of the newest generation per site: after any
  sequence of recordings of non-null site ids, a lookup answers the generation recorded
  last for that site, or 0, the cautious answer, when the site found no slot within the
  probe bound; it never answers a stale generation or another site's.
\<close>

theorem announce_table_newest:
  assumes "list_all (\<lambda>(s, g). s \<noteq> 0) rs" and "sid \<noteq> 0"
  shows "fst (generationFor sid (foldl (\<lambda>t (s, g). recordSite s g t) newTable rs))
    \<in> {0, (case map_of (rev rs) sid of Some g \<Rightarrow> g | None \<Rightarrow> 0)}"
  using at.recall_newest [OF assms] by (simp only: remember_all_table)

theorem announce_table_newest_witness:
  "fst (generationFor 0x5000 (foldl (\<lambda>t (s, g). recordSite s g t) newTable [(0x5000, 3), (0x6000, 4), (0x5000, 9)])) \<in> {0, 9}"
  using announce_table_newest [of "[(0x5000, 3), (0x6000, 4), (0x5000, 9)]" "0x5000"] by simp

text \<open>
  C17. A plugin's messages are decodable.  Over any run of \<open>define_site\<close> and \<open>emit\<close> calls
  into a segment whose generation the table does not know yet, every Message the calls
  append is preceded in the thread's log by the SiteDefinition of its site: an emit for a
  site whose definition did not reach this segment is dropped and counted instead.
\<close>

theorem plugin_messages_announced:
  assumes "prod_inv ca (2 * length calls + k) P cs" and "list_all callOk calls"
    and "vouched (sg_generation (seg P)) t []"
  shows "\<exists>cs' rs d tr. outcome ca k P cs (fst (snd (abiRun ca clk i calls (p, P, t)))) cs' rs d tr \<and> wellAnnounced [] rs"
proof -
  obtain p' P' t' where r: "abiRun ca clk i calls (p, P, t) = (p', P', t')" by (metis prod_cases3)
  from abiRun_announced [OF assms r] show ?thesis unfolding r by auto
qed

theorem plugin_messages_announced_witness:
  "\<exists>cs' rs d tr. outcome (exampleCaller False) 0 (exampleProducer False 4096) []
      (fst (snd (abiRun (exampleCaller False) (\<lambda>_ _. 9) 0 exampleCalls
        (\<lparr>pc_active = 1, pc_detachedByFork = False, pc_unboundEmits = 0\<rparr>, exampleProducer False 4096, newTable)))) cs' rs d tr
    \<and> wellAnnounced [] rs"
proof (rule plugin_messages_announced)
  show "prod_inv (exampleCaller False) (2 * length exampleCalls + 0) (exampleProducer False 4096) []"
    by (rule exampleProducer_inv) (simp_all add: exampleCalls_def)
  show "list_all callOk exampleCalls" by (simp add: exampleCalls_def)
  show "vouched (sg_generation (seg (exampleProducer False 4096))) newTable []"
    by (rule newTable_vouched)
      (simp add: exampleProducer_def seg_def exampleSegment_def emptyLogger_def createInMemory_fits storageFits_def Let_def initialise_def case_prod_beta)
qed

end
