(* ===== verification/CatOptions.thy ===== *)
theory CatOptions
  imports Json
begin

text \<open>
  The command line and the text form of \<^verbatim>\<open>tools/sub0log_cat.cpp\<close>: options and their parser,
  severity names, and wall-clock text.  What the parser writes to the error stream is its
  result when it fails.  \<open>std::from_chars\<close> and \<open>gmtime_r\<close> are defined after the C and C++
  standards; \<open>std::size_t\<close> has 64 bits.
\<close>

section \<open>Options\<close>

datatype OutputFormat = Text | Jsonl

record Options =
  op_inputs :: "string list"
  op_minimum :: Severity
  op_subsystems :: "u32 list"
  op_correlation :: "u64 option"
  op_waitMs :: "u32 option"
  op_argUint :: "(u64 \<times> u64) option"
  op_maxInputBytes :: u64
  op_maxOutputBytes :: u64
  op_maxRecords :: u64
  op_maxFiles :: u64
  op_follow :: bool
  op_stats :: bool
  op_healthJson :: bool
  op_helpOnly :: bool
  op_format :: OutputFormat

definition defaultOptions :: Options where
  "defaultOptions = \<lparr>op_inputs = [], op_minimum = Trace, op_subsystems = [], op_correlation = None,
     op_waitMs = None, op_argUint = None, op_maxInputBytes = 128 * 1024 * 1024,
     op_maxOutputBytes = 64 * 1024 * 1024, op_maxRecords = 1000000, op_maxFiles = 1024, op_follow = False,
     op_stats = False, op_healthJson = False, op_helpOnly = False, op_format = Text\<rparr>"

definition severityName :: "Severity \<Rightarrow> string" where
  "severityName severity =
     (if severity = Trace then ''TRACE'' else if severity = Debug then ''DEBUG''
      else if severity = Info then ''INFO '' else if severity = Warning then ''WARN ''
      else if severity = Error then ''ERROR'' else if severity = Unclassified then ''UNCLS''
      else if severity = Fatal then ''FATAL'' else ''?????'')"

definition cSeverityTable :: "(string \<times> Severity) list" where
  "cSeverityTable = [(''trace'', Trace), (''debug'', Debug), (''info'', Info), (''warning'', Warning),
     (''warn'', Warning), (''error'', Error), (''unclassified'', Unclassified), (''fatal'', Fatal)]"

definition parseSeverity :: "string \<Rightarrow> Severity option" where
  "parseSeverity name = map_of cSeverityTable name"

text \<open>
  \<open>std::from_chars\<close> into an unsigned type takes the longest run of digits, no sign and no
  space, and fails on an empty run and on overflow; the whole text must be consumed.
\<close>

definition fromChars :: "nat \<Rightarrow> string \<Rightarrow> (nat \<times> string) option" where
  "fromChars bound text =
     (let digits = takeWhile isDigitChar text; n = charsToNat 10 digits
      in if digits = [] \<or> bound \<le> n then None else Some (n, dropWhile isDigitChar text))"

definition parseUnsigned :: "string \<Rightarrow> 'w::len word option" where
  "parseUnsigned text =
     (if text = [] then None
      else case fromChars (2 ^ LENGTH('w)) text of
             Some (n, []) \<Rightarrow> Some (word_of_nat n)
           | _ \<Rightarrow> None)"

text \<open>\<open>text.find(':')\<close> with both sides of the first colon, or nothing.\<close>

definition splitColon :: "string \<Rightarrow> (string \<times> string) option" where
  "splitColon text =
     (if CHR '':'' \<in> set text
      then Some (takeWhile (\<lambda>c. c \<noteq> CHR '':'') text, tl (dropWhile (\<lambda>c. c \<noteq> CHR '':'') text))
      else None)"

definition parsePredicate :: "string \<Rightarrow> (u64 \<times> u64) option" where
  "parsePredicate text =
     (case splitColon text of
        None \<Rightarrow> None
      | Some (left, right) \<Rightarrow>
        case parseUnsigned left of
          None \<Rightarrow> None
        | Some index \<Rightarrow> map_option (\<lambda>number. (index, number)) (parseUnsigned right))"

definition setLimit :: "string \<Rightarrow> u64 \<Rightarrow> Options \<Rightarrow> Options" where
  "setLimit argument limit opts =
     (if argument = ''--max-files'' then opts\<lparr>op_maxFiles := limit\<rparr>
      else if argument = ''--max-input-bytes'' then opts\<lparr>op_maxInputBytes := limit\<rparr>
      else if argument = ''--max-records'' then opts\<lparr>op_maxRecords := limit\<rparr>
      else opts\<lparr>op_maxOutputBytes := limit\<rparr>)"

definition needsValue :: "string \<Rightarrow> string" where
  "needsValue what = ''sub0log-cat: '' @ what @ '' needs a value''"

text \<open>
  One iteration of the parser at a value option: the words after it, with the error lines
  \<open>missing\<close> when there is none and \<open>parse\<close> reading the value otherwise.
\<close>

definition withValue ::
  "string \<Rightarrow> string list \<Rightarrow> (string \<Rightarrow> string list + Options) \<Rightarrow> string list \<Rightarrow> string list + Options \<times> string list" where
  "withValue what missing parse rest =
     (case rest of
        [] \<Rightarrow> Inl (needsValue what # missing)
      | value # rest' \<Rightarrow> (case parse value of Inl e \<Rightarrow> Inl e | Inr opts \<Rightarrow> Inr (opts, rest')))"

definition orElse :: "'a option \<Rightarrow> string \<Rightarrow> string list + 'a" where
  "orElse x message = (case x of None \<Rightarrow> Inl [''sub0log-cat: '' @ message] | Some y \<Rightarrow> Inr y)"

definition mapRight :: "('a \<Rightarrow> 'b) \<Rightarrow> 'e + 'a \<Rightarrow> 'e + 'b" where
  "mapRight f x = (case x of Inl e \<Rightarrow> Inl e | Inr y \<Rightarrow> Inr (f y))"

text \<open>The branches of the loop body in the order of the source.\<close>

definition parseOption :: "string \<Rightarrow> string list \<Rightarrow> Options \<Rightarrow> string list + Options \<times> string list" where
  "parseOption argument rest opts =
     (if argument = ''-f'' \<or> argument = ''--follow'' then Inr (opts\<lparr>op_follow := True\<rparr>, rest)
      else if argument = ''--health-json'' then Inr (opts\<lparr>op_healthJson := True\<rparr>, rest)
      else if argument = ''--stats'' then Inr (opts\<lparr>op_stats := True\<rparr>, rest)
      else if argument = ''--format'' then
        withValue ''--format'' []
          (\<lambda>value. if value = ''text'' then Inr (opts\<lparr>op_format := Text\<rparr>)
                   else if value = ''jsonl'' then Inr (opts\<lparr>op_format := Jsonl\<rparr>)
                   else Inl [''sub0log-cat: unknown format '' @ [CHR 0x27] @ value @ [CHR 0x27] @ '' (use text or jsonl)'']) rest
      else if argument = ''-l'' \<or> argument = ''--level'' then
        withValue ''--level'' [''sub0log-cat: unknown severity '' @ [CHR 0x27, CHR 0x27]]
          (\<lambda>value. mapRight (\<lambda>severity. opts\<lparr>op_minimum := severity\<rparr>)
             (orElse (parseSeverity value) (''unknown severity '' @ [CHR 0x27] @ value @ [CHR 0x27]))) rest
      else if argument = ''-s'' \<or> argument = ''--subsystem'' then
        withValue ''--subsystem'' []
          (\<lambda>value. mapRight (\<lambda>ident. opts\<lparr>op_subsystems := op_subsystems opts @ [ident]\<rparr>)
             (orElse (parseUnsigned value) ''invalid subsystem id'')) rest
      else if argument = ''-c'' \<or> argument = ''--correlation'' then
        withValue ''--correlation'' []
          (\<lambda>value. mapRight (\<lambda>ident. opts\<lparr>op_correlation := Some ident\<rparr>)
             (orElse (parseUnsigned value) ''invalid correlation id'')) rest
      else if argument = ''--wait-ms'' then
        withValue ''--wait-ms'' [''sub0log-cat: invalid wait duration'']
          (\<lambda>value. mapRight (\<lambda>duration. opts\<lparr>op_waitMs := Some duration, op_follow := True\<rparr>)
             (orElse (parseUnsigned value) ''invalid wait duration'')) rest
      else if argument = ''--arg-uint'' then
        withValue ''--arg-uint'' []
          (\<lambda>value. mapRight (\<lambda>predicate. opts\<lparr>op_argUint := Some predicate\<rparr>)
             (orElse (parsePredicate value) ''invalid unsigned argument predicate'')) rest
      else if argument \<in> {''--max-files'', ''--max-input-bytes'', ''--max-records'', ''--max-output-bytes''} then
        withValue argument [''sub0log-cat: invalid resource limit'']
          (\<lambda>value. mapRight (\<lambda>limit. setLimit argument limit opts)
             (orElse (case parseUnsigned value of Some limit \<Rightarrow> if limit = 0 then None else Some limit | None \<Rightarrow> None)
                ''invalid resource limit'')) rest
      else if argument \<noteq> [] \<and> hd argument = CHR ''-'' \<and> 1 < length argument
      then Inl [''sub0log-cat: unknown option '' @ [CHR 0x27] @ argument @ [CHR 0x27]]
      else Inr (opts\<lparr>op_inputs := op_inputs opts @ [argument]\<rparr>, rest))"

lemma parseOption_shorter: "parseOption argument rest opts = Inr (opts', rest') \<Longrightarrow> length rest' \<le> length rest"
  by (auto simp: parseOption_def withValue_def orElse_def mapRight_def Let_def
      split: if_splits list.splits sum.splits option.splits)

function parseLoop :: "string list \<Rightarrow> Options \<Rightarrow> string list + Options" where
  "parseLoop [] opts =
     (if op_inputs opts = [] then Inl [''sub0log-cat: no input given (try --help)''] else Inr opts)"
| "parseLoop (argument # rest) opts =
     (if argument = ''-h'' \<or> argument = ''--help'' then Inr (opts\<lparr>op_helpOnly := True\<rparr>)
      else case parseOption argument rest opts of
             Inl e \<Rightarrow> Inl e
           | Inr (opts', rest') \<Rightarrow> parseLoop rest' opts')"
  by pat_completeness auto
termination
  by (relation "measure (\<lambda>(args, opts). length args)") (auto dest: parseOption_shorter simp: le_imp_less_Suc)

definition parseArguments :: "string list \<Rightarrow> string list + Options" where
  "parseArguments argv = parseLoop (tl argv) defaultOptions"

section \<open>Wall-clock text\<close>

definition leapYear :: "nat \<Rightarrow> bool" where
  "leapYear y \<longleftrightarrow> 4 dvd y \<and> (\<not> 100 dvd y \<or> 400 dvd y)"

definition yearDays :: "nat \<Rightarrow> nat" where
  "yearDays y = (if leapYear y then 366 else 365)"

definition monthDays :: "nat \<Rightarrow> nat list" where
  "monthDays y = [31, if leapYear y then 29 else 28, 31, 30, 31, 30, 31, 31, 30, 31, 30, 31]"

function yearOfDay :: "nat \<Rightarrow> nat \<Rightarrow> nat \<times> nat" where
  "yearOfDay y d = (if d < yearDays y then (y, d) else yearOfDay (y + 1) (d - yearDays y))"
  by pat_completeness auto
termination
  by (relation "measure (\<lambda>(y, d). d)") (auto simp: yearDays_def split: if_splits)

declare yearOfDay.simps [simp del]

fun monthOfDay :: "nat \<Rightarrow> nat \<Rightarrow> nat list \<Rightarrow> nat \<times> nat" where
  "monthOfDay m d [] = (m, d)"
| "monthOfDay m d (n # ns) = (if d < n then (m, d) else monthOfDay (m + 1) (d - n) ns)"

record Tm =
  tm_year :: nat
  tm_mon :: nat
  tm_mday :: nat
  tm_hour :: nat
  tm_min :: nat
  tm_sec :: nat

text \<open>The year is the full one, the month and the day count from 1.\<close>

definition gmtime :: "nat \<Rightarrow> Tm" where
  "gmtime seconds =
     (let (y, yd) = yearOfDay 1970 (seconds div 86400);
          (m, md) = monthOfDay 1 yd (monthDays y);
          s = seconds mod 86400
      in \<lparr>tm_year = y, tm_mon = m, tm_mday = md + 1, tm_hour = s div 3600, tm_min = s mod 3600 div 60, tm_sec = s mod 60\<rparr>)"

text \<open>\<open>%0<w>d\<close> of a value that is not negative.\<close>

definition zeroPad :: "nat \<Rightarrow> nat \<Rightarrow> string" where
  "zeroPad width n = (let digits = natToChars 10 n in replicate (width - length digits) (CHR ''0'') @ digits)"

definition wallTimeText :: "u64 \<Rightarrow> string" where
  "wallTimeText ns =
     (let parts = gmtime (unat ns div 1000000000);
          nanos = unat ns mod 1000000000
      in zeroPad 4 (tm_year parts) @ ''-'' @ zeroPad 2 (tm_mon parts) @ ''-'' @ zeroPad 2 (tm_mday parts)
         @ ''T'' @ zeroPad 2 (tm_hour parts) @ '':'' @ zeroPad 2 (tm_min parts) @ '':'' @ zeroPad 2 (tm_sec parts)
         @ ''.'' @ zeroPad 9 nanos @ ''Z'')"

section \<open>Reading the text back\<close>

definition daysFromCivil :: "nat \<Rightarrow> nat \<Rightarrow> nat \<Rightarrow> nat" where
  "daysFromCivil y m d = (\<Sum>i = 1970..<y. yearDays i) + sum_list (take (m - 1) (monthDays y)) + (d - 1)"

definition field :: "nat \<Rightarrow> nat \<Rightarrow> string \<Rightarrow> nat" where
  "field off width text = charsToNat 10 (take width (drop off text))"

definition readWallTime :: "string \<Rightarrow> nat" where
  "readWallTime text =
     (daysFromCivil (field 0 4 text) (field 5 2 text) (field 8 2 text) * 86400 + field 11 2 text * 3600
      + field 14 2 text * 60 + field 17 2 text) * 1000000000 + field 20 9 text"

lemma yearOfDay_sound:
  assumes "yearOfDay y d = (y', d')"
  shows "y \<le> y' \<and> d' < yearDays y' \<and> d = (\<Sum>i = y..<y'. yearDays i) + d' \<and> 365 * (y' - y) \<le> d"
  using assms
proof (induction y d rule: yearOfDay.induct)
  case (1 y d)
  show ?case
  proof (cases "d < yearDays y")
    case False
    then have r: "yearOfDay (y + 1) (d - yearDays y) = (y', d')" using "1.prems" by (subst (asm) yearOfDay.simps) simp
    have "365 \<le> yearDays y" by (simp add: yearDays_def)
    with "1.IH" [OF False r] False show ?thesis by (auto simp: sum.atLeast_Suc_lessThan)
  qed (use "1.prems" in \<open>simp add: yearOfDay.simps\<close>)
qed

lemma monthOfDay_sound:
  assumes "monthOfDay m d ns = (m', d')" and "d < sum_list ns"
  shows "m \<le> m' \<and> m' - m < length ns \<and> d' < ns ! (m' - m) \<and> d = sum_list (take (m' - m) ns) + d'"
  using assms
proof (induction m d ns rule: monthOfDay.induct)
  case (2 m d n ns)
  show ?case
  proof (cases "d < n")
    case False
    with 2 have "m + 1 \<le> m' \<and> m' - (m + 1) < length ns \<and> d' < ns ! (m' - (m + 1))
        \<and> d - n = sum_list (take (m' - (m + 1)) ns) + d'" by auto
    moreover from this have "m' - m = Suc (m' - (m + 1))" by linarith
    ultimately show ?thesis using False by auto
  qed (use 2 in auto)
qed simp

lemma length_natToChars: "n < 10 ^ w \<Longrightarrow> 0 < w \<Longrightarrow> length (natToChars 10 n) \<le> w"
proof (induction w arbitrary: n)
  case (Suc w)
  show ?case
  proof (cases "n < 10")
    case True
    then show ?thesis by (subst natToChars.simps) simp
  next
    case False
    then have "0 < w" using Suc.prems by (cases w) auto
    moreover have "n div 10 < 10 ^ w" using Suc.prems by (simp add: less_mult_imp_div_less mult.commute)
    ultimately have "length (natToChars 10 (n div 10)) \<le> w" using Suc.IH by blast
    with False show ?thesis by (subst natToChars.simps) simp
  qed
qed simp

lemma length_zeroPad: "n < 10 ^ w \<Longrightarrow> 0 < w \<Longrightarrow> length (zeroPad w n) = w"
  using length_natToChars [of n w] by (simp add: zeroPad_def Let_def)

lemma charsToNat_zeroPad: "charsToNat 10 (zeroPad w n) = n"
proof -
  have z: "charsToNat 10 (replicate k (CHR ''0'') @ s) = charsToNat 10 s" for k s
    by (induction k) (simp_all add: charsToNat_def charDigit_def)
  show ?thesis by (simp add: zeroPad_def Let_def z charsToNat_natToChars)
qed

lemma gmtime_fields:
  assumes "gmtime s = t" and "s < 2 ^ 35"
  shows "tm_year t < 10000" "1 \<le> tm_mon t" "tm_mon t \<le> 12" "1 \<le> tm_mday t" "tm_mday t \<le> 31"
    and "tm_hour t < 24" "tm_min t < 60" "tm_sec t < 60"
    and "daysFromCivil (tm_year t) (tm_mon t) (tm_mday t) * 86400 + tm_hour t * 3600 + tm_min t * 60 + tm_sec t = s"
proof -
  obtain y yd where y: "yearOfDay 1970 (s div 86400) = (y, yd)" by fastforce
  obtain m md where m: "monthOfDay 1 yd (monthDays y) = (m, md)" by fastforce
  have t: "t = \<lparr>tm_year = y, tm_mon = m, tm_mday = md + 1, tm_hour = s mod 86400 div 3600,
      tm_min = s mod 86400 mod 3600 div 60, tm_sec = s mod 86400 mod 60\<rparr>"
    using assms(1) by (simp add: gmtime_def Let_def y m [simplified])
  note ys = yearOfDay_sound [OF y]
  have sum: "sum_list (monthDays y) = yearDays y" and len: "length (monthDays y) = 12"
    by (simp_all add: monthDays_def yearDays_def)
  have ms: "1 \<le> m \<and> m - 1 < length (monthDays y) \<and> md < monthDays y ! (m - 1)
      \<and> yd = sum_list (take (m - 1) (monthDays y)) + md"
    using monthOfDay_sound [OF m] ys sum by auto
  have "\<forall>n \<in> set (monthDays y). n \<le> 31" by (simp add: monthDays_def)
  then have "monthDays y ! (m - 1) \<le> 31" using ms by simp
  then have md: "md < 31" using ms by linarith
  have "s div 86400 \<le> 2 ^ 35 div 86400" using assms(2) by (intro div_le_mono) simp
  then have "s div 86400 < 400000" by simp
  then have "y < 10000" using ys by linarith
  then show "tm_year t < 10000" by (simp add: t)
  show "1 \<le> tm_mon t" "tm_mon t \<le> 12" "1 \<le> tm_mday t" "tm_mday t \<le> 31" using ms md len by (auto simp: t)
  have "s mod 86400 < 86400" by simp
  then show "tm_hour t < 24" by (simp add: t less_mult_imp_div_less)
  have "s mod 86400 mod 3600 < 3600" by simp
  then show "tm_min t < 60" by (simp add: t less_mult_imp_div_less)
  show "tm_sec t < 60" by (simp add: t)
  have d: "daysFromCivil y m (md + 1) = s div 86400" using ys ms by (simp add: daysFromCivil_def)
  have clock: "r div 3600 * 3600 + r mod 3600 div 60 * 60 + r mod 60 = r" for r :: nat
  proof -
    have "r mod 3600 mod 60 = r mod 60" by (simp add: mod_mod_cancel)
    then show ?thesis using div_mult_mod_eq [of r 3600] div_mult_mod_eq [of "r mod 3600" 60] by linarith
  qed
  have "s div 86400 * 86400 + s mod 86400 = s" by (rule div_mult_mod_eq)
  then show "daysFromCivil (tm_year t) (tm_mon t) (tm_mday t) * 86400 + tm_hour t * 3600 + tm_min t * 60 + tm_sec t = s"
    unfolding t Tm.simps d using clock [of "s mod 86400"] by linarith
qed

lemma wallTime_reads_back:
  "readWallTime (wallTimeText ns) = unat ns" "length (wallTimeText ns) = 30"
proof -
  let ?s = "unat ns div 1000000000" and ?n = "unat ns mod 1000000000"
  have "unat ns < 2 ^ 64" using unsigned_less [of ns] by simp
  then have "?s \<le> 2 ^ 64 div 1000000000" by (intro div_le_mono) simp
  then have s: "?s < 2 ^ 35" by simp
  note f = gmtime_fields [OF refl s]
  have n: "?n < 10 ^ 9" by simp
  let ?t = "gmtime ?s"
  have len: "length (zeroPad 4 (tm_year ?t)) = 4" "length (zeroPad 2 (tm_mon ?t)) = 2"
    "length (zeroPad 2 (tm_mday ?t)) = 2" "length (zeroPad 2 (tm_hour ?t)) = 2" "length (zeroPad 2 (tm_min ?t)) = 2"
    "length (zeroPad 2 (tm_sec ?t)) = 2" "length (zeroPad 9 ?n) = 9"
    using f n by (simp_all add: length_zeroPad)
  then show "length (wallTimeText ns) = 30" by (simp add: wallTimeText_def Let_def)
  have "field 0 4 (wallTimeText ns) = tm_year ?t" "field 5 2 (wallTimeText ns) = tm_mon ?t"
    "field 8 2 (wallTimeText ns) = tm_mday ?t" "field 11 2 (wallTimeText ns) = tm_hour ?t"
    "field 14 2 (wallTimeText ns) = tm_min ?t" "field 17 2 (wallTimeText ns) = tm_sec ?t"
    "field 20 9 (wallTimeText ns) = ?n"
    by (simp_all add: wallTimeText_def field_def Let_def len charsToNat_zeroPad)
  then show "readWallTime (wallTimeText ns) = unat ns" using f(9) by (simp add: readWallTime_def)
qed

end
