(* ===== verification/Cat.thy ===== *)
theory Cat
  imports CatOptions "HOL-Library.Sublist" "HOL-Library.Char_ord" "HOL-Library.List_Lexorder"
begin

text \<open>
  The run of \<^verbatim>\<open>tools/sub0log_cat.cpp\<close>: expanding the inputs, reading the files within the
  byte budget, merging, filtering and printing, once or again and again.  What one pass of
  the loop meets outside (directories, files, signals, clocks, whether a write succeeds) is
  a record of answers, and a run is over a list of them: when the list is used up the
  program is still following.  The standard output is the list of the lines written, the
  error stream the list of its messages.
\<close>

section \<open>Files\<close>

datatype DirAnswer = NotDirectory | CannotList | Entries "string list" | IterationFails "string list" string

datatype FileAnswer = CannotOpen | CannotSize | FileData bytes | CannotRead nat

record FsView =
  fv_directory :: "string \<Rightarrow> DirAnswer"
  fv_file :: "string \<Rightarrow> FileAnswer"

datatype CatError = BudgetError string | RuntimeError string

definition cSegmentExtension :: string where
  "cSegmentExtension = ''.s0l''"

text \<open>\<open>path::extension\<close>: from the last dot of the file name, unless the name starts with it.\<close>

definition fileName :: "string \<Rightarrow> string" where
  "fileName p = rev (takeWhile (\<lambda>c. c \<noteq> CHR ''/'') (rev p))"

definition extension :: "string \<Rightarrow> string" where
  "extension p =
     (let f = fileName p; r = takeWhile (\<lambda>c. c \<noteq> CHR ''.'') (rev f)
      in if f = ''..'' \<or> length f \<le> length r + 1 then [] else CHR ''.'' # rev r)"

text \<open>The order of \<open>std::filesystem::path\<close>: relative paths first, then element by element.\<close>

fun splitSlash :: "string \<Rightarrow> string list" where
  "splitSlash [] = [[]]"
| "splitSlash (c # p) =
     (case splitSlash p of
        [] \<Rightarrow> [[c]]
      | e # es \<Rightarrow> if c = CHR ''/'' then [] # e # es else (c # e) # es)"

definition pathElements :: "string \<Rightarrow> string list" where
  "pathElements p =
     (let es = splitSlash p; fs = filter (\<lambda>e. e \<noteq> []) es
      in if fs \<noteq> [] \<and> last es = [] then fs @ [[]] else fs)"

definition pathKey :: "string \<Rightarrow> bool \<times> string list" where
  "pathKey p = (p \<noteq> [] \<and> hd p = CHR ''/'', pathElements p)"

fun collectEntries :: "u64 \<Rightarrow> string list \<Rightarrow> string list \<Rightarrow> CatError + string list" where
  "collectEntries maxFiles [] paths = Inr paths"
| "collectEntries maxFiles (entry # entries) paths =
     (if extension entry = cSegmentExtension then
        if unat maxFiles \<le> length paths then Inl (BudgetError ''file budget exceeded'')
        else collectEntries maxFiles entries (paths @ [entry])
      else collectEntries maxFiles entries paths)"

definition collectInput :: "FsView \<Rightarrow> u64 \<Rightarrow> string \<Rightarrow> string list \<Rightarrow> CatError + string list" where
  "collectInput view maxFiles input paths =
     (case fv_directory view input of
        CannotList \<Rightarrow> Inl (RuntimeError (''cannot list '' @ input))
      | Entries entries \<Rightarrow> collectEntries maxFiles entries paths
      | IterationFails entries what \<Rightarrow>
          (case collectEntries maxFiles entries paths of Inl e \<Rightarrow> Inl e | Inr _ \<Rightarrow> Inl (RuntimeError what))
      | NotDirectory \<Rightarrow>
          if unat maxFiles \<le> length paths then Inl (BudgetError ''file budget exceeded'')
          else Inr (paths @ [input]))"

fun collectInputs :: "FsView \<Rightarrow> u64 \<Rightarrow> string list \<Rightarrow> string list \<Rightarrow> CatError + string list" where
  "collectInputs view maxFiles [] paths = Inr paths"
| "collectInputs view maxFiles (input # inputs) paths =
     (case collectInput view maxFiles input paths of
        Inl e \<Rightarrow> Inl e
      | Inr paths' \<Rightarrow> collectInputs view maxFiles inputs paths')"

definition collectSegments :: "FsView \<Rightarrow> Options \<Rightarrow> CatError + string list" where
  "collectSegments view opts =
     mapRight (sort_key pathKey) (collectInputs view (op_maxFiles opts) (op_inputs opts) [])"

text \<open>Reading one file against what is left of the budget; a stream size has 63 bits.\<close>

definition overBudget :: "nat \<Rightarrow> u64 \<Rightarrow> bool" where
  "overBudget size' left = (unat left < size' \<or> 2 ^ 64 - 1 < size' \<or> 2 ^ 63 - 1 < size')"

definition slurp :: "string \<Rightarrow> FileAnswer \<Rightarrow> u64 \<Rightarrow> (CatError + bytes) \<times> u64" where
  "slurp path answer left =
     (case answer of
        CannotOpen \<Rightarrow> (Inl (RuntimeError (''cannot open '' @ path)), left)
      | CannotSize \<Rightarrow> (Inl (RuntimeError (''cannot size '' @ path)), left)
      | FileData bs \<Rightarrow>
          if overBudget (length bs) left then (Inl (BudgetError ''input byte budget exceeded''), left)
          else (Inr bs, left - word_of_nat (length bs))
      | CannotRead len \<Rightarrow>
          if overBudget len left then (Inl (BudgetError ''input byte budget exceeded''), left)
          else (if len = 0 then Inr [] else Inl (RuntimeError (''cannot read '' @ path)), left - word_of_nat len))"

section \<open>Records\<close>

definition inOptional :: "'a option \<Rightarrow> 'a \<Rightarrow> bool" where
  "inOptional x y = (case x of None \<Rightarrow> True | Some z \<Rightarrow> y = z)"

definition argMatches :: "DecodedSite \<Rightarrow> DecodedRecord \<Rightarrow> u64 \<times> u64 \<Rightarrow> bool" where
  "argMatches site rec p =
     (case p of (index, value) \<Rightarrow>
        if length (dr_args rec) \<le> unat index then False
        else if ds_argTypes site ! unat index \<notin> {TcU8, TcU16, TcU32, TcU64} then False
        else case dr_args rec ! unat index of DUint actual \<Rightarrow> actual = value | _ \<Rightarrow> False)"

definition wanted :: "Options \<Rightarrow> DecodedRecord \<Rightarrow> bool" where
  "wanted opts rec =
     (case dr_site rec of
        None \<Rightarrow> False
      | Some site \<Rightarrow>
        if \<not> atLeast (ds_severity site) (op_minimum opts) then False
        else if \<not> inOptional (op_correlation opts) (dr_correlationId rec) then False
        else if op_subsystems opts \<noteq> [] \<and> ds_subsystem site \<notin> set (op_subsystems opts) then False
        else case op_argUint opts of None \<Rightarrow> True | Some p \<Rightarrow> argMatches site rec p)"

text \<open>The names and labels of the subsystems are asked of the merger once per id and pass.\<close>

record Labels =
  lb_names :: "u32 \<rightharpoonup> bytes"
  lb_labels :: "u32 \<rightharpoonup> bytes"

definition noLabels :: Labels where
  "noLabels = \<lparr>lb_names = Map.empty, lb_labels = Map.empty\<rparr>"

definition nameFor :: "Merger \<Rightarrow> u32 \<Rightarrow> Labels \<Rightarrow> bytes \<times> Labels" where
  "nameFor m subsystem c =
     (case lb_names c subsystem of
        Some name \<Rightarrow> (name, c)
      | None \<Rightarrow> let name = mergedSubsystemName m subsystem
                in (name, c\<lparr>lb_names := (lb_names c)(subsystem \<mapsto> name)\<rparr>))"

definition labelText :: "bytes \<Rightarrow> u32 \<Rightarrow> bytes" where
  "labelText name subsystem =
     (let number = decimal (unat subsystem)
      in if name \<noteq> [] then name @ bytesOfString ''('' @ number @ bytesOfString '')'' else number)"

definition labelFor :: "Merger \<Rightarrow> u32 \<Rightarrow> Labels \<Rightarrow> bytes \<times> Labels" where
  "labelFor m subsystem c =
     (case lb_labels c subsystem of
        Some label \<Rightarrow> (label, c)
      | None \<Rightarrow> let (name, c') = nameFor m subsystem c; label = labelText name subsystem
                in (label, c'\<lparr>lb_labels := (lb_labels c')(subsystem \<mapsto> label)\<rparr>))"

text \<open>How doubles print: the general form of the JSON arguments and the shortest form of messages.\<close>

record Shows =
  sh_general :: "u64 \<Rightarrow> bytes"
  sh_shortest :: "u64 \<Rightarrow> bytes"

definition textLine :: "Shows \<Rightarrow> MergedRecord \<Rightarrow> DecodedSite \<Rightarrow> bytes \<Rightarrow> bytes" where
  "textLine sh entry site label =
     bytesOfString (wallTimeText (mr_alignedNs entry)) @ bytesOfString ''  pid='' @ decimal (unat (mr_processId entry))
     @ bytesOfString '' tid='' @ decimal (unat (dr_ownerThread (mr_record entry))) @ bytesOfString ''  ''
     @ bytesOfString (severityName (ds_severity site)) @ bytesOfString ''  '' @ label @ bytesOfString ''  ''
     @ formatRecord (sh_shortest sh) (mr_record entry)
     @ (if dr_truncated (mr_record entry) then bytesOfString '' [truncated]'' else [])"

definition lineFor ::
  "Shows \<Rightarrow> Options \<Rightarrow> Merger \<Rightarrow> MergedRecord \<Rightarrow> DecodedSite \<Rightarrow> Labels \<Rightarrow> JsonError + bytes \<times> Labels" where
  "lineFor sh opts m entry site c =
     (case op_format opts of
        Jsonl \<Rightarrow>
          let (name, c') = nameFor m (ds_subsystem site) c
          in mapRight (\<lambda>line. (line, c')) (formatJson (sh_general sh) (sh_shortest sh) entry name)
      | Text \<Rightarrow>
          let (label, c') = labelFor m (ds_subsystem site) c
          in Inr (textLine sh entry site label, c'))"

section \<open>The passes\<close>

record Health =
  hl_scans :: u64
  hl_records :: u64
  hl_emitted :: u64
  hl_inputErrorSeen :: bool
  hl_totals :: Totals

definition newHealth :: Health where
  "newHealth = \<lparr>hl_scans = 0, hl_records = 0, hl_emitted = 0, hl_inputErrorSeen = False,
     hl_totals = mg_totals newMerger\<rparr>"

type_synonym cursor = "u64 \<times> u64 \<times> nat"

record CatState =
  ct_seen :: "cursor list"
  ct_opened :: bool
  ct_outputBytes :: u64
  ct_stdout :: "bytes list"
  ct_stderr :: "string list"
  ct_health :: Health

definition newState :: CatState where
  "newState = \<lparr>ct_seen = [], ct_opened = False, ct_outputBytes = 0, ct_stdout = [], ct_stderr = [],
     ct_health = newHealth\<rparr>"

definition complain :: "string \<Rightarrow> CatState \<Rightarrow> CatState" where
  "complain message st = st\<lparr>ct_stderr := ct_stderr st @ [''sub0log-cat: '' @ message]\<rparr>"

record LoadState =
  ls_merger :: Merger
  ls_remaining :: u64
  ls_scanError :: bool

definition loadPath :: "FsView \<Rightarrow> string \<Rightarrow> LoadState \<times> CatState \<Rightarrow> CatError option \<times> LoadState \<times> CatState" where
  "loadPath view path s =
     (case s of (ls, st) \<Rightarrow>
        case slurp path (fv_file view path) (ls_remaining ls) of
          (Inl (BudgetError e), left) \<Rightarrow> (Some (BudgetError e), ls\<lparr>ls_remaining := left\<rparr>, st)
        | (Inl (RuntimeError e), left) \<Rightarrow>
            (None, ls\<lparr>ls_remaining := left, ls_scanError := True\<rparr>, complain e st)
        | (Inr img, left) \<Rightarrow>
            (case addSegment img (ls_merger ls) of (error, m) \<Rightarrow>
               if error \<noteq> Ok
               then (None, ls\<lparr>ls_merger := m, ls_remaining := left, ls_scanError := True\<rparr>,
                     complain (path @ '' is not a readable segment'') st)
               else (None, ls\<lparr>ls_merger := m, ls_remaining := left\<rparr>, st\<lparr>ct_opened := True\<rparr>)))"

fun loadPaths :: "FsView \<Rightarrow> string list \<Rightarrow> LoadState \<times> CatState \<Rightarrow> CatError option \<times> LoadState \<times> CatState" where
  "loadPaths view [] s = (None, s)"
| "loadPaths view (path # paths) s =
     (case loadPath view path s of
        (Some e, s') \<Rightarrow> (Some e, s')
      | (None, s') \<Rightarrow> loadPaths view paths s')"

text \<open>
  What one pass meets outside: the signal pending at its start and before entry \<open>i\<close>, the
  clock there and at its end, whether the write of entry \<open>i\<close> and the flushes succeed.
\<close>

record Pass =
  pa_cancelled :: nat
  pa_view :: FsView
  pa_cancelledAt :: "nat \<Rightarrow> nat"
  pa_nowAt :: "nat \<Rightarrow> nat"
  pa_writes :: "nat \<Rightarrow> bool"
  pa_flushes :: bool
  pa_nowEnd :: nat
  pa_finalFlush :: bool

datatype EntriesResult = Finished bool | Returned nat | Thrown CatError

definition cursorOf :: "MergedRecord \<Rightarrow> cursor" where
  "cursorOf entry = (mr_processId entry, dr_segmentGeneration (mr_record entry), dr_recordOffset (mr_record entry))"

definition deadlineHit :: "Options \<Rightarrow> nat \<Rightarrow> nat \<Rightarrow> bool" where
  "deadlineHit opts deadline now =
     (case op_waitMs opts of None \<Rightarrow> False | Some ms \<Rightarrow> ms \<noteq> 0 \<and> deadline \<le> now)"

text \<open>
  Formatting, budgeting and writing one wanted entry.  A merged entry always formats (Json), so
  the message of the exception stands for any.  The length of a string is below
  \<open>2\<^sup>6\<^sup>4\<close>, so it is compared as it is.
\<close>

definition printEntry ::
  "Shows \<Rightarrow> Options \<Rightarrow> Merger \<Rightarrow> bool \<Rightarrow> MergedRecord \<Rightarrow> Labels \<Rightarrow> CatState
    \<Rightarrow> (EntriesResult + Labels) \<times> CatState" where
  "printEntry sh opts m written entry c st =
     (case dr_site (mr_record entry) of
        None \<Rightarrow> (Inr c, st)
      | Some site \<Rightarrow>
        case lineFor sh opts m entry site c of
          Inl e \<Rightarrow> (Inl (Thrown (RuntimeError ''formatJson'')), st)
        | Inr (text, c') \<Rightarrow>
          let line = text @ [10]
          in if unat (op_maxOutputBytes opts - ct_outputBytes st) < length line
             then (Inl (Thrown (BudgetError ''output byte budget exceeded'')), st)
             else
               let st1 = st\<lparr>ct_outputBytes := ct_outputBytes st + word_of_nat (length line)\<rparr>
               in if \<not> written then (Inl (Returned 1), complain ''failed to write text/JSONL output'' st1)
                  else (Inr c', st1\<lparr>ct_stdout := ct_stdout st1 @ [line],
                          ct_health := (ct_health st1)\<lparr>hl_emitted := hl_emitted (ct_health st1) + 1\<rparr>\<rparr>))"

fun printEntries ::
  "Shows \<Rightarrow> Options \<Rightarrow> Merger \<Rightarrow> nat \<Rightarrow> Pass \<Rightarrow> nat \<Rightarrow> MergedRecord list \<Rightarrow> bool \<Rightarrow> Labels \<Rightarrow> CatState
    \<Rightarrow> EntriesResult \<times> CatState" where
  "printEntries sh opts m deadline a i [] matched c st = (Finished matched, st)"
| "printEntries sh opts m deadline a i (entry # entries) matched c st =
     (if pa_cancelledAt a i \<noteq> 0 then (Returned (128 + pa_cancelledAt a i), st)
      else if deadlineHit opts deadline (pa_nowAt a i)
      then (Returned 3, complain ''wait deadline reached without a match'' st)
      else if op_follow opts \<and> cursorOf entry \<in> set (ct_seen st)
      then printEntries sh opts m deadline a (i + 1) entries matched c st
      else if op_follow opts \<and> unat (op_maxRecords opts) \<le> length (ct_seen st)
      then (Thrown (BudgetError ''cursor record budget exceeded''), st)
      else
        let st1 = (if op_follow opts then st\<lparr>ct_seen := cursorOf entry # ct_seen st\<rparr> else st)
        in if \<not> wanted opts (mr_record entry) then printEntries sh opts m deadline a (i + 1) entries matched c st1
           else case printEntry sh opts m (pa_writes a i) entry c st1 of
                  (Inl r, st2) \<Rightarrow> (r, st2)
                | (Inr c', st2) \<Rightarrow>
                    if op_waitMs opts \<noteq> None then (Finished True, st2)
                    else printEntries sh opts m deadline a (i + 1) entries True c' st2)"

definition statsLine :: "MergedRecord list \<Rightarrow> Totals \<Rightarrow> string" where
  "statsLine entries t =
     ''-- '' @ natToChars 10 (length entries) @ '' record(s); unreadable '' @ natToChars 10 (tt_unreadableBytes t)
     @ '' byte(s), unwritten '' @ natToChars 10 (tt_unwrittenBytes t) @ '' byte(s), undecodable ''
     @ natToChars 10 (tt_undecodableRecords t) @ '' record(s)''"

datatype PassResult = Again | Done | Exits nat | Fails CatError

text \<open>From the merged entries to the end of the pass.\<close>

definition showPass ::
  "Shows \<Rightarrow> Options \<Rightarrow> nat \<Rightarrow> Pass \<Rightarrow> Merger \<Rightarrow> bool \<Rightarrow> CatState \<Rightarrow> PassResult \<times> CatState" where
  "showPass sh opts deadline a merger scanError st =
     (let (entries, m) = merged merger;
          totals = mg_totals m
      in if unat (op_maxRecords opts) < length entries then (Fails (BudgetError ''decoded record budget exceeded''), st)
         else
           let h = ct_health st;
               st1 = st\<lparr>ct_health := h\<lparr>hl_scans := hl_scans h + 1, hl_records := word_of_nat (length entries),
                       hl_totals := totals, hl_inputErrorSeen := hl_inputErrorSeen h \<or> scanError\<rparr>\<rparr>
           in if op_waitMs opts \<noteq> None \<and> (scanError \<or> tt_unreadableBytes totals \<noteq> 0 \<or> tt_undecodableRecords totals \<noteq> 0)
              then (Exits 1, complain ''wait input is incomplete or unreadable'' st1)
              else case printEntries sh opts m deadline a 0 entries False noLabels st1 of
                     (Returned s, st2) \<Rightarrow> (Exits s, st2)
                   | (Thrown e, st2) \<Rightarrow> (Fails e, st2)
                   | (Finished matched, st2) \<Rightarrow>
                     if \<not> pa_flushes a then (Exits 1, complain ''failed to flush text/JSONL output'' st2)
                     else if \<not> op_follow opts \<or> (op_waitMs opts \<noteq> None \<and> matched)
                     then (Done, if op_stats opts then st2\<lparr>ct_stderr := ct_stderr st2 @ [statsLine entries totals]\<rparr> else st2)
                     else if op_waitMs opts \<noteq> None \<and> deadline \<le> pa_nowEnd a
                     then (Exits 3, complain ''wait deadline reached without a match'' st2)
                     else (Again, st2))"

definition startLoad :: "Options \<Rightarrow> LoadState" where
  "startLoad opts = \<lparr>ls_merger = newMerger, ls_remaining = op_maxInputBytes opts, ls_scanError = False\<rparr>"

definition runPass :: "Shows \<Rightarrow> Options \<Rightarrow> nat \<Rightarrow> Pass \<Rightarrow> CatState \<Rightarrow> PassResult \<times> CatState" where
  "runPass sh opts deadline a st =
     (if pa_cancelled a \<noteq> 0 then (Exits (128 + pa_cancelled a), st)
      else case collectSegments (pa_view a) opts of
             Inl e \<Rightarrow> (Fails e, st)
           | Inr paths \<Rightarrow>
             case loadPaths (pa_view a) paths (startLoad opts, st) of
               (Some e, ls, st1) \<Rightarrow> (Fails e, st1)
             | (None, ls, st1) \<Rightarrow> showPass sh opts deadline a (ls_merger ls) (ls_scanError ls) st1)"

text \<open>\<open>None\<close>: still following after the given passes.\<close>

fun runPasses :: "Shows \<Rightarrow> Options \<Rightarrow> nat \<Rightarrow> Pass list \<Rightarrow> CatState \<Rightarrow> nat option \<times> CatState" where
  "runPasses sh opts deadline [] st = (None, st)"
| "runPasses sh opts deadline (a # as) st =
     (case runPass sh opts deadline a st of
        (Again, st1) \<Rightarrow> runPasses sh opts deadline as st1
      | (Exits s, st1) \<Rightarrow> (Some s, st1)
      | (Fails (BudgetError e), st1) \<Rightarrow> (Some 4, complain e st1)
      | (Fails (RuntimeError e), st1) \<Rightarrow> (Some 1, complain e st1)
      | (Done, st1) \<Rightarrow>
          if \<not> ct_opened st1 then (Some 1, complain ''nothing readable in the given path(s)'' st1)
          else if op_format opts = Jsonl \<and> \<not> pa_finalFlush a then (Some 1, complain ''failed to flush JSONL output'' st1)
          else (Some 0, st1))"

text \<open>The clock counts nanoseconds.\<close>

definition runCat :: "Shows \<Rightarrow> Options \<Rightarrow> nat \<Rightarrow> Pass list \<Rightarrow> nat option \<times> CatState" where
  "runCat sh opts start as =
     runPasses sh opts (start + (case op_waitMs opts of None \<Rightarrow> 0 | Some ms \<Rightarrow> unat ms) * 1000000) as newState"

section \<open>The program\<close>

text \<open>The counts are those of the last complete pass, and null before it.\<close>

definition healthCount :: "Health \<Rightarrow> nat \<Rightarrow> string" where
  "healthCount h n = (if hl_scans h = 0 then ''null'' else [CHR 0x22] @ natToChars 10 n @ [CHR 0x22])"

definition healthLine :: "nat \<Rightarrow> Health \<Rightarrow> string" where
  \<open>healthLine status h =
     ''{"schema":1,"kind":"health","exit_code":'' @ natToChars 10 status
     @ '',"scans":"'' @ natToChars 10 (unat (hl_scans h))
     @ ''","records":'' @ healthCount h (unat (hl_records h))
     @ '',"unreadable_bytes":'' @ healthCount h (tt_unreadableBytes (hl_totals h))
     @ '',"unwritten_bytes":'' @ healthCount h (tt_unwrittenBytes (hl_totals h))
     @ '',"undecodable_records":'' @ healthCount h (tt_undecodableRecords (hl_totals h))
     @ '',"skipped_records":'' @ healthCount h (tt_skippedRecords (hl_totals h))
     @ '',"emitted_records":"'' @ natToChars 10 (unat (hl_emitted h))
     @ ''","input_error_seen":'' @ (if hl_inputErrorSeen h then ''true'' else ''false'')
     @ '',"producer_dropped_records":null}''\<close>

text \<open>
  The exit status with what was written to both streams; the text of \<open>--help\<close> is an
  argument.  A status above 255 does not arise: signals are small.
\<close>

definition mainCat ::
  "Shows \<Rightarrow> bytes \<Rightarrow> string list \<Rightarrow> nat \<Rightarrow> Pass list \<Rightarrow> nat option \<times> bytes list \<times> string list" where
  "mainCat sh usage argv start as =
     (case parseArguments argv of
        Inl errors \<Rightarrow> (Some 2, [], errors)
      | Inr opts \<Rightarrow>
        if op_helpOnly opts then (Some 0, [usage], [])
        else case runCat sh opts start as of
               (None, st) \<Rightarrow> (None, ct_stdout st, ct_stderr st)
             | (Some status, st) \<Rightarrow>
                 (Some status, ct_stdout st,
                  ct_stderr st @ (if op_healthJson opts then [healthLine status (ct_health st)] else [])))"

section \<open>Loading\<close>

definition fileImage :: "FsView \<Rightarrow> string \<Rightarrow> bytes list" where
  "fileImage view path = (case fv_file view path of FileData bs \<Rightarrow> [bs] | _ \<Rightarrow> [])"

text \<open>Loading touches only the error stream and the mark that a segment opened.\<close>

definition keeps :: "CatState \<Rightarrow> CatState \<Rightarrow> bool" where
  "keeps st st' \<longleftrightarrow> ct_seen st' = ct_seen st \<and> ct_outputBytes st' = ct_outputBytes st \<and> ct_stdout st' = ct_stdout st
     \<and> ct_health st' = ct_health st"

lemma keeps_simps [simp]:
  "keeps st st" "keeps st (complain e st') = keeps st st'" "keeps st (st'\<lparr>ct_opened := b\<rparr>) = keeps st st'"
  by (simp_all add: keeps_def complain_def)

lemma addSegment_refused: "fst (addSegment img m) \<noteq> Ok \<Longrightarrow> snd (addSegment img m) = m"
  by (auto simp: addSegment_def Let_def split: if_splits prod.splits)

lemma addSegment_empty: "snd (addSegment [] m) = m"
  by (rule addSegment_refused) (simp add: addSegment_def Let_def openSegment_def cSegmentHeaderSize_def)

lemma loadPath_step:
  assumes "loadPath view path (ls, st) = (r, ls', st')"
  shows "keeps st st'"
    and "r = None \<Longrightarrow> ls_merger ls' = foldl (\<lambda>m img. snd (addSegment img m)) (ls_merger ls) (fileImage view path)"
    and "r = None \<Longrightarrow> sum_list (map length (fileImage view path)) + unat (ls_remaining ls') \<le> unat (ls_remaining ls)"
proof -
  have sub: "n + unat (left - word_of_nat n) = unat left" if "\<not> overBudget n left" for left :: u64 and n
  proof -
    have "unat (word_of_nat n :: u64) = n"
      using that unsigned_less [of left] by (simp add: overBudget_def unsigned_of_nat take_bit_nat_eq_self)
    with that show ?thesis by (simp add: overBudget_def unat_sub word_le_nat_alt)
  qed
  then have le: "unat (left - word_of_nat n) \<le> unat left" if "\<not> overBudget n left" for left :: u64 and n
    using that by (metis le_add2)
  show "keeps st st'" using assms
    by (auto simp: loadPath_def split: prod.splits sum.splits CatError.splits if_splits)
  show "r = None \<Longrightarrow> ls_merger ls' = foldl (\<lambda>m img. snd (addSegment img m)) (ls_merger ls) (fileImage view path)"
    using assms addSegment_empty [of "ls_merger ls"]
    by (auto simp: loadPath_def slurp_def fileImage_def split: prod.splits sum.splits CatError.splits if_splits FileAnswer.splits)
  show "r = None \<Longrightarrow> sum_list (map length (fileImage view path)) + unat (ls_remaining ls') \<le> unat (ls_remaining ls)"
    using assms
    by (auto simp: loadPath_def sub le slurp_def fileImage_def split: prod.splits sum.splits CatError.splits if_splits FileAnswer.splits)
qed

lemma keeps_trans: "keeps st st' \<Longrightarrow> keeps st' st'' \<Longrightarrow> keeps st st''"
  by (simp add: keeps_def)

lemma loadPaths_loads:
  assumes "loadPaths view paths (ls, st) = (r, ls', st')"
  shows "keeps st st' \<and> (r = None \<longrightarrow>
      ls_merger ls' = foldl (\<lambda>m img. snd (addSegment img m)) (ls_merger ls) (concat (map (fileImage view) paths))
      \<and> sum_list (map length (concat (map (fileImage view) paths))) + unat (ls_remaining ls') \<le> unat (ls_remaining ls))"
  using assms
proof (induction paths arbitrary: ls st)
  case (Cons path paths)
  obtain r1 ls1 st1 where p: "loadPath view path (ls, st) = (r1, ls1, st1)" by (metis prod_cases3)
  note step = loadPath_step [OF p]
  show ?case
  proof (cases r1)
    case None
    then have "loadPaths view paths (ls1, st1) = (r, ls', st')" using Cons.prems p by simp
    from Cons.IH [OF this] step None show ?thesis by (auto intro: keeps_trans)
  qed (use Cons.prems p step in auto)
qed simp

section \<open>What a run prints\<close>

text \<open>The segments of one pass, and its entries with the merger that names their subsystems.\<close>

definition passImages :: "Options \<Rightarrow> Pass \<Rightarrow> bytes list" where
  "passImages opts a =
     (case collectSegments (pa_view a) opts of
        Inl e \<Rightarrow> []
      | Inr paths \<Rightarrow> concat (map (fileImage (pa_view a)) paths))"

definition passEntries :: "Options \<Rightarrow> Pass \<Rightarrow> (Merger \<times> MergedRecord) list" where
  "passEntries opts a = (case merged (mergerOf (passImages opts a)) of (entries, m) \<Rightarrow> map (Pair m) entries)"

text \<open>The entries that are new to the cursor, and the cursor after them.\<close>

fun fresh :: "bool \<Rightarrow> cursor list \<Rightarrow> (Merger \<times> MergedRecord) list \<Rightarrow> (Merger \<times> MergedRecord) list" where
  "fresh follow seen [] = []"
| "fresh follow seen (e # es) =
     (if follow \<and> cursorOf (snd e) \<in> set seen then fresh follow seen es
      else e # fresh follow (if follow then cursorOf (snd e) # seen else seen) es)"

fun seenAfter :: "bool \<Rightarrow> cursor list \<Rightarrow> (Merger \<times> MergedRecord) list \<Rightarrow> cursor list" where
  "seenAfter follow seen [] = seen"
| "seenAfter follow seen (e # es) =
     (if follow \<and> cursorOf (snd e) \<notin> set seen then seenAfter follow (cursorOf (snd e) # seen) es
      else seenAfter follow seen es)"

definition refLine :: "Shows \<Rightarrow> Options \<Rightarrow> Merger \<times> MergedRecord \<Rightarrow> bytes" where
  "refLine sh opts e =
     (case e of (m, entry) \<Rightarrow>
        case dr_site (mr_record entry) of
          None \<Rightarrow> []
        | Some site \<Rightarrow>
          let name = mergedSubsystemName m (ds_subsystem site)
          in (case op_format opts of
                Jsonl \<Rightarrow> (case formatJson (sh_general sh) (sh_shortest sh) entry name of Inl e \<Rightarrow> [] | Inr json \<Rightarrow> json)
              | Text \<Rightarrow> textLine sh entry site (labelText name (ds_subsystem site))) @ [10])"

definition printed :: "Shows \<Rightarrow> Options \<Rightarrow> cursor list \<Rightarrow> (Merger \<times> MergedRecord) list \<Rightarrow> bytes list" where
  "printed sh opts seen es =
     map (refLine sh opts) (filter (\<lambda>e. wanted opts (mr_record (snd e))) (fresh (op_follow opts) seen es))"

lemma fresh_append: "fresh follow seen (xs @ ys) = fresh follow seen xs @ fresh follow (seenAfter follow seen xs) ys"
  by (induction follow seen xs rule: fresh.induct) auto

lemma seenAfter_append: "seenAfter follow seen (xs @ ys) = seenAfter follow (seenAfter follow seen xs) ys"
  by (induction follow seen xs rule: seenAfter.induct) auto

lemma printed_append:
  "printed sh opts seen (xs @ ys) = printed sh opts seen xs @ printed sh opts (seenAfter (op_follow opts) seen xs) ys"
  by (simp add: printed_def fresh_append)

text \<open>The caches hold what the merger answers.\<close>

definition labelsOk :: "Merger \<Rightarrow> Labels \<Rightarrow> bool" where
  "labelsOk m c \<longleftrightarrow> (\<forall>s n. lb_names c s = Some n \<longrightarrow> n = mergedSubsystemName m s)
     \<and> (\<forall>s l. lb_labels c s = Some l \<longrightarrow> l = labelText (mergedSubsystemName m s) s)"

lemma nameFor_ok: "labelsOk m c \<Longrightarrow> nameFor m s c = (n, c') \<Longrightarrow> n = mergedSubsystemName m s \<and> labelsOk m c'"
  by (auto simp: nameFor_def labelsOk_def Let_def split: option.splits if_splits)

lemma labelFor_ok:
  assumes "labelsOk m c" and "labelFor m s c = (l, c')"
  shows "l = labelText (mergedSubsystemName m s) s \<and> labelsOk m c'"
proof (cases "lb_labels c s")
  case None
  obtain n c1 where n: "nameFor m s c = (n, c1)" by fastforce
  from nameFor_ok [OF assms(1) n] assms(2) None show ?thesis
    by (auto simp: labelFor_def n labelsOk_def Let_def split: if_splits)
next
  case (Some x)
  then show ?thesis using assms by (auto simp: labelFor_def labelsOk_def)
qed

lemma lineFor_ok:
  assumes "labelsOk m c" and "lineFor sh opts m entry site c = Inr (text, c')"
    and "dr_site (mr_record entry) = Some site"
  shows "text @ [10] = refLine sh opts (m, entry) \<and> labelsOk m c'"
proof (cases "op_format opts")
  case Text
  obtain l c1 where l: "labelFor m (ds_subsystem site) c = (l, c1)" by fastforce
  from labelFor_ok [OF assms(1) l] assms(2,3) Text show ?thesis
    by (simp add: lineFor_def l refLine_def Let_def)
next
  case Jsonl
  obtain n c1 where n: "nameFor m (ds_subsystem site) c = (n, c1)" by fastforce
  from nameFor_ok [OF assms(1) n] assms(2,3) Jsonl show ?thesis
    by (auto simp: lineFor_def n refLine_def Let_def mapRight_def split: sum.splits)
qed

lemma wanted_site: "wanted opts rec \<Longrightarrow> \<exists>site. dr_site rec = Some site"
  by (auto simp: wanted_def split: option.splits)

lemma printEntry_ok:
  assumes "printEntry sh opts m w entry c st = (r, st')" and "labelsOk m c" and "wanted opts (mr_record entry)"
  shows "(case r of
      Inl r' \<Rightarrow> ct_stdout st' = ct_stdout st \<and> (\<forall>b. r' \<noteq> Finished b)
    | Inr c' \<Rightarrow> ct_stdout st' = ct_stdout st @ [refLine sh opts (m, entry)] \<and> labelsOk m c')
    \<and> ct_seen st' = ct_seen st"
proof -
  obtain site where s: "dr_site (mr_record entry) = Some site" using wanted_site [OF assms(3)] by blast
  show ?thesis
  proof (cases "lineFor sh opts m entry site c")
    case (Inr tc)
    obtain t c' where tc: "tc = (t, c')" by fastforce
    from lineFor_ok [OF assms(2) Inr [unfolded tc] s] assms(1) show ?thesis
      by (auto simp: printEntry_def s Inr tc Let_def complain_def split: if_splits)
  qed (use assms(1) in \<open>auto simp: printEntry_def s\<close>)
qed

lemma printed_Cons:
  "printed sh opts seen (e # es) =
     (if op_follow opts \<and> cursorOf (snd e) \<in> set seen then printed sh opts seen es
      else (if wanted opts (mr_record (snd e)) then [refLine sh opts e] else [])
           @ printed sh opts (if op_follow opts then cursorOf (snd e) # seen else seen) es)"
  by (simp add: printed_def)

text \<open>
  From \<open>st\<close> to \<open>st'\<close> the lines of the first of the entries \<open>es\<close> are printed, of all of them
  when \<open>complete\<close>.
\<close>

definition prints ::
  "Shows \<Rightarrow> Options \<Rightarrow> CatState \<Rightarrow> (Merger \<times> MergedRecord) list \<Rightarrow> CatState \<Rightarrow> bool \<Rightarrow> bool" where
  "prints sh opts st es st' complete \<longleftrightarrow>
     (\<exists>xs. ct_stdout st' = ct_stdout st @ xs \<and> prefix xs (printed sh opts (ct_seen st) es)
        \<and> (complete \<longrightarrow> xs = printed sh opts (ct_seen st) es \<and> ct_seen st' = seenAfter (op_follow opts) (ct_seen st) es))"

lemma prints_none: "ct_stdout st' = ct_stdout st \<Longrightarrow> \<not> complete \<Longrightarrow> prints sh opts st es st' complete"
  by (simp add: prints_def)

lemma prints_nothing: "prints sh opts st [] st complete"
  by (simp add: prints_def printed_def)

lemma prints_partial: "prints sh opts st es st' complete \<Longrightarrow> prints sh opts st es st' False"
  by (auto simp: prints_def)

lemma prints_other:
  assumes "ct_stdout st = ct_stdout st1" "ct_seen st = ct_seen st1" "ct_stdout st' = ct_stdout st1'" "ct_seen st' = ct_seen st1'"
  shows "prints sh opts st es st' complete = prints sh opts st1 es st1' complete"
  using assms by (simp add: prints_def)

lemma prints_append:
  assumes "prints sh opts st xs st' True" and "prints sh opts st' ys st'' complete"
  shows "prints sh opts st (xs @ ys) st'' complete"
  using assms by (auto simp: prints_def printed_append seenAfter_append)

lemma prints_more: "prints sh opts st xs st' False \<Longrightarrow> prints sh opts st (xs @ ys) st' False"
  by (auto simp: prints_def printed_append)

lemma printEntries_prints:
  assumes "printEntries sh opts m deadline a i entries matched c st = (r, st')" and "labelsOk m c"
    and "op_waitMs opts \<noteq> None \<longrightarrow> \<not> matched"
  shows "prints sh opts st (map (Pair m) entries) st' (\<exists>b. r = Finished b \<and> (op_waitMs opts = None \<or> \<not> b))"
  using assms
proof (induction entries arbitrary: i matched c st)
  case Nil
  then show ?case by (auto simp: prints_nothing)
next
  case (Cons e es)
  let ?st1 = "if op_follow opts then st\<lparr>ct_seen := cursorOf e # ct_seen st\<rparr> else st"
  let ?complete = "\<exists>b. r = Finished b \<and> (op_waitMs opts = None \<or> \<not> b)"
  consider (stop) "ct_stdout st' = ct_stdout st" "\<not> ?complete"
    | (seen) "op_follow opts" "cursorOf e \<in> set (ct_seen st)"
        "printEntries sh opts m deadline a (i + 1) es matched c st = (r, st')"
    | (unwanted) "\<not> (op_follow opts \<and> cursorOf e \<in> set (ct_seen st))" "\<not> wanted opts (mr_record e)"
        "printEntries sh opts m deadline a (i + 1) es matched c ?st1 = (r, st')"
    | (print) r1 st2 where "\<not> (op_follow opts \<and> cursorOf e \<in> set (ct_seen st))" "wanted opts (mr_record e)"
        "printEntry sh opts m (pa_writes a i) e c ?st1 = (r1, st2)"
        "(case r1 of Inl r' \<Rightarrow> (r', st2)
          | Inr c' \<Rightarrow> if op_waitMs opts \<noteq> None then (Finished True, st2)
                      else printEntries sh opts m deadline a (i + 1) es True c' st2) = (r, st')"
    using Cons.prems(1)
    by (cases "printEntry sh opts m (pa_writes a i) e c ?st1")
      (auto simp: Let_def complain_def split: if_splits sum.splits)
  then show ?case
  proof cases
    case stop
    then show ?thesis by (rule prints_none)
  next
    case seen
    from Cons.IH [OF seen(3) Cons.prems(2,3)] seen(1,2) show ?thesis by (auto simp: prints_def printed_Cons)
  next
    case unwanted
    from Cons.IH [OF unwanted(3) Cons.prems(2,3)] unwanted(1,2) show ?thesis
      by (auto simp: prints_def printed_Cons split: if_splits)
  next
    case print
    note p = printEntry_ok [OF print(3) Cons.prems(2) print(2)]
    show ?thesis
    proof (cases r1)
      case (Inl r')
      with p print(4) show ?thesis by (intro prints_none) (auto split: if_splits)
    next
      case (Inr c')
      have line: "ct_stdout st2 = ct_stdout st @ [refLine sh opts (m, e)]" "ct_seen st2 = ct_seen ?st1" "labelsOk m c'"
        using p Inr by (auto split: if_splits)
      show ?thesis
      proof (cases "op_waitMs opts = None")
        case True
        then have "printEntries sh opts m deadline a (i + 1) es True c' st2 = (r, st')" using print(4) Inr by simp
        from Cons.IH [OF this line(3)] True line(1,2) print(1,2) show ?thesis
          by (auto simp: prints_def printed_Cons split: if_splits)
      next
        case False
        then have "r = Finished True" "st' = st2" using print(4) Inr by simp_all
        with False line(1,2) print(1,2) show ?thesis by (auto simp: prints_def printed_Cons)
      qed
    qed
  qed
qed

lemma showPass_prints:
  assumes "showPass sh opts deadline a merger scanError st = (r, st')" and "merged merger = (entries, m)"
  shows "prints sh opts st (map (Pair m) entries) st' (r = Again \<or> r = Done \<and> op_waitMs opts = None)"
    and "r = Done \<Longrightarrow> \<not> op_follow opts \<or> op_waitMs opts \<noteq> None" and "r = Again \<Longrightarrow> op_follow opts" and "r \<noteq> Exits 0"
proof -
  let ?h = "ct_health st"
  let ?st1 = "st\<lparr>ct_health := ?h\<lparr>hl_scans := hl_scans ?h + 1, hl_records := word_of_nat (length entries),
      hl_totals := mg_totals m, hl_inputErrorSeen := hl_inputErrorSeen ?h \<or> scanError\<rparr>\<rparr>"
  obtain r1 st2 where p: "printEntries sh opts m deadline a 0 entries False noLabels ?st1 = (r1, st2)" by fastforce
  have "labelsOk m noLabels" by (simp add: labelsOk_def noLabels_def)
  from printEntries_prints [OF p this] have "prints sh opts ?st1 (map (Pair m) entries) st2
      (\<exists>b. r1 = Finished b \<and> (op_waitMs opts = None \<or> \<not> b))" by simp
  then have pr: "prints sh opts st (map (Pair m) entries) st2 (\<exists>b. r1 = Finished b \<and> (op_waitMs opts = None \<or> \<not> b))"
    by (subst prints_other [of _ ?st1]) simp_all
  have pos: "r1 \<noteq> Returned 0"
  proof -
    have "fst (printEntries sh opts m deadline a i es b c s) \<noteq> Returned 0" for i es b c s
      by (induction es arbitrary: i b c s)
        (auto simp: Let_def printEntry_def split: prod.splits sum.splits if_splits option.splits)
    then show ?thesis using p by (metis fst_conv)
  qed
  show "prints sh opts st (map (Pair m) entries) st' (r = Again \<or> r = Done \<and> op_waitMs opts = None)"
    using assms(1) pr
    by (auto simp: showPass_def assms(2) p Let_def complain_def prints_def split: if_splits EntriesResult.splits)
  show "r = Done \<Longrightarrow> \<not> op_follow opts \<or> op_waitMs opts \<noteq> None" "r = Again \<Longrightarrow> op_follow opts"
    using assms(1) by (auto simp: showPass_def assms(2) p Let_def split: if_splits EntriesResult.splits)
  show "r \<noteq> Exits 0"
    using assms(1) pos by (auto simp: showPass_def assms(2) p Let_def split: if_splits EntriesResult.splits)
qed

lemma runPass_prints:
  assumes "runPass sh opts deadline a st = (r, st')"
  shows "prints sh opts st (passEntries opts a) st' (r = Again \<or> r = Done \<and> op_waitMs opts = None)"
    and "r = Done \<Longrightarrow> \<not> op_follow opts \<or> op_waitMs opts \<noteq> None" and "r = Again \<Longrightarrow> op_follow opts" and "r \<noteq> Exits 0"
proof -
  consider (out) "ct_stdout st' = ct_stdout st" "r \<noteq> Again" "r \<noteq> Done" "r \<noteq> Exits 0"
    | (show') paths ls st1 where "collectSegments (pa_view a) opts = Inr paths"
        "loadPaths (pa_view a) paths (startLoad opts, st) = (None, ls, st1)"
        "showPass sh opts deadline a (ls_merger ls) (ls_scanError ls) st1 = (r, st')"
  proof (cases "collectSegments (pa_view a) opts")
    case (Inr paths)
    obtain e ls st1 where l: "loadPaths (pa_view a) paths (startLoad opts, st) = (e, ls, st1)" by (metis prod_cases3)
    from loadPaths_loads [OF l] have "ct_stdout st1 = ct_stdout st" by (simp add: keeps_def)
    with assms Inr l that show ?thesis
      by (auto simp: runPass_def split: if_splits option.splits)
  qed (use assms that in \<open>auto simp: runPass_def split: if_splits\<close>)
  then have "prints sh opts st (passEntries opts a) st' (r = Again \<or> r = Done \<and> op_waitMs opts = None)
      \<and> (r = Done \<longrightarrow> \<not> op_follow opts \<or> op_waitMs opts \<noteq> None) \<and> (r = Again \<longrightarrow> op_follow opts) \<and> r \<noteq> Exits 0"
  proof cases
    case out
    then show ?thesis by (simp add: prints_none)
  next
    case show'
    obtain entries m where e: "merged (ls_merger ls) = (entries, m)" by fastforce
    note l = loadPaths_loads [OF show'(2)]
    have "ls_merger ls = mergerOf (passImages opts a)"
      using l by (simp add: mergerOf_def passImages_def show'(1) startLoad_def)
    then have pe: "passEntries opts a = map (Pair m) entries" using e by (simp add: passEntries_def)
    have "ct_stdout st1 = ct_stdout st" "ct_seen st1 = ct_seen st" using l by (simp_all add: keeps_def)
    with showPass_prints [OF show'(3) e] show ?thesis unfolding pe by (auto simp: prints_def)
  qed
  then show "prints sh opts st (passEntries opts a) st' (r = Again \<or> r = Done \<and> op_waitMs opts = None)"
    and "r = Done \<Longrightarrow> \<not> op_follow opts \<or> op_waitMs opts \<noteq> None" and "r = Again \<Longrightarrow> op_follow opts" and "r \<noteq> Exits 0"
    by blast+
qed

definition shownEntries :: "Options \<Rightarrow> Pass list \<Rightarrow> (Merger \<times> MergedRecord) list" where
  "shownEntries opts as = concat (map (passEntries opts) (if op_follow opts then as else take 1 as))"

lemma complain_keeps: "ct_stdout (complain e st) = ct_stdout st" "ct_seen (complain e st) = ct_seen st"
  by (simp_all add: complain_def)

lemma runPasses_prints:
  assumes "runPasses sh opts deadline as st = (status, st')"
  shows "prints sh opts st (shownEntries opts as) st' (status = None \<or> status = Some 0 \<and> op_waitMs opts = None)"
  using assms
proof (induction as arbitrary: st)
  case Nil
  then show ?case by (simp add: shownEntries_def prints_nothing)
next
  case (Cons a as)
  obtain r st1 where r: "runPass sh opts deadline a st = (r, st1)" by fastforce
  note p = runPass_prints [OF r]
  show ?case
  proof (cases "r = Again")
    case True
    then have follow: "op_follow opts" using p by blast
    have "runPasses sh opts deadline as st1 = (status, st')" using Cons.prems r True by simp
    from prints_append [OF _ Cons.IH [OF this]] p(1) True follow show ?thesis by (simp add: shownEntries_def)
  next
    case False
    then have ended: "prints sh opts st (passEntries opts a) st' (status = None \<or> status = Some 0 \<and> op_waitMs opts = None)"
      "status \<noteq> None" "status = Some 0 \<Longrightarrow> \<not> op_follow opts \<or> op_waitMs opts \<noteq> None"
      using Cons.prems p r
      by (auto simp: complain_keeps prints_def split: PassResult.splits CatError.splits if_splits)
    show ?thesis
    proof (cases "op_follow opts")
      case True
      then have no: "(status = None \<or> status = Some 0 \<and> op_waitMs opts = None) = False" using ended by auto
      from prints_more [OF ended(1) [unfolded no]] True show ?thesis unfolding no by (simp add: shownEntries_def)
    qed (use ended(1) in \<open>simp add: shownEntries_def\<close>)
  qed
qed

lemma fresh_once:
  "distinct (map (cursorOf \<circ> snd) (fresh True seen es))
   \<and> (cursorOf \<circ> snd) ` set (fresh True seen es) = (cursorOf \<circ> snd) ` set es - set seen \<and> subseq (fresh True seen es) es"
  by (induction es arbitrary: seen) auto

section \<open>Budgets\<close>

text \<open>
  What was written fits what was accounted, which fits the limit, and the cursor has
  distinct entries within its capacity.
\<close>

definition withinBudget :: "Options \<Rightarrow> CatState \<Rightarrow> bool" where
  "withinBudget opts st \<longleftrightarrow>
     sum_list (map length (ct_stdout st)) \<le> unat (ct_outputBytes st) \<and> ct_outputBytes st \<le> op_maxOutputBytes opts
     \<and> distinct (ct_seen st) \<and> length (ct_seen st) \<le> unat (op_maxRecords opts)
     \<and> hl_emitted (ct_health st) = word_of_nat (length (ct_stdout st))"

lemma withinBudget_cong:
  "ct_stdout st' = ct_stdout st \<Longrightarrow> ct_outputBytes st' = ct_outputBytes st \<Longrightarrow> ct_seen st' = ct_seen st
    \<Longrightarrow> hl_emitted (ct_health st') = hl_emitted (ct_health st) \<Longrightarrow> withinBudget opts st' = withinBudget opts st"
  by (simp add: withinBudget_def)

lemma withinBudget_complain [simp]: "withinBudget opts (complain e st) = withinBudget opts st"
  by (rule withinBudget_cong) (simp_all add: complain_def)

lemma printEntry_budget:
  assumes "printEntry sh opts m w entry c st = (r, st')" and "withinBudget opts st"
  shows "withinBudget opts st'"
proof -
  have grow: "unat (ct_outputBytes st + word_of_nat n) = unat (ct_outputBytes st) + n
      \<and> ct_outputBytes st + word_of_nat n \<le> op_maxOutputBytes opts"
    if "n \<le> unat (op_maxOutputBytes opts - ct_outputBytes st)" for n
  proof -
    have le: "ct_outputBytes st \<le> op_maxOutputBytes opts" using assms(2) by (simp add: withinBudget_def)
    then have n: "n \<le> unat (op_maxOutputBytes opts) - unat (ct_outputBytes st)" using that by (simp add: unat_sub)
    have top: "unat (op_maxOutputBytes opts) < 2 ^ 64" using unsigned_less [of "op_maxOutputBytes opts"] by simp
    with n have "n < 2 ^ 64" by linarith
    then have "unat (word_of_nat n :: u64) = n" by (simp add: unsigned_of_nat take_bit_nat_eq_self)
    moreover have "unat (ct_outputBytes st) + n < 2 ^ 64"
      using n le top unfolding word_le_nat_alt by linarith
    ultimately have "unat (ct_outputBytes st + word_of_nat n) = unat (ct_outputBytes st) + n"
      by (simp add: unat_add_lem [THEN iffD1])
    with n le show ?thesis by (simp add: word_le_nat_alt)
  qed
  have line: "unat (ct_outputBytes st + (1 + word_of_nat n)) = unat (ct_outputBytes st) + Suc n
      \<and> ct_outputBytes st + (1 + word_of_nat n) \<le> op_maxOutputBytes opts"
    if "\<not> unat (op_maxOutputBytes opts - ct_outputBytes st) < Suc n" for n
    using grow [of "Suc n"] that by simp
  show ?thesis using assms
    by (auto simp: line printEntry_def Let_def withinBudget_def complain_def split: option.splits sum.splits if_splits)
qed

lemma printEntries_budget:
  "printEntries sh opts m deadline a i entries matched c st = (r, st') \<Longrightarrow> withinBudget opts st \<Longrightarrow> withinBudget opts st'"
proof (induction entries arbitrary: i matched c st)
  case (Cons e es)
  let ?st1 = "if op_follow opts then st\<lparr>ct_seen := cursorOf e # ct_seen st\<rparr> else st"
  obtain r1 st2 where p: "printEntry sh opts m (pa_writes a i) e c ?st1 = (r1, st2)" by fastforce
  have "withinBudget opts ?st1"
    if "\<not> (op_follow opts \<and> cursorOf e \<in> set (ct_seen st))" "\<not> (op_follow opts \<and> unat (op_maxRecords opts) \<le> length (ct_seen st))"
    using Cons.prems(2) that by (auto simp: withinBudget_def)
  with Cons p printEntry_budget [OF p] show ?case
    by (auto simp: Let_def split: if_splits sum.splits)
qed simp

lemma runPass_budget: "runPass sh opts deadline a st = (r, st') \<Longrightarrow> withinBudget opts st \<Longrightarrow> withinBudget opts st'"
proof -
  assume r: "runPass sh opts deadline a st = (r, st')" and b: "withinBudget opts st"
  have load: "withinBudget opts st1" if "loadPaths v ps (ls0, st) = (e, ls, st1)" for v ps ls0 e ls st1
    using loadPaths_loads [OF that] b by (auto simp: keeps_def cong: withinBudget_cong)
  have show': "withinBudget opts st2" if "showPass sh opts deadline a m err st1 = (r, st2)" "withinBudget opts st1" for m err st1 r st2
  proof -
    obtain entries m' where m: "merged m = (entries, m')" by fastforce
    let ?h = "ct_health st1"
    let ?s = "st1\<lparr>ct_health := ?h\<lparr>hl_scans := hl_scans ?h + 1, hl_records := word_of_nat (length entries),
        hl_totals := mg_totals m', hl_inputErrorSeen := hl_inputErrorSeen ?h \<or> err\<rparr>\<rparr>"
    have s: "withinBudget opts ?s" using that(2) by (simp add: withinBudget_def)
    obtain r3 st3 where p: "printEntries sh opts m' deadline a 0 entries False noLabels ?s = (r3, st3)" by fastforce
    have c: "withinBudget opts (st\<lparr>ct_stderr := x\<rparr>) = withinBudget opts st" for st x by (simp add: withinBudget_def)
    from that s printEntries_budget [OF p s] show ?thesis
      by (auto simp: showPass_def m Let_def p c split: if_splits EntriesResult.splits)
  qed
  show ?thesis using r b load show'
    by (auto simp: runPass_def split: if_splits sum.splits prod.splits option.splits)
qed

lemma runPasses_budget: "runPasses sh opts deadline as st = (s, st') \<Longrightarrow> withinBudget opts st \<Longrightarrow> withinBudget opts st'"
proof (induction as arbitrary: st)
  case (Cons a as)
  obtain r st1 where r: "runPass sh opts deadline a st = (r, st1)" by fastforce
  with Cons runPass_budget [OF r] show ?case
    by (auto split: PassResult.splits CatError.splits if_splits)
qed simp

section \<open>Properties\<close>

text \<open>
  C39. The printer shows what the segments hold.  Over any sequence of passes, whatever
  fails in them, the lines written are the first lines of the expected output: the wanted
  ones of the merged entries of all passes (of the one pass, without following), each
  formatted from its own record, a record that an earlier pass has shown not shown again.
  Nothing is missing as long as the program is still following or exits with 0 (and was
  not asked to stop at the first match).  Following, the entries considered are one per
  record identity: no identity twice and none left out.
\<close>

theorem cat_shows_records:
  "let (status, st) = runCat sh opts start as; expected = printed sh opts [] (shownEntries opts as)
   in prefix (ct_stdout st) expected
      \<and> (if op_waitMs opts = None \<and> status \<in> {None, Some 0} then ct_stdout st = expected else True)
      \<and> distinct (map (cursorOf \<circ> snd) (fresh True [] es))
      \<and> (cursorOf \<circ> snd) ` set (fresh True [] es) = (cursorOf \<circ> snd) ` set es"
proof -
  obtain status st where r: "runCat sh opts start as = (status, st)" by fastforce
  from runPasses_prints [OF r [unfolded runCat_def]] fresh_once [of "[]" es] show ?thesis
    by (auto simp: r prints_def newState_def)
qed

text \<open>
  C40. The limits hold in every run: the bytes written never pass the output limit (the
  64-bit account neither wraps nor lags behind), the cursor holds distinct identities and
  at most its capacity, and the health count of emitted records is the number of lines.
\<close>

theorem cat_within_budget: "withinBudget opts (snd (runCat sh opts start as))"
proof -
  have "withinBudget opts newState" by (simp add: withinBudget_def newState_def newHealth_def)
  with runPasses_budget show ?thesis unfolding runCat_def by (metis prod.collapse)
qed

end
