(* ===== verification/Spec2Isabelle.thy ===== *)
theory Spec2Isabelle
  imports Crash Fork Rotation Json WindowsChild AbiHost Cat
begin

text \<open>
  Sub0Log: a verification development.

  Sub0Log is a C++ logging library whose producers write binary records into a
  memory-mapped segment and whose readers decode segments afterwards, also those of a
  killed process.  The sources are under \<^verbatim>\<open>include/sub0log\<close>, \<^verbatim>\<open>tools\<close> and \<^verbatim>\<open>examples\<close>.  A producer asks
  its Logger for the calling thread's chunk writer, reserves room, writes a payload and
  publishes it with one head word; a thread's chunks are claimed from the segment by a
  shared cursor.  A reader opens an image, walks its chunks record by record, collects site
  and subsystem definitions in one pass and decodes messages in a second; a merger puts
  several segments on one timeline, and a command line tool prints it.

  \<^bold>\<open>Theories, in the order of the code.\<close>

  \<^item> \<open>Prelude\<close>: bytes and little-endian words, \<open>load\<close> and \<open>store\<close> over a byte list, alignment,
    numbers as text.
  \<^item> \<open>Wire\<close> (\<^verbatim>\<open>wire.hpp\<close>): constants, enumerations, the 64-bit head word, the header and
    payload structures with their layouts, size classes and CRC-32.  The head word codec,
    the CRC against bitwise division, the chunk checksum's reaction to a changed byte.
  \<^item> \<open>Atomics\<close> (\<^verbatim>\<open>detail/atomics.hpp\<close>): publication of a head word as a sequence of stores on
    the 64-bit and on the split path, chunk claims as a function and as a step relation of
    interleaved compare-exchange loops, saturating counters.
  \<^item> \<open>Chunk\<close> (\<^verbatim>\<open>chunk.hpp\<close>): \<open>reserve\<close> and \<open>commit\<close>; \<open>writes w bs rs\<close> relates a writer and the
    bytes to the list of records committed so far, which appends refine.
  \<^item> \<open>Reader\<close> (\<^verbatim>\<open>reader.hpp\<close>, class \<open>SegmentReader\<close>): \<open>openSegment\<close> and \<open>visit\<close> on arbitrary
    images.  Bounds, accounting, what survives a crash, chains all or nothing.
  \<^item> \<open>Platform\<close>, \<open>FileMapping\<close> (\<^verbatim>\<open>detail/platform.hpp\<close>): errors, the generation mix, and the
    mapped file on POSIX with the descriptors and mappings it owns.
  \<^item> \<open>Windows\<close> (\<^verbatim>\<open>detail/platform.hpp\<close>): wide paths, the mapped file over handles and views,
    what a custom port leaves, and the arithmetic of the clocks.  Here the segment is put on
    top of either mapping: ready and within its invariant, or invalid with an error.
  \<^item> \<open>Segment\<close> (\<^verbatim>\<open>segment.hpp\<close>): creation and chunk claims; \<open>seg_inv\<close> relates the image to the
    list of chunk logs.  Read-back, exclusive claims, termination of the reader's loop.
  \<^item> \<open>Context\<close> (\<^verbatim>\<open>context.hpp\<close>, \<^verbatim>\<open>severity.hpp\<close>, \<^verbatim>\<open>site.hpp\<close>) and \<open>Encode\<close> (\<^verbatim>\<open>encode.hpp\<close>):
    correlation ids and scopes, severities, sites, argument sizing and encoding.
  \<^item> \<open>Instance\<close> (\<^verbatim>\<open>instance.hpp\<close>): the Logger with thresholds, counters and the per-thread
    writer cache; \<open>prod_inv\<close> is the invariant of a thread at its Logger, \<open>outcome\<close> the
    contract every write keeps: what was appended to the thread's log, what was counted.
  \<^item> \<open>Emit\<close> (\<^verbatim>\<open>detail/emit.hpp\<close>): site definitions, plain and continued messages.
  \<^item> \<open>Decoder\<close> (\<^verbatim>\<open>reader.hpp\<close>, class \<open>Decoder\<close>): both passes, joined continuations, typed
    arguments, message text.
  \<^item> \<open>Trace\<close>: producer and reader composed, for one thread's runs of emits and for declared
    names.
  \<^item> \<open>Threads\<close> (\<^verbatim>\<open>log.hpp\<close>): the logging macro called by several threads on one Logger, in
    any interleaving of calls, and what the image decodes to.
  \<^item> \<open>Fork\<close> (\<^verbatim>\<open>instance.hpp\<close>, \<open>registerForkHandlerOnce\<close> and \<open>detachForFork\<close>): the handler
    a Logger registers, and that a forked child writes nothing until it makes its own.
  \<^item> \<open>Crash\<close>: the writes of calls in progress as a step relation \<open>torn\<close> on images, the stores
    of a claim and of a message as such steps, and what a decoder makes of an image left by
    a process killed between any two stores.
  \<^item> \<open>Headroom\<close>, \<open>Rotation\<close> (\<^verbatim>\<open>examples/13_rotation.cpp\<close>): two unclaimed chunks are enough for
    any emit that fits, so a session that replaces its Logger in time drops nothing and its
    files decode to all its events.
  \<^item> \<open>Merge\<close> (\<^verbatim>\<open>merge.hpp\<close>) and \<open>Json\<close> (\<^verbatim>\<open>json.hpp\<close>): the stable merge and its JSON form.
  \<^item> \<open>CommandLine\<close>, \<open>Child\<close> (\<^verbatim>\<open>child.hpp\<close>): quoting for Windows, line capture, child records,
    \<open>wait\<close>, and \<open>spawn\<close> with every failure it handles; \<open>WindowsChild\<close> holds the Windows arm
    of \<open>spawn\<close>, \<open>wait\<close> and the capture loop, which is the POSIX loop on the same answers.
  \<^item> \<open>AbiHost\<close> (\<^verbatim>\<open>abi_host.hpp\<close>, \<^verbatim>\<open>sub0log_abi.h\<close>): the announce table and the entry points
    a plugin calls.
  \<^item> \<open>CatOptions\<close>, \<open>Cat\<close> (\<^verbatim>\<open>tools/sub0log_cat.cpp\<close>): the command line, wall-clock text, and
    the printing loop with its budgets, filters and cursor.

  \<^bold>\<open>How the code is modelled.\<close>  Structures are records, enumerations datatypes, integers
  words of their width; a size that cannot overflow because it is bounded by an object in
  memory is a natural number.  Memory is the segment's byte list, so pointers into it are
  offsets.  Member functions take and return the object; \<open>thread_local\<close> state and the
  identity of the calling thread are the record \<open>Caller\<close> and the cache in \<open>Producer\<close>.
  Exceptions and error codes are values of sum or option types.  What the code asks of its
  environment (clocks, process and thread ids, file contents, system calls, the shortest
  text of a floating-point number) is an argument, so the theorems hold for every answer.

  \<^bold>\<open>Loops.\<close>  Loops over lists are structural; the others have a termination proof.  The
  reader's chunk loop is also given with fuel, and one iteration per 33 bytes of the image
  is shown to be enough.  The capture loop and \<open>wait\<close> read a list of answers of the
  operating system and have no result when it ends early; the printer's passes likewise.

  \<^bold>\<open>Interfaces.\<close>  \<open>strict_weak_order\<close> states what a comparison promises to the stable sort and
  is interpreted for the Merger's comparison; \<open>announce_memory\<close> states what the announce
  table promises to the emit path of a plugin and is interpreted for the table;
  \<open>file_mapping\<close> states what a mapped file promises to the segment (owned resources, the
  content it starts with) and is interpreted for the POSIX and for the Windows mapping.

  \<^bold>\<open>Not modelled.\<close>  The C++ memory model beyond the order of stores that publication relies
  on; which handles beyond the standard ones a Windows child inherits; \<^verbatim>\<open>version.hpp\<close>, which
  holds constants; the other examples, tests and benchmarks.  Process and thread identity, ticks and
  other answers of system calls are arguments, as a custom port supplies them too.
\<close>

section \<open>Properties\<close>

text \<open>
  C1. What several threads log is what a reader decodes.  Take a bound Logger whose segment
  holds no chunk yet, call sites at distinct addresses not announced to this segment, and
  any interleaving of calls of the logging macro by any number of threads.  Opening the
  segment's image and decoding it yields, for every thread and in its order, one record for
  each call that the threshold in force lets through and that was not dropped, with the
  site's identity, severity and source line, the time stamp, the correlation, and every
  argument byte up to the ceiling (flagged when an argument went past it, or when no chunk
  takes its chain), although a site is defined only once, by whichever thread came first.
  No record is undecodable or skipped, and the drop counter grew by exactly the number of
  calls that are missing.
\<close>

theorem threads_decode_roundtrip:
  assumes "sites_ok sites types" and "\<forall>c \<in> set calls. em_ok types (snd c)" and "world_inv ca (4 * length calls) w []"
    and "wd_sites w = sites" and "pc_active (wd_process w) \<noteq> 0"
    and "\<forall>site \<in> set sites. sd_announcedKey site \<noteq> announceKey (ca_split ca) (lg_segment (wd_logger w))"
    and "runThreads ca calls w = w'"
    and "decodeAll newDecoder (openSegment (sg_bytes (lg_segment (wd_logger w')))) = (recs, dec)"
  shows "\<exists>kept. subseq kept (filter (passes (wd_logger w) sites) calls)
    \<and> (\<forall>u. list_all2 (logged sites types (thread ca u) (producer w u)) (map snd (filter (\<lambda>c. fst c = u) kept))
             (filter (\<lambda>r. dr_ownerThread r = u) recs))
    \<and> lg_dropped (wd_logger w') = (counterIncrement (ca_split ca)
         ^^ (length (filter (passes (wd_logger w) sites) calls) - length kept)) (lg_dropped (wd_logger w))
    \<and> dc_undecodable dec = 0 \<and> dc_skipped dec = 0"
  using assms by (rule threads_decode)

definition exampleWorld :: World where
  "exampleWorld = \<lparr>wd_logger = pr_logger (exampleProducer False 448),
     wd_process = \<lparr>pc_active = 1, pc_detachedByFork = False, pc_unboundEmits = 0\<rparr>,
     wd_sites = [exampleSite], wd_caches = (\<lambda>t. emptyCache)\<rparr>"

definition exampleThreads :: "call list" where
  "exampleThreads = [(3, \<lparr>em_clock = (\<lambda>i. 9), em_scoped = 0, em_site = 0, em_args = [AU32 7]\<rparr>),
     (4, \<lparr>em_clock = (\<lambda>i. 10), em_scoped = 5, em_site = 0, em_args = [AU32 8]\<rparr>)]"

lemma exampleWorld_ok:
  shows "sites_ok [exampleSite] [[TcU32]]" and "\<forall>c \<in> set exampleThreads. em_ok [[TcU32]] (snd c)"
    and "world_inv (exampleCaller False) (4 * length exampleThreads) exampleWorld []"
    and "wd_sites exampleWorld = [exampleSite]" and "pc_active (wd_process exampleWorld) \<noteq> 0"
    and "\<forall>site \<in> set [exampleSite]. sd_announcedKey site \<noteq>
      announceKey (ca_split (exampleCaller False)) (lg_segment (wd_logger exampleWorld))"
proof -
  show "sites_ok [exampleSite] [[TcU32]]"
    by (auto simp: sites_ok_def exampleSite_def intro: exI [of _ "[AU32 0]"])
  show "\<forall>c \<in> set exampleThreads. em_ok [[TcU32]] (snd c)" by (simp add: exampleThreads_def em_ok_def)
  have "prod_inv (exampleCaller False) (4 * length exampleThreads) (exampleProducer False 448) []"
    by (rule exampleProducer_inv) (simp_all add: exampleThreads_def)
  then show "world_inv (exampleCaller False) (4 * length exampleThreads) exampleWorld []"
    by (simp add: world_inv_def prod_inv_def exampleWorld_def owns_def exampleCaller_def emptyCache_def seg_def)
  have "announceKey False (exampleSegment False 448) = 7"
    by (simp add: exampleSegment_def createInMemory_fits storageFits_def initialise_def Let_def announceKey_def
        split: prod.split)
  then show "\<forall>site \<in> set [exampleSite]. sd_announcedKey site \<noteq>
      announceKey (ca_split (exampleCaller False)) (lg_segment (wd_logger exampleWorld))"
    by (simp add: exampleSite_def exampleCaller_def exampleWorld_def exampleProducer_def)
qed (simp_all add: exampleWorld_def)

theorem threads_decode_roundtrip_witness:
  "let recs = fst (decodeAll newDecoder (openSegment (sg_bytes (lg_segment (wd_logger
      (runThreads (exampleCaller False) exampleThreads exampleWorld))))))
   in \<exists>kept. subseq kept exampleThreads
        \<and> (\<forall>u. list_all2 (logged [exampleSite] [[TcU32]] (thread (exampleCaller False) u) (producer exampleWorld u))
             (map snd (filter (\<lambda>c. fst c = u) kept)) (filter (\<lambda>r. dr_ownerThread r = u) recs))"
  using threads_decode_roundtrip [OF exampleWorld_ok refl prod.collapse [symmetric]]
  unfolding Let_def by (meson subseq_filter_left subseq_order.order_trans)



text \<open>
  What a thread emits is what a reader decodes.  Take a Logger whose segment holds no
  chunk yet, call sites at distinct addresses that were not announced to this segment, and
  any run of emits.  Opening the segment's image and decoding it yields, in order, one
  record for every emission that was not dropped, with the site's identity, severity and
  source line, the time stamp, the correlation, the thread, and every argument byte up to
  the ceiling (flagged when an argument went past it, or when no chunk takes its chain); no
  record is undecodable or skipped, and the drop counter grew by exactly the number of
  missing emissions.
\<close>

theorem emit_decode_roundtrip:
  assumes "sites_ok sites types" and "\<forall>e \<in> set es. em_ok types e" and "prod_inv ca (4 * length es) P []"
    and "\<forall>site \<in> set sites. sd_announcedKey site \<noteq> announceKey (ca_split ca) (seg P)"
    and "emitAll ca es sites P = (sites', P')"
    and "decodeAll newDecoder (openSegment (sg_bytes (seg P'))) = (recs, dec)"
  shows "\<exists>kept. subseq kept es \<and> list_all2 (logged sites types ca P) kept recs
    \<and> dropped P' = (counterIncrement (ca_split ca) ^^ (length es - length kept)) (dropped P)
    \<and> dc_undecodable dec = 0 \<and> dc_skipped dec = 0"
  using assms by (rule run_decodes)

definition exampleRun :: "Emission list" where
  "exampleRun = [\<lparr>em_clock = (\<lambda>i. 9), em_scoped = 0, em_site = 0, em_args = [AU32 7]\<rparr>,
     \<lparr>em_clock = (\<lambda>i. 10), em_scoped = 5, em_site = 0, em_args = [AU32 8]\<rparr>]"

theorem emit_decode_roundtrip_witness:
  "\<exists>kept. subseq kept exampleRun
    \<and> list_all2 (logged [exampleSite] [[TcU32]] (exampleCaller False) (exampleProducer False 448)) kept
        (fst (decodeAll newDecoder (openSegment (sg_bytes (seg
          (snd (emitAll (exampleCaller False) exampleRun [exampleSite] (exampleProducer False 448))))))))"
proof -
  have ok: "sites_ok [exampleSite] [[TcU32]]"
    by (auto simp: sites_ok_def exampleSite_def intro: exI [of _ "[AU32 0]"])
  have em: "\<forall>e \<in> set exampleRun. em_ok [[TcU32]] e" by (simp add: exampleRun_def em_ok_def)
  have inv: "prod_inv (exampleCaller False) (4 * length exampleRun) (exampleProducer False 448) []"
    by (rule exampleProducer_inv) (simp_all add: exampleRun_def)
  have "announceKey False (exampleSegment False 448) = 7"
    by (simp add: exampleSegment_def createInMemory_fits storageFits_def initialise_def Let_def announceKey_def
        split: prod.split)
  then have key: "\<forall>site \<in> set [exampleSite]. sd_announcedKey site \<noteq>
      announceKey (ca_split (exampleCaller False)) (seg (exampleProducer False 448))"
    by (simp add: exampleSite_def exampleCaller_def seg_def exampleProducer_def)
  show ?thesis
    using emit_decode_roundtrip [OF ok em inv key prod.collapse [symmetric] prod.collapse [symmetric]] by blast
qed

text \<open>
  C25. A segment carries its own vocabulary: after declaring any list of subsystem names
  into a fresh segment, decoding its image answers for every id with the first name that
  was declared for it and not dropped, cut at the inline cap, and with an empty name for
  an id that was not declared; the drops are counted.
\<close>

theorem declared_names_read_back:
  assumes "prod_inv ca (2 * length names) P []" and "P' = declareAll ca clock 0 names P"
  shows "\<exists>kept. subseq kept names
    \<and> dropped P' = (counterIncrement (ca_split ca) ^^ (length names - length kept)) (dropped P)
    \<and> (\<forall>i. subsystemName (snd (decodeAll newDecoder (openSegment (sg_bytes (seg P'))))) i
         = (case map_of kept i of None \<Rightarrow> [] | Some name \<Rightarrow> take cInlineBytesCap name))"
  using assms by (rule declared_names)

theorem declared_names_read_back_witness:
  "\<exists>kept. subseq kept [(1, [97]), (1, [98])]
    \<and> subsystemName (snd (decodeAll newDecoder (openSegment (sg_bytes (seg
        (declareAll (exampleCaller True) (\<lambda>i. 9) 0 [(1, [97]), (1, [98])] (exampleProducer True 448))))))) 1
      = (case map_of kept (1 :: u32) of None \<Rightarrow> [] | Some name \<Rightarrow> take cInlineBytesCap name)"
proof -
  have "prod_inv (exampleCaller True) (2 * length [(1 :: u32, [97 :: u8]), (1, [98])]) (exampleProducer True 448) []"
    by (rule exampleProducer_inv) simp_all
  from declared_names_read_back [OF this refl, of "\<lambda>i. 9"] show ?thesis by blast
qed

end
